(* ===== verification/Prelude.thy ===== *)
theory Prelude imports Main "HOL-Library.Word" "HOL-Library.Multiset" begin

text \<open>
  Shared material: the shape of a stateful operation that may throw, byte-addressed
  memory with \<open>memmove\<close>, and facts on lists that several components use.
\<close>

section \<open>Stateful operations that may throw\<close>

text \<open>
  A C++ member function that returns \<open>'a\<close>, may throw \<open>'e\<close> and mutates \<open>*this\<close>
  (of type \<open>'s\<close>) becomes a function \<open>'s \<Rightarrow> ('e, 'a, 's) outcome\<close>: the state after
  the call is there on the normal and on the exceptional return.
\<close>

type_synonym ('e, 'a, 's) outcome = "('e + 'a) \<times> 's"

type_synonym byte = "8 word"
type_synonym int32 = "32 word"

named_theorems inv_intros \<open>introduction rules of the component invariants\<close>
named_theorems frame \<open>what an operation leaves unchanged\<close>

section \<open>Byte memory\<close>

type_synonym memory = "nat \<Rightarrow> byte"

definition memmove :: "memory \<Rightarrow> nat \<Rightarrow> nat \<Rightarrow> nat \<Rightarrow> memory" where
  "memmove m dst src n = (\<lambda>i. if dst \<le> i \<and> i < dst + n then m (src + (i - dst)) else m i)"

lemma memmove_inside [simp]: "i < n \<Longrightarrow> memmove m dst src n (dst + i) = m (src + i)"
  by (simp add: memmove_def)

lemma memmove_outside [simp]: "i < dst \<or> dst + n \<le> i \<Longrightarrow> memmove m dst src n i = m i"
  by (auto simp: memmove_def)

lemma memmove_self [simp]: "memmove m d d n = m"
  by (auto simp: memmove_def)

definition bytes_at :: "memory \<Rightarrow> nat \<Rightarrow> nat \<Rightarrow> byte list" where
  "bytes_at m off n = map (\<lambda>i. m (off + i)) [0..<n]"

lemma bytes_at_cong: "(\<And>i. i < n \<Longrightarrow> m (a + i) = m' (b + i)) \<Longrightarrow> bytes_at m a n = bytes_at m' b n"
  by (simp add: bytes_at_def)

lemma bytes_at_eqD: "bytes_at m a n = bytes_at m' b n \<Longrightarrow> i < n \<Longrightarrow> m (a + i) = m' (b + i)"
  by (simp add: bytes_at_def)

lemma bytes_at_memmove: "bytes_at (memmove m d s n) d n = bytes_at m s n"
  by (rule bytes_at_cong) simp

section \<open>Lists\<close>

lemma list_all2_ex: "list_all2 P xs ys \<Longrightarrow> x \<in> set xs \<Longrightarrow> \<exists>y\<in>set ys. P x y"
  by (induction rule: list_all2_induct) auto

section \<open>Runs that end\<close>

text \<open>The contract of a system whose every step makes a number smaller and that can make a step
  until it is done: its runs are bounded and can be continued to the end.\<close>

locale descending =
  fixes step :: "'s \<Rightarrow> 's \<Rightarrow> bool" and ok :: "'s \<Rightarrow> bool" and work :: "'s \<Rightarrow> nat" and final :: "'s \<Rightarrow> bool"
  assumes descends: "ok s \<Longrightarrow> step s s' \<Longrightarrow> ok s' \<and> work s' < work s"
    and progress: "ok s \<Longrightarrow> \<not> final s \<Longrightarrow> \<exists>s'. step s s'"
begin

lemma run_bound: "(step ^^ n) s t \<Longrightarrow> ok s \<Longrightarrow> ok t \<and> n + work t \<le> work s"
proof (induction n arbitrary: t)
  case (Suc n)
  then obtain u where "(step ^^ n) s u" "step u t" by auto
  with Suc.IH [of u] Suc.prems(2) descends [of u t] show ?case by auto
qed simp

lemma run_ends: "ok s \<Longrightarrow> \<exists>t. step\<^sup>*\<^sup>* s t \<and> ok t \<and> final t"
proof (induction "work s" arbitrary: s rule: less_induct)
  case less
  show ?case
  proof (cases "final s")
    case False
    with progress less.prems obtain s' where "step s s'" by blast
    with descends less show ?thesis by (meson converse_rtranclp_into_rtranclp)
  qed (use less.prems in blast)
qed

end

section \<open>Decimal output\<close>

text \<open>What \<open>sprintf\<close> prints for \<open>%zu\<close> and for \<open>%d\<close>.\<close>

fun show_nat :: "nat \<Rightarrow> string" where
  "show_nat n = (if n < 10 then [char_of (48 + n)]
     else show_nat (n div 10) @ [char_of (48 + n mod 10)])"

declare show_nat.simps [simp del]

definition show_int :: "int \<Rightarrow> string" where
  "show_int i = (if i < 0 then CHR ''-'' # show_nat (nat (- i)) else show_nat (nat i))"

definition newline :: string where
  "newline = [CHR 0x0A]"

end
