(* ===== verification/Alloc_Model.thy ===== *)
theory Alloc_Model imports Prelude begin

text \<open>
  The allocator of p1/allocator.h and p1/allocator.cpp: its data and operations.

  A \<open>std::list<MemoryBlock>\<close> is a list of records. What a \<open>Pointer\<close> holds, the address
  of the list node a block lives in, is the field \<open>mb_node\<close>: nodes keep their address
  while they are in the list, and a new node gets the next number of \<open>next_node\<close>.
  Offsets and lengths (\<open>size_t\<close>) are natural numbers; \<open>Alloc_Inv\<close> shows that no sum
  the code forms exceeds the size the constructor was given, so none wraps around, and every
  subtraction is guarded by a comparison.
  Memory is addressed relative to \<open>p_buffer\<close>.
\<close>

section \<open>Data\<close>

datatype alloc_error_type = InvalidFree | NoMemory

text \<open>
  \<open>Undefined\<close> is not an exception of the code: it stands for a dereferenced pointer
  to a node that is no longer in the list.
\<close>

datatype alloc_fault = AllocError alloc_error_type | Undefined

record memory_block =
  mb_node :: nat
  mb_offset :: nat
  mb_length :: nat
  mb_state :: bool

abbreviation new_block :: "nat \<Rightarrow> nat \<Rightarrow> nat \<Rightarrow> memory_block" where
  "new_block a off len \<equiv> \<lparr>mb_node = a, mb_offset = off, mb_length = len, mb_state = False\<rparr>"

definition is_free :: "memory_block \<Rightarrow> bool" where
  "is_free b = (\<not> mb_state b)"

type_synonym pointer = "nat option"

record allocator =
  blocks :: "memory_block list"
  buffer :: memory
  next_node :: nat

type_synonym 'a alloc_result = "(alloc_fault, 'a, allocator) outcome"

text \<open>The constructor \<open>Allocator(base, size)\<close>: one free block over the whole buffer.\<close>

definition allocator_init :: "memory \<Rightarrow> nat \<Rightarrow> allocator" where
  "allocator_init base sz = \<lparr>blocks = [new_block 0 0 sz], buffer = base, next_node = 1\<rparr>"

definition node_block :: "memory_block list \<Rightarrow> nat \<Rightarrow> memory_block option" where
  "node_block bs a = find (\<lambda>b. mb_node b = a) bs"

text \<open>\<open>Pointer::get\<close>: the block's address, relative to the buffer; \<open>None\<close> is NULL.\<close>

definition pointer_get :: "allocator \<Rightarrow> pointer \<Rightarrow> alloc_fault + nat option" where
  "pointer_get al p = (case p of
      None \<Rightarrow> Inr None
    | Some a \<Rightarrow> (case node_block (blocks al) a of
          None \<Rightarrow> Inl Undefined
        | Some b \<Rightarrow> Inr (Some (mb_offset b))))"

section \<open>alloc\<close>

text \<open>
  The search loop: the first free block that is long enough is taken. A longer one is cut,
  the rest becomes a new free block behind it (\<open>blocks.insert((++it)--, \<dots>)\<close> inserts
  before the successor and leaves \<open>it\<close> on the allocated block).
\<close>

fun alloc_loop :: "nat \<Rightarrow> nat \<Rightarrow> memory_block list \<Rightarrow> (nat \<times> memory_block list) option" where
  "alloc_loop N fresh [] = None"
| "alloc_loop N fresh (b # bs) =
     (if \<not> is_free b then map_option (map_prod id ((#) b)) (alloc_loop N fresh bs)
      else if N \<le> mb_length b then
        Some (mb_node b,
          if N < mb_length b
          then b\<lparr>mb_state := True, mb_length := N\<rparr>
               # new_block fresh (mb_offset b + N) (mb_length b - N) # bs
          else b\<lparr>mb_state := True\<rparr> # bs)
      else map_option (map_prod id ((#) b)) (alloc_loop N fresh bs))"

definition alloc :: "nat \<Rightarrow> allocator \<Rightarrow> pointer alloc_result" where
  "alloc N al = (case alloc_loop N (next_node al) (blocks al) of
      None \<Rightarrow> (Inl (AllocError NoMemory), al)
    | Some (a, bs) \<Rightarrow> (Inr (Some a), al\<lparr>blocks := bs, next_node := Suc (next_node al)\<rparr>))"

section \<open>merge\_empty\_blocks\<close>

text \<open>
  \<open>set_length\<close> through a pointer to a list node, and the write to \<open>*p_block\<close> that the
  loop makes at the end of a run of free blocks.
\<close>

definition set_length :: "nat \<Rightarrow> nat \<Rightarrow> memory_block list \<Rightarrow> memory_block list" where
  "set_length a n = map (\<lambda>b. if mb_node b = a then b\<lparr>mb_length := n\<rparr> else b)"

definition set_state :: "nat \<Rightarrow> bool \<Rightarrow> memory_block list \<Rightarrow> memory_block list" where
  "set_state a s = map (\<lambda>b. if mb_node b = a then b\<lparr>mb_state := s\<rparr> else b)"

definition close_run :: "nat option \<Rightarrow> nat \<Rightarrow> memory_block list \<Rightarrow> memory_block list" where
  "close_run p_block tot bs = (case p_block of None \<Rightarrow> bs | Some a \<Rightarrow> set_length a tot bs)"

text \<open>
  The loop, with the blocks already passed in \<open>seen\<close>. A free block that is not the first
  of its run is erased (it is not appended to \<open>seen\<close>); the code then steps back from the
  erased iterator, which is read as its former predecessor.
\<close>

fun merge_loop :: "memory_block list \<Rightarrow> memory_block list \<Rightarrow> nat option \<Rightarrow> nat
    \<Rightarrow> memory_block list" where
  "merge_loop seen [] p_block tot = close_run p_block tot seen"
| "merge_loop seen (b # bs) p_block tot =
     (if is_free b then
        (let tot' = tot + mb_length b in
         if tot' = mb_length b then merge_loop (seen @ [b]) bs (Some (mb_node b)) tot'
         else merge_loop seen bs p_block tot')
      else merge_loop (close_run p_block tot seen @ [b]) bs None 0)"

definition merge_empty_blocks :: "allocator \<Rightarrow> allocator" where
  "merge_empty_blocks al = al\<lparr>blocks := merge_loop [] (blocks al) None 0\<rparr>"

section \<open>free\<close>

text \<open>The \<open>Pointer&\<close> argument is set to NULL: the new pointer is returned.\<close>

definition free :: "pointer \<Rightarrow> allocator \<Rightarrow> pointer alloc_result" where
  "free p al = (case p of
      None \<Rightarrow> (Inl (AllocError InvalidFree), al)
    | Some a \<Rightarrow>
        if node_block (blocks al) a = None then (Inl Undefined, al)
        else (Inr None, merge_empty_blocks (al\<lparr>blocks := set_state a False (blocks al)\<rparr>)))"

section \<open>defrag\<close>

text \<open>
  One pass: free blocks are dropped and their lengths added up, used blocks and their
  bytes move down to \<open>block_offset\<close>.
\<close>

fun defrag_loop :: "memory_block list \<Rightarrow> memory \<Rightarrow> nat \<Rightarrow> nat
    \<Rightarrow> memory_block list \<times> memory \<times> nat \<times> nat" where
  "defrag_loop [] m block_offset block_length = ([], m, block_offset, block_length)"
| "defrag_loop (b # bs) m block_offset block_length =
     (if is_free b then defrag_loop bs m block_offset (block_length + mb_length b)
      else
        (let m' = memmove m block_offset (mb_offset b) (mb_length b);
             (bs', r) = defrag_loop bs m' (block_offset + mb_length b) block_length
         in (b\<lparr>mb_offset := block_offset\<rparr> # bs', r)))"

definition defrag :: "allocator \<Rightarrow> allocator" where
  "defrag al = (let (bs, m, off, len) = defrag_loop (blocks al) (buffer al) 0 0
     in al\<lparr>blocks := bs @ [new_block (next_node al) off len], buffer := m,
           next_node := Suc (next_node al)\<rparr>)"

section \<open>realloc\<close>

text \<open>\<open>find_block\<close> looks for the first block at the pointer's offset.\<close>

definition find_block :: "memory_block list \<Rightarrow> nat \<Rightarrow> memory_block option" where
  "find_block bs off = find (\<lambda>b. mb_offset b = off) bs"

text \<open>
  The search for a run of free blocks, the block \<open>a\<close> itself counting as free: the tot
  length of the run and the node of its first block (\<open>None\<close> is \<open>blocks.end()\<close>).
\<close>

fun find_run :: "nat \<Rightarrow> nat \<Rightarrow> memory_block list \<Rightarrow> nat \<Rightarrow> nat option \<Rightarrow> nat \<times> nat option" where
  "find_run N a [] len cand = (len, cand)"
| "find_run N a (b # bs) len cand =
     (if is_free b \<or> mb_node b = a
      then find_run N a bs (len + mb_length b) (if len = 0 then Some (mb_node b) else cand)
      else if N \<le> len then (len, cand)
      else find_run N a bs 0 None)"

text \<open>
  The loop ``erase merged blocks'': from the candidate \<open>c\<close> to the end of the list, every
  other block that is free or is \<open>a\<close> goes.
\<close>

fun erase_from :: "nat \<Rightarrow> nat \<Rightarrow> memory_block list \<Rightarrow> memory_block list" where
  "erase_from c a [] = []"
| "erase_from c a (b # bs) =
     (if mb_node b = c then b # filter (\<lambda>x. \<not> (is_free x \<or> mb_node x = a)) bs
      else b # erase_from c a bs)"

fun insert_after :: "nat \<Rightarrow> memory_block \<Rightarrow> memory_block list \<Rightarrow> memory_block list" where
  "insert_after c x [] = []"
| "insert_after c x (b # bs) = (if mb_node b = c then b # x # bs else b # insert_after c x bs)"

definition realloc_shrink :: "memory_block \<Rightarrow> nat \<Rightarrow> allocator \<Rightarrow> allocator" where
  "realloc_shrink it N al = merge_empty_blocks (al\<lparr>
     blocks := insert_after (mb_node it)
       (new_block (next_node al) (mb_offset it + N) (mb_length it - N))
       (set_length (mb_node it) N (blocks al)),
     next_node := Suc (next_node al)\<rparr>)"

text \<open>
  Growing: \<open>c\<close> is the first block of the run, \<open>len\<close> the run's length. The writes come in
  the code's order: the candidate is set used, then the old block is set free.
\<close>

definition realloc_grow :: "memory_block \<Rightarrow> memory_block \<Rightarrow> nat \<Rightarrow> nat \<Rightarrow> allocator \<Rightarrow> allocator" where
  "realloc_grow it c len N al = merge_empty_blocks (al\<lparr>
     blocks := insert_after (mb_node c)
       (new_block (next_node al) (mb_offset c + N) (len - N))
       (set_state (mb_node it) False
         (set_state (mb_node c) True
           (set_length (mb_node c) N
             (erase_from (mb_node c) (mb_node it) (blocks al))))),
     buffer := memmove (buffer al) (mb_offset c) (mb_offset it) (mb_length it),
     next_node := Suc (next_node al)\<rparr>)"

definition realloc :: "pointer \<Rightarrow> nat \<Rightarrow> allocator \<Rightarrow> pointer alloc_result" where
  "realloc p N al = (case p of
      None \<Rightarrow> alloc N al
    | Some a \<Rightarrow> (case node_block (blocks al) a of
        None \<Rightarrow> (Inl Undefined, al)
      | Some pb \<Rightarrow> (case find_block (blocks al) (mb_offset pb) of
          None \<Rightarrow> (Inl Undefined, al)
        | Some it \<Rightarrow>
            if mb_length it = N then (Inr p, al)
            else if N < mb_length it then (Inr p, realloc_shrink it N al)
            else (case find_run N (mb_node it) (blocks al) 0 None of
                (len, cand) \<Rightarrow>
                  if len < N then (Inl (AllocError NoMemory), al)
                  else (case cand of
                      None \<Rightarrow> (Inl Undefined, al)
                    | Some c \<Rightarrow> (case node_block (blocks al) c of
                        None \<Rightarrow> (Inl Undefined, al)
                      | Some cb \<Rightarrow> (Inr (Some c), realloc_grow it cb len N al)))))))"

section \<open>dump\<close>

definition dump_block :: "memory_block \<Rightarrow> string" where
  "dump_block b = ''offset: '' @ show_nat (mb_offset b) @ ''; ''
     @ ''length: '' @ show_nat (mb_length b) @ ''; ''
     @ ''empty: '' @ (if is_free b then ''True'' else ''False'') @ newline"

definition dump :: "allocator \<Rightarrow> string" where
  "dump al = concat (map dump_block (blocks al))"

end
