(* ===== verification/Alloc_Inv.thy ===== *)
theory Alloc_Inv imports Alloc_Model begin

text \<open>
  Invariants of the block list and the reference definitions the loops are compared with:
  \<open>fits\<close> (blocks in order, disjoint, inside the buffer), \<open>tiles\<close> (no gap between them),
  node addresses distinct, and \<open>coalesce\<close>, the recursive form of merge\_empty\_blocks.
\<close>

section \<open>Invariants\<close>

fun fits :: "nat \<Rightarrow> nat \<Rightarrow> memory_block list \<Rightarrow> bool" where
  "fits lo hi [] \<longleftrightarrow> lo \<le> hi"
| "fits lo hi (b # bs) \<longleftrightarrow> lo \<le> mb_offset b \<and> fits (mb_offset b + mb_length b) hi bs"

fun tiles :: "nat \<Rightarrow> nat \<Rightarrow> memory_block list \<Rightarrow> bool" where
  "tiles lo hi [] \<longleftrightarrow> lo = hi"
| "tiles lo hi (b # bs) \<longleftrightarrow> mb_offset b = lo \<and> tiles (lo + mb_length b) hi bs"

definition nodes_ok :: "nat \<Rightarrow> memory_block list \<Rightarrow> bool" where
  "nodes_ok fresh bs \<longleftrightarrow> distinct (map mb_node bs) \<and> (\<forall>b\<in>set bs. mb_node b < fresh)"

definition alloc_wf :: "nat \<Rightarrow> allocator \<Rightarrow> bool" where
  "alloc_wf sz al \<longleftrightarrow> fits 0 sz (blocks al) \<and> nodes_ok (next_node al) (blocks al)"

definition alloc_tiled :: "nat \<Rightarrow> allocator \<Rightarrow> bool" where
  "alloc_tiled sz al \<longleftrightarrow> tiles 0 sz (blocks al) \<and> nodes_ok (next_node al) (blocks al)"

definition used_blocks :: "memory_block list \<Rightarrow> memory_block list" where
  "used_blocks bs = filter (\<lambda>b. \<not> is_free b) bs"

definition free_total :: "memory_block list \<Rightarrow> nat" where
  "free_total bs = sum_list (map mb_length (filter is_free bs))"

text \<open>No free block of positive length is followed directly by a free block.\<close>

definition coalesced :: "memory_block list \<Rightarrow> bool" where
  "coalesced bs \<longleftrightarrow>
     successively (\<lambda>x y. \<not> (is_free x \<and> 0 < mb_length x \<and> is_free y)) bs"

text \<open>The region a live pointer owns.\<close>

definition live :: "allocator \<Rightarrow> nat \<Rightarrow> (nat \<times> nat) option" where
  "live al a = (case node_block (blocks al) a of
      None \<Rightarrow> None
    | Some b \<Rightarrow> if is_free b then None else Some (mb_offset b, mb_length b))"

definition disjoint_regions :: "nat \<times> nat \<Rightarrow> nat \<times> nat \<Rightarrow> bool" where
  "disjoint_regions r s \<longleftrightarrow> fst r + snd r \<le> fst s \<or> fst s + snd s \<le> fst r"

lemma is_free_simps [simp]:
  "is_free (b\<lparr>mb_state := s\<rparr>) \<longleftrightarrow> \<not> s"
  "is_free (b\<lparr>mb_length := n\<rparr>) \<longleftrightarrow> is_free b"
  "is_free (b\<lparr>mb_offset := n\<rparr>) \<longleftrightarrow> is_free b"
  "is_free (new_block a off len)"
  by (simp_all add: is_free_def)

lemma used_blocks_simps [simp]:
  "used_blocks [] = []"
  "used_blocks (b # bs) = (if is_free b then used_blocks bs else b # used_blocks bs)"
  "used_blocks (xs @ ys) = used_blocks xs @ used_blocks ys"
  by (simp_all add: used_blocks_def)

lemma free_total_simps [simp]:
  "free_total [] = 0"
  "free_total (b # bs) = (if is_free b then mb_length b + free_total bs else free_total bs)"
  "free_total (xs @ ys) = free_total xs + free_total ys"
  by (simp_all add: free_total_def)

lemma set_used_blocks: "b \<in> set (used_blocks bs) \<longleftrightarrow> b \<in> set bs \<and> \<not> is_free b"
  by (simp add: used_blocks_def)

section \<open>Order and bounds\<close>

lemma fits_mono: "fits lo hi bs \<Longrightarrow> lo' \<le> lo \<Longrightarrow> fits lo' hi bs"
  by (cases bs) auto

lemma fits_le: "fits lo hi bs \<Longrightarrow> lo \<le> hi"
  by (induction bs arbitrary: lo) force+

lemma fits_append:
  "fits lo hi (xs @ ys) \<longleftrightarrow> (\<exists>mid. fits lo mid xs \<and> fits mid hi ys)"
proof (induction xs arbitrary: lo)
  case Nil
  then show ?case by (auto intro: fits_mono)
qed auto

lemma fits_mem:
  "fits lo hi bs \<Longrightarrow> b \<in> set bs \<Longrightarrow> lo \<le> mb_offset b \<and> mb_offset b + mb_length b \<le> hi"
  by (induction bs arbitrary: lo) (fastforce dest: fits_le)+

lemma fits_sum: "fits lo hi bs \<Longrightarrow> lo + sum_list (map mb_length bs) \<le> hi"
  by (induction bs arbitrary: lo) force+

lemma tiles_append:
  "tiles lo hi (xs @ ys) \<longleftrightarrow> (\<exists>mid. tiles lo mid xs \<and> tiles mid hi ys)"
  by (induction xs arbitrary: lo) auto

lemma tiles_fits: "tiles lo hi bs \<Longrightarrow> fits lo hi bs"
  by (induction bs arbitrary: lo) auto

lemma tiles_sum: "tiles lo hi bs \<Longrightarrow> lo + sum_list (map mb_length bs) = hi"
  by (induction bs arbitrary: lo) fastforce+

lemma tiled_wf: "alloc_tiled sz al \<Longrightarrow> alloc_wf sz al"
  by (simp add: alloc_tiled_def alloc_wf_def tiles_fits)

lemma fits_disjoint:
  assumes "fits lo hi bs" "distinct (map mb_node bs)" "b \<in> set bs" "c \<in> set bs"
    "mb_node b \<noteq> mb_node c"
  shows "disjoint_regions (mb_offset b, mb_length b) (mb_offset c, mb_length c)"
  using assms
proof (induction bs arbitrary: lo)
  case (Cons d bs)
  then show ?case
    by (auto simp: disjoint_regions_def dest: fits_mem)
qed simp

section \<open>Finding blocks by node\<close>

lemma nodes_ok_simps [simp]:
  "nodes_ok f []"
  "nodes_ok f (b # bs) \<longleftrightarrow> mb_node b \<notin> mb_node ` set bs \<and> mb_node b < f \<and> nodes_ok f bs"
  by (auto simp: nodes_ok_def)

lemma nodes_ok_append [simp]:
  "nodes_ok f (xs @ ys) \<longleftrightarrow> nodes_ok f xs \<and> nodes_ok f ys
     \<and> mb_node ` set xs \<inter> mb_node ` set ys = {}"
  by (auto simp: nodes_ok_def)

lemma nodes_ok_Suc: "nodes_ok f bs \<Longrightarrow> nodes_ok (Suc f) bs"
  by (auto simp: nodes_ok_def)

lemma nodes_ok_fresh: "nodes_ok f bs \<Longrightarrow> f \<notin> mb_node ` set bs"
  by (auto simp: nodes_ok_def)

lemma nodes_ok_mset:
  "nodes_ok f bs \<Longrightarrow> map mb_node bs' = map mb_node bs \<Longrightarrow> nodes_ok f bs'"
  unfolding nodes_ok_def by (metis image_iff list.set_map)

lemma node_block_SomeD:
  "node_block bs a = Some b \<Longrightarrow> b \<in> set bs \<and> mb_node b = a"
  by (auto simp: node_block_def find_Some_iff)

lemma node_block_None: "node_block bs a = None \<longleftrightarrow> a \<notin> mb_node ` set bs"
  by (auto simp: node_block_def find_None_iff)

lemma node_block_mem:
  "distinct (map mb_node bs) \<Longrightarrow> b \<in> set bs \<Longrightarrow> node_block bs (mb_node b) = Some b"
  by (induction bs) (auto simp: node_block_def)

lemma node_block_iff:
  "distinct (map mb_node bs) \<Longrightarrow> node_block bs a = Some b \<longleftrightarrow> b \<in> set bs \<and> mb_node b = a"
  using node_block_SomeD node_block_mem by metis

lemma live_iff:
  assumes "distinct (map mb_node (blocks al))"
  shows "live al a = Some (off, len) \<longleftrightarrow>
    (\<exists>b\<in>set (used_blocks (blocks al)). mb_node b = a \<and> mb_offset b = off \<and> mb_length b = len)"
  using node_block_iff [OF assms, of a]
  by (auto simp: live_def set_used_blocks split: option.splits if_splits)
    (metis option.distinct(1) option.inject)+

text \<open>The live regions depend on the used blocks only.\<close>

lemma live_cong:
  assumes "nodes_ok f (blocks al)" "nodes_ok f' (blocks al')"
    "set (used_blocks (blocks al')) = set (used_blocks (blocks al))"
  shows "live al' = live al"
proof
  fix a
  have d: "distinct (map mb_node (blocks al))" "distinct (map mb_node (blocks al'))"
    using assms by (auto simp: nodes_ok_def)
  have "live al' a = Some r \<longleftrightarrow> live al a = Some r" for r
    using live_iff [OF d(1), of a "fst r" "snd r"] live_iff [OF d(2), of a "fst r" "snd r"]
    by (simp add: assms(3))
  then show "live al' a = live al a" by (metis option.exhaust)
qed

section \<open>merge\_empty\_blocks is coalesce\<close>

fun coalesce :: "memory_block list \<Rightarrow> memory_block list" where
  "coalesce (b # c # bs) =
     (if is_free b \<and> 0 < mb_length b \<and> is_free c
      then coalesce (b\<lparr>mb_length := mb_length b + mb_length c\<rparr> # bs)
      else b # coalesce (c # bs))"
| "coalesce bs = bs"

lemma set_length_notin: "a \<notin> mb_node ` set bs \<Longrightarrow> set_length a n bs = bs"
  by (induction bs) (auto simp: set_length_def)

lemma set_state_notin: "a \<notin> mb_node ` set bs \<Longrightarrow> set_state a s bs = bs"
  by (induction bs) (auto simp: set_state_def)

lemma set_length_simps [simp]:
  "set_length a n [] = []"
  "set_length a n (b # bs) =
     (if mb_node b = a then b\<lparr>mb_length := n\<rparr> else b) # set_length a n bs"
  "set_length a n (xs @ ys) = set_length a n xs @ set_length a n ys"
  by (simp_all add: set_length_def)

lemma set_state_simps [simp]:
  "set_state a s [] = []"
  "set_state a s (b # bs) =
     (if mb_node b = a then b\<lparr>mb_state := s\<rparr> else b) # set_state a s bs"
  "set_state a s (xs @ ys) = set_state a s xs @ set_state a s ys"
  by (simp_all add: set_state_def)

lemma update_length_self: "mb_length b = n \<Longrightarrow> b\<lparr>mb_length := n\<rparr> = b"
  by auto

lemma coalesce_used_hd [simp]: "\<not> is_free b \<Longrightarrow> coalesce (b # bs) = b # coalesce bs"
  by (cases bs) auto

lemma merge_loop_coalesce_aux:
  "distinct (map mb_node (seen @ bs)) \<Longrightarrow> merge_loop seen bs None 0 = seen @ coalesce bs"
  "distinct (map mb_node (seen @ p # bs)) \<Longrightarrow> is_free p \<Longrightarrow> mb_length p = 0 \<or> tot \<noteq> 0 \<Longrightarrow>
     merge_loop (seen @ [p]) bs (Some (mb_node p)) tot
       = seen @ coalesce (p\<lparr>mb_length := tot\<rparr> # bs)"
proof (induction bs arbitrary: seen p tot)
  case Nil
  { case 1 then show ?case by (simp add: close_run_def)
  next
    case 2 then show ?case by (simp add: close_run_def set_length_notin) }
next
  case (Cons b bs)
  { case 1
    show ?case
    proof (cases "is_free b")
      case True
      with 1 Cons.IH(2) [of seen b "mb_length b"] show ?thesis by auto
    next
      case False
      with 1 Cons.IH(1) [of "seen @ [b]"] show ?thesis by (simp add: close_run_def)
    qed
  next
    case 2
    show ?case
    proof (cases "is_free b")
      case True
      show ?thesis
      proof (cases "tot = 0")
        case z: True
        with 2 True Cons.IH(2) [of "seen @ [p]" b "mb_length b"] show ?thesis
          by (auto simp: Let_def update_length_self)
      next
        case False
        with 2 True Cons.IH(2) [of seen p "tot + mb_length b"] show ?thesis
          by (auto simp: Let_def)
      qed
    next
      case False
      with 2 Cons.IH(1) [of "seen @ [p\<lparr>mb_length := tot\<rparr>] @ [b]"] show ?thesis
        by (simp add: close_run_def set_length_notin)
    qed }
qed

lemma merge_loop_coalesce:
  "distinct (map mb_node bs) \<Longrightarrow> merge_loop [] bs None 0 = coalesce bs"
  using merge_loop_coalesce_aux(1) [of "[]" bs] by simp

lemma coalesce_fits: "fits lo hi bs \<Longrightarrow> fits lo hi (coalesce bs)"
proof (induction bs arbitrary: lo rule: coalesce.induct)
  case (1 b c bs)
  then show ?case
    using fits_mono [of "mb_offset c + mb_length c" hi bs "mb_offset b + (mb_length b + mb_length c)"]
    by auto
qed auto

lemma coalesce_tiles: "tiles lo hi bs \<Longrightarrow> tiles lo hi (coalesce bs)"
  by (induction bs arbitrary: lo rule: coalesce.induct) (auto simp: add.assoc)

lemma coalesce_nodes: "mb_node ` set (coalesce bs) \<subseteq> mb_node ` set bs"
  by (induction bs rule: coalesce.induct) auto

lemma coalesce_nodes_ok: "nodes_ok f bs \<Longrightarrow> nodes_ok f (coalesce bs)"
proof (induction bs rule: coalesce.induct)
  case (1 b c bs)
  then show ?case using coalesce_nodes [of "c # bs"] by auto
qed auto

lemma coalesce_used [simp]: "used_blocks (coalesce bs) = used_blocks bs"
  by (induction bs rule: coalesce.induct) auto

lemma coalesce_free_total [simp]: "free_total (coalesce bs) = free_total bs"
  by (induction bs rule: coalesce.induct) auto

lemma coalesce_hd:
  "coalesce (b # bs) \<noteq> [] \<and> is_free (hd (coalesce (b # bs))) = is_free b"
proof (induction "b # bs" arbitrary: b bs rule: coalesce.induct)
  case (1 b c bs)
  then show ?case by auto
qed auto

lemma coalesce_coalesced: "coalesced (coalesce bs)"
  unfolding coalesced_def
proof (induction bs rule: coalesce.induct)
  case (1 b c bs)
  then show ?case using coalesce_hd [of c bs]
    by (auto simp: successively_Cons)
qed auto

end
