(* ===== verification/Alloc_Ops.thy ===== *)
theory Alloc_Ops imports Alloc_Inv begin

text \<open>
  What each operation of the allocator does to the block list, the live regions and the
  bytes: alloc and free, then defrag, then realloc.
\<close>

section \<open>alloc\<close>

definition cut_block :: "nat \<Rightarrow> nat \<Rightarrow> memory_block \<Rightarrow> memory_block list" where
  "cut_block N fresh b = (if N < mb_length b
     then [b\<lparr>mb_state := True, mb_length := N\<rparr>,
           new_block fresh (mb_offset b + N) (mb_length b - N)]
     else [b\<lparr>mb_state := True\<rparr>])"

lemma alloc_loop_SomeD:
  assumes "alloc_loop N fresh bs = Some (a, bs')"
  shows "\<exists>xs b ys. bs = xs @ b # ys \<and> bs' = xs @ cut_block N fresh b @ ys \<and> a = mb_node b
    \<and> is_free b \<and> N \<le> mb_length b \<and> (\<forall>x\<in>set xs. is_free x \<longrightarrow> mb_length x < N)"
  using assms
proof (induction bs arbitrary: bs')
  case (Cons b bs)
  show ?case
  proof (cases "is_free b \<and> N \<le> mb_length b")
    case True
    with Cons.prems show ?thesis
      by (intro exI [of _ "[]"] exI [of _ b] exI [of _ bs]) (auto simp: cut_block_def split: if_splits)
  next
    case False
    with Cons.prems obtain bs1 where 1: "alloc_loop N fresh bs = Some (a, bs1)" "bs' = b # bs1"
      by (auto split: if_splits)
    from Cons.IH [OF 1(1)] obtain xs c ys where "bs = xs @ c # ys"
      "bs1 = xs @ cut_block N fresh c @ ys" "a = mb_node c" "is_free c" "N \<le> mb_length c"
      "\<forall>x\<in>set xs. is_free x \<longrightarrow> mb_length x < N" by blast
    with 1 False show ?thesis
      by (intro exI [of _ "b # xs"] exI [of _ c] exI [of _ ys]) auto
  qed
qed simp

lemma alloc_loop_None: "alloc_loop N fresh bs = None \<longleftrightarrow> (\<forall>b\<in>set bs. is_free b \<longrightarrow> mb_length b < N)"
  by (induction bs) (auto simp: not_le)

lemma alloc_InrD:
  assumes "alloc N al = (Inr p, al')"
  obtains xs b ys where "blocks al = xs @ b # ys" "p = Some (mb_node b)" "is_free b"
    "N \<le> mb_length b" "\<forall>x\<in>set xs. is_free x \<longrightarrow> mb_length x < N"
    "al' = al\<lparr>blocks := xs @ cut_block N (next_node al) b @ ys, next_node := Suc (next_node al)\<rparr>"
  using assms by (auto simp: alloc_def split: option.splits dest!: alloc_loop_SomeD)

lemma alloc_Inl: "alloc N al = (Inl e, al') \<longleftrightarrow>
    e = AllocError NoMemory \<and> al' = al \<and> (\<forall>b\<in>set (blocks al). is_free b \<longrightarrow> mb_length b < N)"
  using alloc_loop_None [of N "next_node al" "blocks al"]
  by (auto simp: alloc_def split: option.splits)

lemma cut_block_fits:
  "N \<le> mb_length b \<Longrightarrow> lo \<le> mb_offset b \<Longrightarrow> fits (mb_offset b + mb_length b) hi ys \<Longrightarrow>
    fits lo hi (cut_block N f b @ ys)"
  by (auto simp: cut_block_def)

lemma cut_block_tiles:
  "N \<le> mb_length b \<Longrightarrow> tiles (mb_offset b + mb_length b) hi ys \<Longrightarrow>
    tiles (mb_offset b) hi (cut_block N f b @ ys)"
  by (auto simp: cut_block_def)

lemma cut_block_nodes_ok:
  "nodes_ok f (xs @ b # ys) \<Longrightarrow> nodes_ok (Suc f) (xs @ cut_block N f b @ ys)"
  by (auto simp: cut_block_def nodes_ok_Suc dest: nodes_ok_fresh)

lemma used_cut_block [simp]:
  "N \<le> mb_length b \<Longrightarrow> used_blocks (cut_block N f b) = [b\<lparr>mb_state := True, mb_length := N\<rparr>]"
  by (auto simp: cut_block_def)

lemma alloc_keeps_wf:
  assumes "alloc_wf sz al" "alloc N al = (r, al')"
  shows "alloc_wf sz al'"
proof (cases r)
  case (Inl e)
  with assms show ?thesis by (simp add: alloc_Inl)
next
  case (Inr p)
  with assms(2) have "alloc N al = (Inr p, al')" by simp
  then obtain xs b ys where "blocks al = xs @ b # ys" "is_free b" "N \<le> mb_length b"
    "al' = al\<lparr>blocks := xs @ cut_block N (next_node al) b @ ys, next_node := Suc (next_node al)\<rparr>"
    by (rule alloc_InrD)
  with assms(1) show ?thesis
    using cut_block_nodes_ok [of "next_node al" xs b ys N]
    by (auto simp: alloc_wf_def fits_append [of _ _ xs] intro: cut_block_fits simp del: nodes_ok_append)
qed

lemma alloc_keeps_tiled:
  assumes "alloc_tiled sz al" "alloc N al = (r, al')"
  shows "alloc_tiled sz al'"
proof (cases r)
  case (Inl e)
  with assms show ?thesis by (simp add: alloc_Inl)
next
  case (Inr p)
  with assms(2) have "alloc N al = (Inr p, al')" by simp
  then obtain xs b ys where "blocks al = xs @ b # ys" "is_free b" "N \<le> mb_length b"
    "al' = al\<lparr>blocks := xs @ cut_block N (next_node al) b @ ys, next_node := Suc (next_node al)\<rparr>"
    by (rule alloc_InrD)
  with assms(1) show ?thesis
    using cut_block_nodes_ok [of "next_node al" xs b ys N]
    by (auto simp: alloc_tiled_def tiles_append [of _ _ xs] intro: cut_block_tiles simp del: nodes_ok_append)
qed


lemma wf_nodes: "alloc_wf sz al \<Longrightarrow> nodes_ok (next_node al) (blocks al)"
  by (simp add: alloc_wf_def)

lemma wf_distinct: "alloc_wf sz al \<Longrightarrow> distinct (map mb_node (blocks al))"
  by (simp add: alloc_wf_def nodes_ok_def)

lemma live_bounds:
  assumes "alloc_wf sz al" "live al a = Some (off, len)"
  shows "off + len \<le> sz"
  using assms fits_mem [of 0 sz "blocks al"] wf_distinct [OF assms(1)]
  by (auto simp: live_iff set_used_blocks alloc_wf_def)

lemma live_disjoint:
  assumes "alloc_wf sz al" "live al a = Some r" "live al b = Some s" "a \<noteq> b"
  shows "disjoint_regions r s"
  using assms live_iff [OF wf_distinct [OF assms(1)], of a "fst r" "snd r"]
    live_iff [OF wf_distinct [OF assms(1)], of b "fst s" "snd s"]
  by (auto simp: set_used_blocks alloc_wf_def dest: fits_disjoint [OF _ wf_distinct [OF assms(1)]])

text \<open>Live regions after a change of the used blocks: one added, one removed.\<close>

lemma live_add:
  assumes "nodes_ok f (blocks al)" "nodes_ok f' (blocks al')" "\<not> is_free b"
    "live al (mb_node b) = None"
    "set (used_blocks (blocks al')) = insert b (set (used_blocks (blocks al)))"
  shows "live al' = (live al)(mb_node b \<mapsto> (mb_offset b, mb_length b))"
proof
  fix a
  have d: "distinct (map mb_node (blocks al))" "distinct (map mb_node (blocks al'))"
    using assms by (auto simp: nodes_ok_def)
  have none: "\<forall>c\<in>set (used_blocks (blocks al)). mb_node c \<noteq> mb_node b"
    using assms(4) live_iff [OF d(1), of "mb_node b"] by (metis option.distinct(1))
  have "live al' a = Some r \<longleftrightarrow> ((live al)(mb_node b \<mapsto> (mb_offset b, mb_length b))) a = Some r" for r
    using live_iff [OF d(1), of a "fst r" "snd r"] live_iff [OF d(2), of a "fst r" "snd r"] none
    by (cases r) (auto simp: assms(5))
  then show "live al' a = ((live al)(mb_node b \<mapsto> (mb_offset b, mb_length b))) a"
    by (metis option.exhaust)
qed

lemma live_remove:
  assumes "nodes_ok f (blocks al)" "nodes_ok f' (blocks al')"
    "set (used_blocks (blocks al')) = {c \<in> set (used_blocks (blocks al)). mb_node c \<noteq> a}"
  shows "live al' = (live al)(a := None)"
proof
  fix b
  have d: "distinct (map mb_node (blocks al))" "distinct (map mb_node (blocks al'))"
    using assms by (auto simp: nodes_ok_def)
  have "live al' b = Some r \<longleftrightarrow> ((live al)(a := None)) b = Some r" for r
    using live_iff [OF d(1), of b "fst r" "snd r"] live_iff [OF d(2), of b "fst r" "snd r"]
    by (cases r) (auto simp: assms(3))
  then show "live al' b = ((live al)(a := None)) b"
    by (metis option.exhaust)
qed

lemma alloc_live:
  assumes "alloc_wf sz al" "alloc N al = (Inr p, al')"
  shows "\<exists>a b. p = Some a \<and> b \<in> set (blocks al) \<and> is_free b \<and> mb_node b = a \<and> N \<le> mb_length b \<and>
    live al a = None \<and> live al' = (live al)(a \<mapsto> (mb_offset b, N)) \<and> buffer al' = buffer al"
proof -
  from assms(2) obtain xs b ys where b: "blocks al = xs @ b # ys" "p = Some (mb_node b)"
    "is_free b" "N \<le> mb_length b"
    "al' = al\<lparr>blocks := xs @ cut_block N (next_node al) b @ ys, next_node := Suc (next_node al)\<rparr>"
    by (rule alloc_InrD)
  have bl: "node_block (blocks al) (mb_node b) = Some b"
    by (rule node_block_mem [OF wf_distinct [OF assms(1)]]) (simp add: b)
  then have "live al (mb_node b) = None" by (simp add: live_def b(3))
  moreover have "live al' = (live al)(mb_node b \<mapsto> (mb_offset b, N))"
    using live_add [OF wf_nodes [OF assms(1)] wf_nodes [OF alloc_keeps_wf [OF assms]],
      of "b\<lparr>mb_state := True, mb_length := N\<rparr>"] calculation
    by (auto simp: b)
  ultimately show ?thesis using b by auto
qed

section \<open>free\<close>

lemma set_state_map_node [simp]: "map mb_node (set_state a s bs) = map mb_node bs"
  by (induction bs) auto

lemma set_length_map_node [simp]: "map mb_node (set_length a n bs) = map mb_node bs"
  by (induction bs) auto

lemma set_state_fits [simp]: "fits lo hi (set_state a s bs) = fits lo hi bs"
  by (induction bs arbitrary: lo) auto

lemma set_state_tiles [simp]: "tiles lo hi (set_state a s bs) = tiles lo hi bs"
  by (induction bs arbitrary: lo) auto

lemma set_state_nodes_ok [simp]: "nodes_ok f (set_state a s bs) = nodes_ok f bs"
  by (metis nodes_ok_mset set_state_map_node)

lemma set_state_False_used:
  "used_blocks (set_state a False bs) = filter (\<lambda>b. mb_node b \<noteq> a) (used_blocks bs)"
  by (induction bs) auto

lemma merge_empty_blocks_eq:
  "nodes_ok f (blocks al) \<Longrightarrow> merge_empty_blocks al = al\<lparr>blocks := coalesce (blocks al)\<rparr>"
  by (simp add: merge_empty_blocks_def merge_loop_coalesce nodes_ok_def)

lemma merge_keeps_wf: "alloc_wf sz al \<Longrightarrow> alloc_wf sz (merge_empty_blocks al)"
  using merge_empty_blocks_eq [OF wf_nodes]
  by (auto simp: alloc_wf_def coalesce_fits coalesce_nodes_ok merge_empty_blocks_eq)

lemma merge_keeps_tiled: "alloc_tiled sz al \<Longrightarrow> alloc_tiled sz (merge_empty_blocks al)"
  by (auto simp: alloc_tiled_def coalesce_tiles coalesce_nodes_ok merge_empty_blocks_eq)

lemma merge_buffer [simp]: "buffer (merge_empty_blocks al) = buffer al"
  by (simp add: merge_empty_blocks_def)

lemma free_SomeD:
  assumes "nodes_ok f (blocks al)" "free (Some a) al = (Inr q, al')"
  shows "q = None \<and> a \<in> mb_node ` set (blocks al)
    \<and> al' = al\<lparr>blocks := coalesce (set_state a False (blocks al))\<rparr>"
  using assms
  by (auto simp: free_def node_block_None merge_empty_blocks_eq split: if_splits)

lemma free_keeps_wf:
  "alloc_wf sz al \<Longrightarrow> free p al = (r, al') \<Longrightarrow> alloc_wf sz al'"
  by (auto simp: free_def alloc_wf_def intro!: merge_keeps_wf [unfolded alloc_wf_def]
      split: option.splits if_splits)

lemma free_keeps_tiled:
  "alloc_tiled sz al \<Longrightarrow> free p al = (r, al') \<Longrightarrow> alloc_tiled sz al'"
  by (auto simp: free_def alloc_tiled_def intro!: merge_keeps_tiled [unfolded alloc_tiled_def]
      split: option.splits if_splits)

lemma free_live:
  assumes "alloc_wf sz al" "free (Some a) al = (Inr q, al')"
  shows "q = None \<and> live al' = (live al)(a := None) \<and> buffer al' = buffer al"
proof -
  note F = free_SomeD [OF wf_nodes [OF assms(1)] assms(2)]
  have "live al' = (live al)(a := None)"
    by (rule live_remove [OF wf_nodes [OF assms(1)] wf_nodes [OF free_keeps_wf [OF assms]]])
      (auto simp: F set_state_False_used)
  then show ?thesis using F by simp
qed

section \<open>defrag\<close>

text \<open>The block \<open>b'\<close> is \<open>b\<close> moved, with its bytes, from memory \<open>m\<close> to memory \<open>m'\<close>.\<close>

definition moved_block :: "memory \<Rightarrow> memory \<Rightarrow> memory_block \<Rightarrow> memory_block \<Rightarrow> bool" where
  "moved_block m m' b b' \<longleftrightarrow>
     mb_node b' = mb_node b \<and> mb_length b' = mb_length b \<and> \<not> is_free b' \<and>
     bytes_at m' (mb_offset b') (mb_length b) = bytes_at m (mb_offset b) (mb_length b)"

lemma defrag_loop_spec:
  assumes "fits lo hi bs" "bo \<le> lo" "defrag_loop bs m bo bl = (bs', m', off, len)"
  shows "list_all2 (moved_block m m') (used_blocks bs) bs'
    \<and> tiles bo off bs' \<and> len = bl + free_total bs
    \<and> (\<forall>i. i < bo \<or> hi \<le> i \<longrightarrow> m' i = m i)"
  using assms
proof (induction bs arbitrary: lo bo bl m bs')
  case (Cons b bs)
  show ?case
  proof (cases "is_free b")
    case True
    with Cons.prems show ?thesis
      using Cons.IH [of "mb_offset b + mb_length b" bo m "bl + mb_length b" bs'] by simp
  next
    case False
    let ?m = "memmove m bo (mb_offset b) (mb_length b)"
    let ?hi = "mb_offset b + mb_length b"
    from False Cons.prems(3) obtain bs1 where
      l: "defrag_loop bs ?m (bo + mb_length b) bl = (bs1, m', off, len)"
      and bs': "bs' = b\<lparr>mb_offset := bo\<rparr> # bs1"
      by (auto simp: Let_def split: prod.splits)
    have f: "fits ?hi hi bs" and lo: "bo \<le> mb_offset b" using Cons.prems by auto
    then have hi: "?hi \<le> hi" by (blast dest: fits_le)
    note IH = Cons.IH [OF f _ l]
    have m': "m' i = ?m i" if "i < bo + mb_length b \<or> hi \<le> i" for i
      using IH lo that by auto
    have tl: "bytes_at ?m (mb_offset c) (mb_length c) = bytes_at m (mb_offset c) (mb_length c)"
      if "c \<in> set (used_blocks bs)" for c
      using fits_mem [OF f, of c] that lo
      by (intro bytes_at_cong) (auto simp: set_used_blocks intro: memmove_outside)
    have "bytes_at m' bo (mb_length b) = bytes_at m (mb_offset b) (mb_length b)"
      by (rule bytes_at_cong) (simp add: m')
    then have "moved_block m m' b (b\<lparr>mb_offset := bo\<rparr>)"
      using False by (simp add: moved_block_def)
    moreover have "m' i = m i" if "i < bo \<or> hi \<le> i" for i
      using that hi lo by (subst m') auto
    moreover have "list_all2 (moved_block m m') (used_blocks bs) bs1"
      using IH lo tl by (auto simp: moved_block_def elim!: list.rel_mono_strong)
    ultimately show ?thesis
      using IH lo False by (auto simp: bs')
  qed
qed simp


lemma moved_blocks:
  assumes "list_all2 (moved_block m m') bs bs'"
  shows "map mb_node bs' = map mb_node bs" "\<forall>b\<in>set bs'. \<not> is_free b"
  using assms by (induction rule: list_all2_induct) (auto simp: moved_block_def)

lemma all_used: "\<forall>b\<in>set bs. \<not> is_free b \<Longrightarrow> used_blocks bs = bs"
  by (induction bs) auto

lemma defrag_wfD:
  assumes "alloc_wf sz al"
  obtains bs' off where
    "blocks (defrag al) = bs' @ [new_block (next_node al) off (free_total (blocks al))]"
    "list_all2 (moved_block (buffer al) (buffer (defrag al))) (used_blocks (blocks al)) bs'"
    "tiles 0 off bs'" "\<forall>b\<in>set bs'. \<not> is_free b" "map mb_node bs' = map mb_node (used_blocks (blocks al))"
    "next_node (defrag al) = Suc (next_node al)"
proof -
  obtain bs' m' off len where d: "defrag_loop (blocks al) (buffer al) 0 0 = (bs', m', off, len)"
    by (metis prod_cases4)
  from assms have "fits 0 sz (blocks al)" by (simp add: alloc_wf_def)
  note S = defrag_loop_spec [OF this le0 d]
  show ?thesis
    by (rule that [of bs' off]) (use S in \<open>auto simp: defrag_def d moved_blocks\<close>)
qed

lemma fits_used_sum:
  "fits lo hi bs \<Longrightarrow> lo + sum_list (map mb_length (used_blocks bs)) + free_total bs \<le> hi"
  by (induction bs arbitrary: lo) force+

lemma tiles_used_sum:
  "tiles lo hi bs \<Longrightarrow> lo + sum_list (map mb_length (used_blocks bs)) + free_total bs = hi"
  by (induction bs arbitrary: lo) force+

lemma moved_blocks_length:
  "list_all2 (moved_block m m') bs bs' \<Longrightarrow> map mb_length bs' = map mb_length bs"
  by (induction rule: list_all2_induct) (auto simp: moved_block_def)

lemma nodes_ok_filter: "nodes_ok f bs \<Longrightarrow> nodes_ok f (filter P bs)"
  by (auto simp: nodes_ok_def distinct_map_filter)

lemma defrag_keeps_wf:
  assumes "alloc_wf sz al"
  shows "alloc_wf sz (defrag al)" "alloc_tiled sz al \<Longrightarrow> alloc_tiled sz (defrag al)"
proof -
  obtain bs' off where B:
    "blocks (defrag al) = bs' @ [new_block (next_node al) off (free_total (blocks al))]"
    "list_all2 (moved_block (buffer al) (buffer (defrag al))) (used_blocks (blocks al)) bs'"
    "tiles 0 off bs'" "map mb_node bs' = map mb_node (used_blocks (blocks al))"
    "next_node (defrag al) = Suc (next_node al)"
    by (rule defrag_wfD [OF assms])
  have sum: "sum_list (map mb_length (used_blocks (blocks al))) = off"
    using tiles_sum [OF B(3)] moved_blocks_length [OF B(2)] by simp
  have n: "nodes_ok (Suc (next_node al)) (blocks (defrag al))"
    using nodes_ok_mset [OF nodes_ok_filter [OF wf_nodes [OF assms]] B(4) [unfolded used_blocks_def]]
    by (auto simp: B(1) nodes_ok_Suc dest: nodes_ok_fresh)
  show "alloc_wf sz (defrag al)"
    using n B(3) sum fits_used_sum [of 0 sz "blocks al"] assms tiles_fits [OF B(3)]
    by (auto simp: alloc_wf_def B(1,5) fits_append intro!: exI [of _ off])
  show "alloc_tiled sz (defrag al)" if "alloc_tiled sz al"
    using n B(3) sum tiles_used_sum [of 0 sz "blocks al"] that
    by (auto simp: alloc_tiled_def B(1,5) tiles_append intro!: exI [of _ off])
qed

text \<open>A live region keeps its length and its bytes.\<close>

lemma defrag_live:
  assumes "alloc_wf sz al"
  shows "live al a = Some (off, len) \<Longrightarrow> \<exists>off'. live (defrag al) a = Some (off', len) \<and>
    bytes_at (buffer (defrag al)) off' len = bytes_at (buffer al) off len"
    and "live al a = None \<Longrightarrow> live (defrag al) a = None"
proof -
  obtain bs' tail where B:
    "blocks (defrag al) = bs' @ [new_block (next_node al) tail (free_total (blocks al))]"
    "list_all2 (moved_block (buffer al) (buffer (defrag al))) (used_blocks (blocks al)) bs'"
    "\<forall>b\<in>set bs'. \<not> is_free b"
    by (rule defrag_wfD [OF assms])
  have u: "used_blocks (blocks (defrag al)) = bs'" using B(3) by (simp add: B(1) all_used)
  note L = live_iff [OF wf_distinct [OF assms]]
    live_iff [OF wf_distinct [OF defrag_keeps_wf(1) [OF assms]], unfolded u]
  show "\<exists>off'. live (defrag al) a = Some (off', len) \<and>
      bytes_at (buffer (defrag al)) off' len = bytes_at (buffer al) off len"
    if "live al a = Some (off, len)"
  proof -
    from that obtain b where b: "b \<in> set (used_blocks (blocks al))" "mb_node b = a"
      "mb_offset b = off" "mb_length b = len" by (auto simp: L)
    with B(2) obtain b' where "b' \<in> set bs'" "moved_block (buffer al) (buffer (defrag al)) b b'"
      by (meson list_all2_ex)
    then show ?thesis using b by (auto simp: L moved_block_def)
  qed
  show "live (defrag al) a = None" if none: "live al a = None"
  proof (rule ccontr)
    assume "live (defrag al) a \<noteq> None"
    then obtain o2 l2 where "live (defrag al) a = Some (o2, l2)" by auto
    then obtain b' where "b' \<in> set bs'" "mb_node b' = a" by (auto simp: L)
    then obtain b where "b \<in> set (used_blocks (blocks al))" "mb_node b = a"
      using moved_blocks(1) [OF B(2)] by (metis in_set_conv_nth length_map nth_map nth_mem)
    with none show False using L(1) [of a "mb_offset b" "mb_length b"] by auto
  qed
qed

end
