(* ===== verification/Alloc_Realloc.thy ===== *)
theory Alloc_Realloc imports Alloc_Ops begin

text \<open>
  realloc: the run search, the invariant on every branch, what shrinking and growing do to
  the live regions and to the bytes.
\<close>

section \<open>The run search\<close>

definition in_run :: "nat \<Rightarrow> memory_block \<Rightarrow> bool" where
  "in_run a b \<longleftrightarrow> is_free b \<or> mb_node b = a"

abbreviation total_length :: "memory_block list \<Rightarrow> nat" where
  "total_length bs \<equiv> sum_list (map mb_length bs)"

lemma find_run_sound:
  assumes "find_run N a bs len cand = (L, C)" "0 < N" "N \<le> L"
    "len = 0 \<or> (\<exists>xs c r. pre = xs @ c # r \<and> cand = Some (mb_node c)
        \<and> (\<forall>b\<in>set (c # r). in_run a b) \<and> len = total_length (c # r))"
  shows "\<exists>xs c r ys. pre @ bs = xs @ c # r @ ys \<and> C = Some (mb_node c)
        \<and> (\<forall>b\<in>set (c # r). in_run a b) \<and> L = total_length (c # r)"
  using assms
proof (induction bs arbitrary: pre len cand)
  case Nil
  then obtain xs c r where "pre = xs @ c # r" "cand = Some (mb_node c)"
    "\<forall>b\<in>set (c # r). in_run a b" "len = total_length (c # r)" "L = len" "C = cand"
    by auto
  then show ?case
    by (intro exI [of _ xs] exI [of _ c] exI [of _ r] exI [of _ "[]"]) auto
next
  case (Cons b bs)
  show ?case
  proof (cases "in_run a b")
    case True
    let ?cand = "if len = 0 then Some (mb_node b) else cand"
    have "\<exists>xs c r. pre @ [b] = xs @ c # r \<and> ?cand = Some (mb_node c)
        \<and> (\<forall>b\<in>set (c # r). in_run a b) \<and> len + mb_length b = total_length (c # r)"
    proof (cases "len = 0")
      case z: True
      show ?thesis using True z
        by (intro exI [of _ pre] exI [of _ b] exI [of _ "[]"]) auto
    next
      case False
      with Cons.prems(4) obtain xs c r where "pre = xs @ c # r" "cand = Some (mb_node c)"
        "\<forall>b\<in>set (c # r). in_run a b" "len = total_length (c # r)" by auto
      then show ?thesis using True False
        by (intro exI [of _ xs] exI [of _ c] exI [of _ "r @ [b]"]) auto
    qed
    with Cons.IH [of "len + mb_length b" ?cand "pre @ [b]"] Cons.prems True
    show ?thesis by (simp add: in_run_def)
  next
    case False
    show ?thesis
    proof (cases "N \<le> len")
      case True
      with False Cons.prems obtain xs c r where "pre = xs @ c # r" "cand = Some (mb_node c)"
        "\<forall>b\<in>set (c # r). in_run a b" "len = total_length (c # r)" "L = len" "C = cand"
        by (auto simp: in_run_def)
      then show ?thesis
        by (intro exI [of _ xs] exI [of _ c] exI [of _ r] exI [of _ "b # bs"]) auto
    next
      case False2: False
      with False Cons.prems Cons.IH [of 0 None "pre @ [b]"] show ?thesis
        by (simp add: in_run_def)
    qed
  qed
qed

lemma find_run_complete:
  assumes "(\<exists>xs r ys. bs = xs @ r @ ys \<and> (\<forall>b\<in>set r. in_run a b) \<and> N \<le> total_length r)
    \<or> (\<exists>r ys. bs = r @ ys \<and> (\<forall>b\<in>set r. in_run a b) \<and> N \<le> len + total_length r)"
  shows "N \<le> fst (find_run N a bs len cand)"
  using assms
proof (induction bs arbitrary: len cand)
  case (Cons b bs)
  show ?case
  proof (cases "in_run a b")
    case True
    have "(\<exists>xs r ys. bs = xs @ r @ ys \<and> (\<forall>b\<in>set r. in_run a b) \<and> N \<le> total_length r)
      \<or> (\<exists>r ys. bs = r @ ys \<and> (\<forall>b\<in>set r. in_run a b)
          \<and> N \<le> len + mb_length b + total_length r)"
      using Cons.prems
    proof (elim disjE exE conjE)
      fix xs r ys assume r: "b # bs = xs @ r @ ys" "\<forall>b\<in>set r. in_run a b" "N \<le> total_length r"
      show ?thesis
      proof (cases xs)
        case Nil
        show ?thesis
        proof (cases r)
          case Nil
          with r show ?thesis by (intro disjI2 exI [of _ "[]"] exI [of _ bs]) auto
        next
          case (Cons c r')
          with Nil r show ?thesis by (intro disjI2 exI [of _ r'] exI [of _ ys]) auto
        qed
      next
        case (Cons x xs')
        with r show ?thesis by auto
      qed
    next
      fix r ys assume r: "b # bs = r @ ys" "\<forall>b\<in>set r. in_run a b" "N \<le> len + total_length r"
      show ?thesis
      proof (cases r)
        case Nil
        with r show ?thesis by (intro disjI2 exI [of _ "[]"] exI [of _ bs]) auto
      next
        case (Cons c r')
        with r show ?thesis by (intro disjI2 exI [of _ r'] exI [of _ ys]) auto
      qed
    qed
    from Cons.IH [OF this] True show ?thesis by (simp add: in_run_def)
  next
    case False
    show ?thesis
    proof (cases "N \<le> len")
      case True
      with False show ?thesis by (simp add: in_run_def)
    next
      case lt: False
      have "\<exists>xs r ys. bs = xs @ r @ ys \<and> (\<forall>b\<in>set r. in_run a b) \<and> N \<le> total_length r"
        using Cons.prems
      proof (elim disjE exE conjE)
        fix xs r ys assume r: "b # bs = xs @ r @ ys" "\<forall>b\<in>set r. in_run a b" "N \<le> total_length r"
        show ?thesis
        proof (cases xs)
          case Nil
          with r lt False show ?thesis by (cases r) auto
        next
          case (Cons x xs')
          with r have "bs = xs' @ r @ ys" by simp
          with r show ?thesis by blast
        qed
      next
        fix r ys assume r: "b # bs = r @ ys" "\<forall>b\<in>set r. in_run a b" "N \<le> len + total_length r"
        then show ?thesis
          using lt False by (cases r) auto
      qed
      with Cons.IH [of 0 None] lt False show ?thesis by (simp add: in_run_def)
    qed
  qed
qed auto


section \<open>The list operations at a known position\<close>

lemma erase_from_split:
  "mb_node c \<notin> mb_node ` set xs \<Longrightarrow>
    erase_from (mb_node c) a (xs @ c # ys) = xs @ c # filter (\<lambda>x. \<not> in_run a x) ys"
  by (induction xs) (auto simp: in_run_def)

lemma insert_after_split:
  "mb_node c \<notin> mb_node ` set xs \<Longrightarrow> n = mb_node c \<Longrightarrow>
    insert_after n x (xs @ c # ys) = xs @ c # x # ys"
  by (induction xs) auto

lemma set_state_filter_run: "set_state a s (filter (\<lambda>x. \<not> in_run a x) ys) = filter (\<lambda>x. \<not> in_run a x) ys"
  by (induction ys) (auto simp: in_run_def)

lemma filter_run_nil: "\<forall>b\<in>set r. in_run a b \<Longrightarrow> filter (\<lambda>x. \<not> in_run a x) r = []"
  by (induction r) auto

lemma fits_filter: "fits lo hi bs \<Longrightarrow> fits lo hi (filter P bs)"
proof (induction bs arbitrary: lo)
  case (Cons b bs)
  then show ?case
    by (auto intro: fits_mono [of "mb_offset b + mb_length b" hi "filter P bs" lo])
qed simp

text \<open>The block list after growing into the run \<open>c # r\<close>, before the merge.\<close>

definition grown :: "nat \<Rightarrow> nat \<Rightarrow> nat \<Rightarrow> memory_block list \<Rightarrow> memory_block
    \<Rightarrow> memory_block list \<Rightarrow> nat \<Rightarrow> memory_block list" where
  "grown a N L xs c ys fresh = set_state a False xs
     @ c\<lparr>mb_length := N, mb_state := (mb_node c \<noteq> a)\<rparr>
     # new_block fresh (mb_offset c + N) (L - N) # filter (\<lambda>x. \<not> in_run a x) ys"

lemma grown_nodes_ok:
  assumes "nodes_ok f (xs @ c # r @ ys)"
  shows "nodes_ok (Suc f) (grown a N L xs c ys f)"
proof -
  have "mb_node ` set (set_state a False xs) = mb_node ` set xs"
    by (metis list.set_map set_state_map_node)
  then show ?thesis
    using assms nodes_ok_filter [of f ys] nodes_ok_fresh [OF assms]
    by (auto simp: grown_def nodes_ok_Suc)
qed

lemma grown_fits:
  assumes "fits 0 sz (xs @ c # r @ ys)" "L = total_length (c # r)" "N \<le> L"
  shows "fits 0 sz (grown a N L xs c ys f)"
proof -
  from assms(1) obtain mid where 1: "fits 0 mid xs" "fits mid sz (c # r @ ys)"
    by (auto simp: fits_append)
  then obtain mid2 where 2: "mid \<le> mb_offset c" "fits (mb_offset c + mb_length c) mid2 r" "fits mid2 sz ys"
    by (auto simp: fits_append)
  have "fits (mb_offset c + L) sz (filter (\<lambda>x. \<not> in_run a x) ys)"
    using fits_sum [OF 2(2)] assms(2) by (intro fits_mono [OF fits_filter [OF 2(3)]]) simp
  with 1 2 assms show ?thesis
    by (auto simp: grown_def fits_append intro!: exI [of _ mid])
qed

lemma realloc_grow_eq:
  assumes "nodes_ok (next_node al) (blocks al)" "blocks al = xs @ c # r @ ys"
    "\<forall>b\<in>set r. in_run (mb_node it) b"
  shows "realloc_grow it c L N al = al\<lparr>
    blocks := coalesce (grown (mb_node it) N L xs c ys (next_node al)),
    buffer := memmove (buffer al) (mb_offset c) (mb_offset it) (mb_length it),
    next_node := Suc (next_node al)\<rparr>"
proof -
  let ?a = "mb_node it"
  let ?ys = "filter (\<lambda>x. \<not> in_run ?a x) ys"
  have d: "mb_node c \<notin> mb_node ` set xs" "mb_node c \<notin> mb_node ` set ys"
    using assms(1,2) by auto
  have d': "mb_node c \<notin> mb_node ` set ?ys" using d(2) by auto
  have "erase_from (mb_node c) ?a (blocks al) = xs @ c # ?ys"
    using erase_from_split [OF d(1), of ?a "r @ ys"] assms(2,3) by (simp add: filter_run_nil)
  then have "set_state ?a False (set_state (mb_node c) True (set_length (mb_node c) N
      (erase_from (mb_node c) ?a (blocks al))))
    = set_state ?a False xs @ c\<lparr>mb_length := N, mb_state := (mb_node c \<noteq> ?a)\<rparr> # ?ys"
    using d(1) d' by (simp add: set_length_notin set_state_notin set_state_filter_run)
  moreover have "mb_node c \<notin> mb_node ` set (set_state ?a False xs)"
    using d(1) by (metis list.set_map set_state_map_node)
  ultimately have "insert_after (mb_node c) (new_block (next_node al) (mb_offset c + N) (L - N))
      (set_state ?a False (set_state (mb_node c) True (set_length (mb_node c) N
        (erase_from (mb_node c) ?a (blocks al)))))
    = grown ?a N L xs c ys (next_node al)"
    by (simp add: grown_def insert_after_split)
  moreover have "nodes_ok (Suc (next_node al)) (grown ?a N L xs c ys (next_node al))"
    using grown_nodes_ok [of "next_node al" xs c r ys] assms(1,2) by simp
  ultimately show ?thesis
    unfolding realloc_grow_def
    by (subst merge_empty_blocks_eq [of "Suc (next_node al)"]) simp_all
qed

section \<open>Growing\<close>

text \<open>What a call that grows a block goes through.\<close>

lemma realloc_growD:
  assumes "alloc_wf sz al" "realloc (Some a) N al = (Inr p, al')"
    "node_block (blocks al) a = Some pb" "find_block (blocks al) (mb_offset pb) = Some it"
    "mb_length it < N"
  obtains xs c r ys where "blocks al = xs @ c # r @ ys" "p = Some (mb_node c)"
    "\<forall>b\<in>set (c # r). in_run (mb_node it) b" "N \<le> total_length (c # r)"
    "al' = al\<lparr>blocks := coalesce (grown (mb_node it) N (total_length (c # r)) xs c ys (next_node al)),
      buffer := memmove (buffer al) (mb_offset c) (mb_offset it) (mb_length it),
      next_node := Suc (next_node al)\<rparr>"
proof -
  obtain L C where fr: "find_run N (mb_node it) (blocks al) 0 None = (L, C)" by fastforce
  with assms obtain c0 cb where 1: "N \<le> L" "C = Some c0" "node_block (blocks al) c0 = Some cb"
    "p = C" "al' = realloc_grow it cb L N al"
    by (auto simp: realloc_def split: option.splits if_splits)
  from find_run_sound [OF fr _ 1(1), of "[]"] assms(5) obtain xs c r ys where
    2: "blocks al = xs @ c # r @ ys" "C = Some (mb_node c)"
      "\<forall>b\<in>set (c # r). in_run (mb_node it) b" "L = total_length (c # r)" by auto
  have "node_block (blocks al) (mb_node c) = Some c"
    by (rule node_block_mem [OF wf_distinct [OF assms(1)]]) (simp add: 2(1))
  with 1 2 have "cb = c" by simp
  with 1 2 realloc_grow_eq [OF wf_nodes [OF assms(1)] 2(1), of it L N] that [of xs c r ys] show ?thesis
    by simp
qed


lemma fits_split_disjoint:
  assumes "fits lo hi (xs @ c # r @ ys)" "b \<in> set xs \<or> b \<in> set ys"
  shows "mb_offset b + mb_length b \<le> mb_offset c
    \<or> mb_offset c + total_length (c # r) \<le> mb_offset b"
proof -
  from assms(1) obtain mid where f: "fits lo mid xs" "mid \<le> mb_offset c"
    and "fits (mb_offset c + mb_length c) hi (r @ ys)"
    by (auto simp: fits_append [of _ _ xs])
  then obtain mid2 where f2: "fits (mb_offset c + mb_length c) mid2 r" "fits mid2 hi ys"
    unfolding fits_append by blast
  from assms(2) show ?thesis
  proof
    assume "b \<in> set xs"
    from fits_mem [OF f(1) this] f(2) show ?thesis by simp
  next
    assume "b \<in> set ys"
    from fits_mem [OF f2(2) this] fits_sum [OF f2(1)] show ?thesis by simp
  qed
qed

lemma realloc_shrink_wf:
  assumes "alloc_wf sz al" "it \<in> set (blocks al)" "N < mb_length it"
  obtains xs ys where "blocks al = xs @ it # ys"
    "realloc_shrink it N al = al\<lparr>blocks := coalesce (xs @ it\<lparr>mb_length := N\<rparr>
       # new_block (next_node al) (mb_offset it + N) (mb_length it - N) # ys),
       next_node := Suc (next_node al)\<rparr>"
    "nodes_ok (Suc (next_node al)) (xs @ it\<lparr>mb_length := N\<rparr>
       # new_block (next_node al) (mb_offset it + N) (mb_length it - N) # ys)"
proof -
  from assms(2) obtain xs ys where b: "blocks al = xs @ it # ys" by (meson split_list)
  note n = wf_nodes [OF assms(1), unfolded b]
  let ?bs = "xs @ it\<lparr>mb_length := N\<rparr>
       # new_block (next_node al) (mb_offset it + N) (mb_length it - N) # ys"
  have ok: "nodes_ok (Suc (next_node al)) ?bs"
    using n nodes_ok_fresh [OF n] by (auto simp: nodes_ok_Suc)
  have "set_length (mb_node it) N (blocks al) = xs @ it\<lparr>mb_length := N\<rparr> # ys"
    using n by (simp add: b set_length_notin)
  moreover have "insert_after (mb_node it) x (xs @ it\<lparr>mb_length := N\<rparr> # ys)
      = xs @ it\<lparr>mb_length := N\<rparr> # x # ys" for x
    by (rule insert_after_split) (use n in simp_all)
  ultimately have "insert_after (mb_node it) (new_block (next_node al) (mb_offset it + N) (mb_length it - N))
    (set_length (mb_node it) N (blocks al)) = ?bs"
    by (simp only:)
  then have e: "realloc_shrink it N al = al\<lparr>blocks := coalesce ?bs, next_node := Suc (next_node al)\<rparr>"
    unfolding realloc_shrink_def using ok
    by (subst merge_empty_blocks_eq [of "Suc (next_node al)"]) simp_all
  show ?thesis by (rule that [OF b e ok])
qed

lemma find_block_SomeD: "find_block bs off = Some b \<Longrightarrow> b \<in> set bs \<and> mb_offset b = off"
  by (auto simp: find_block_def find_Some_iff)

lemma realloc_keeps_wf:
  assumes wf: "alloc_wf sz al" and r: "realloc p N al = (r, al')"
  shows "alloc_wf sz al'"
proof (cases "al' = al")
  case True
  with wf show ?thesis by simp
next
  case ne: False
  show ?thesis
  proof (cases p)
    case None
    with wf r show ?thesis by (auto simp: realloc_def intro: alloc_keeps_wf)
  next
    case (Some a)
    with r ne obtain pb it q where 1: "node_block (blocks al) a = Some pb"
      "find_block (blocks al) (mb_offset pb) = Some it" "r = Inr q"
      by (auto simp: realloc_def split: option.splits if_splits prod.splits)
    then have it: "it \<in> set (blocks al)" using find_block_SomeD by auto
    consider "mb_length it = N" | "N < mb_length it" | "mb_length it < N" by linarith
    then show ?thesis
    proof cases
      case 2
      with Some 1 r have "al' = realloc_shrink it N al" by (auto simp: realloc_def)
      moreover from wf it 2 obtain xs ys where b: "blocks al = xs @ it # ys"
        "realloc_shrink it N al = al\<lparr>blocks := coalesce (xs @ it\<lparr>mb_length := N\<rparr>
           # new_block (next_node al) (mb_offset it + N) (mb_length it - N) # ys),
           next_node := Suc (next_node al)\<rparr>"
        "nodes_ok (Suc (next_node al)) (xs @ it\<lparr>mb_length := N\<rparr>
           # new_block (next_node al) (mb_offset it + N) (mb_length it - N) # ys)"
        by (rule realloc_shrink_wf)
      ultimately show ?thesis
        using wf 2 b(3) by (auto simp: alloc_wf_def fits_append b(1) intro!: coalesce_nodes_ok coalesce_fits)
    next
      case 3
      from wf r [unfolded Some 1(3)] 1(1,2) 3 obtain xs c rr ys where
        g: "blocks al = xs @ c # rr @ ys" "N \<le> total_length (c # rr)"
        "al' = al\<lparr>blocks := coalesce (grown (mb_node it) N (total_length (c # rr)) xs c ys (next_node al)),
          buffer := memmove (buffer al) (mb_offset c) (mb_offset it) (mb_length it),
          next_node := Suc (next_node al)\<rparr>"
        by (rule realloc_growD)
      with wf show ?thesis
        by (auto simp: alloc_wf_def intro!: coalesce_fits coalesce_nodes_ok grown_fits grown_nodes_ok
            simp del: nodes_ok_append)
    qed (use r Some 1 wf in \<open>auto simp: realloc_def\<close>)
  qed
qed


section \<open>Effects\<close>

text \<open>Shrinking: same pointer, same offset, same bytes, a shorter region.\<close>

lemma realloc_shrink_live:
  assumes wf: "alloc_wf sz al" and it: "node_block (blocks al) a = Some it" "\<not> is_free it"
    and fb: "find_block (blocks al) (mb_offset it) = Some it" and N: "N < mb_length it"
    and r: "realloc (Some a) N al = (r, al')"
  shows "r = Inr (Some a) \<and> live al' = (live al)(a \<mapsto> (mb_offset it, N)) \<and> buffer al' = buffer al"
proof -
  have a: "it \<in> set (blocks al)" "mb_node it = a" using node_block_SomeD [OF it(1)] by auto
  from r it fb N have al': "al' = realloc_shrink it N al" "r = Inr (Some a)"
    by (auto simp: realloc_def)
  from wf a(1) N obtain xs ys where b: "blocks al = xs @ it # ys" "realloc_shrink it N al = al\<lparr>
      blocks := coalesce (xs @ it\<lparr>mb_length := N\<rparr>
        # new_block (next_node al) (mb_offset it + N) (mb_length it - N) # ys),
      next_node := Suc (next_node al)\<rparr>"
    by (rule realloc_shrink_wf)
  define al0 where "al0 = al\<lparr>blocks := xs @ ys\<rparr>"
  have n0: "nodes_ok (next_node al) (blocks al0)"
    using wf_nodes [OF wf] by (auto simp: al0_def b(1))
  have "node_block (blocks al0) a = None"
    using wf_nodes [OF wf] a(2) by (auto simp: node_block_None al0_def b(1))
  then have none: "live al0 a = None" by (simp add: live_def)
  have "live al = (live al0)(mb_node it \<mapsto> (mb_offset it, mb_length it))"
    by (rule live_add [OF n0 wf_nodes [OF wf] it(2)])
      (use none a(2) it(2) in \<open>auto simp: al0_def b(1)\<close>)
  moreover have "live al' = (live al0)(mb_node (it\<lparr>mb_length := N\<rparr>)
      \<mapsto> (mb_offset (it\<lparr>mb_length := N\<rparr>), mb_length (it\<lparr>mb_length := N\<rparr>)))"
    by (rule live_add [OF n0 wf_nodes [OF realloc_keeps_wf [OF wf r]]])
      (use none a(2) it(2) in \<open>auto simp: al0_def al' b\<close>)
  ultimately show ?thesis using a(2) al' b(2) by simp
qed

text \<open>Growing by moving to another block.\<close>

lemma used_set_state_run:
  "set (used_blocks (set_state a False xs)) = {b \<in> set (used_blocks xs). mb_node b \<noteq> a}"
  by (auto simp: set_state_False_used)

lemma used_filter_run:
  "set (used_blocks (filter (\<lambda>x. \<not> in_run a x) ys)) = {b \<in> set (used_blocks ys). mb_node b \<noteq> a}"
  by (auto simp: used_blocks_def in_run_def)

lemma used_run: "\<forall>b\<in>set r. in_run a b \<Longrightarrow> {b \<in> set (used_blocks r). mb_node b \<noteq> a} = {}"
  by (auto simp: set_used_blocks in_run_def)

lemma used_grown:
  assumes "\<forall>b\<in>set (c # r). in_run a b"
  shows "set (used_blocks (grown a N L xs c ys f)) =
    (if mb_node c = a then {} else {c\<lparr>mb_length := N, mb_state := True\<rparr>})
    \<union> {b \<in> set (used_blocks (xs @ c # r @ ys)). mb_node b \<noteq> a}"
proof -
  have "set (used_blocks (grown a N L xs c ys f)) = {b \<in> set (used_blocks xs). mb_node b \<noteq> a}
    \<union> (if mb_node c = a then {} else {c\<lparr>mb_length := N, mb_state := True\<rparr>})
    \<union> {b \<in> set (used_blocks ys). mb_node b \<noteq> a}"
    by (simp add: grown_def used_set_state_run used_filter_run)
  moreover have "{b \<in> set (used_blocks (xs @ c # r @ ys)). mb_node b \<noteq> a}
    = {b \<in> set (used_blocks xs). mb_node b \<noteq> a} \<union> {b \<in> set (used_blocks ys). mb_node b \<noteq> a}"
    using assms by (auto simp: in_run_def set_used_blocks)
  ultimately show ?thesis by blast
qed

lemma realloc_grow_live:
  assumes wf: "alloc_wf sz al" and r: "realloc (Some a) N al = (Inr p, al')"
    and it: "node_block (blocks al) a = Some it" "find_block (blocks al) (mb_offset it) = Some it"
    and N: "mb_length it < N"
  obtains c off where "p = Some c" "off + N \<le> sz"
    "live al' = (if c = a then (live al)(a := None) else (live al)(a := None, c \<mapsto> (off, N)))"
    "bytes_at (buffer al') off (mb_length it) = bytes_at (buffer al) (mb_offset it) (mb_length it)"
    "c = a \<longrightarrow> off = mb_offset it"
    "\<forall>a' o' l'. a' \<noteq> a \<and> live al a' = Some (o', l') \<longrightarrow>
       bytes_at (buffer al') o' l' = bytes_at (buffer al) o' l'"
proof -
  have a: "it \<in> set (blocks al)" "mb_node it = a" using node_block_SomeD [OF it(1)] by auto
  from wf r it N obtain xs c rr ys where
    g: "blocks al = xs @ c # rr @ ys" "p = Some (mb_node c)"
    "\<forall>b\<in>set (c # rr). in_run (mb_node it) b" "N \<le> total_length (c # rr)"
    "al' = al\<lparr>blocks := coalesce (grown (mb_node it) N (total_length (c # rr)) xs c ys (next_node al)),
      buffer := memmove (buffer al) (mb_offset c) (mb_offset it) (mb_length it),
      next_node := Suc (next_node al)\<rparr>"
    by (rule realloc_growD)
  note g3 = g(3) [unfolded a(2)]
  have wf': "alloc_wf sz al'" using realloc_keeps_wf [OF wf r] .
  have fit: "fits 0 sz (xs @ c # rr @ ys)" using wf by (simp add: alloc_wf_def g(1))
  have u: "set (used_blocks (blocks al')) =
    (if mb_node c = a then {} else {c\<lparr>mb_length := N, mb_state := True\<rparr>})
    \<union> {b \<in> set (used_blocks (blocks al)). mb_node b \<noteq> a}"
  proof -
    have "blocks al' = coalesce (grown a N (total_length (c # rr)) xs c ys (next_node al))"
      by (simp add: g(5) a(2))
    then show ?thesis by (simp only: coalesce_used used_grown [OF g3] g(1))
  qed
  have "mb_offset c + N \<le> sz"
  proof -
    from fit obtain mid where "fits mid sz ((c # rr) @ ys)" by (auto simp: fits_append [of _ _ xs])
    then obtain mid2 where "fits mid mid2 (c # rr)" "fits mid2 sz ys" unfolding fits_append by blast
    then show ?thesis using fits_sum [of "mb_offset c + mb_length c" mid2 rr] fits_le [of mid2 sz ys] g(4)
      by auto
  qed
  have d: "distinct (map mb_node (blocks al))" by (rule wf_distinct [OF wf])
  have c_none: "live al (mb_node c) = None" if "mb_node c \<noteq> a"
  proof -
    have "node_block (blocks al) (mb_node c) = Some c"
      by (rule node_block_mem [OF d]) (simp add: g(1))
    then show ?thesis using g3 that by (simp add: live_def in_run_def)
  qed
  have "live al' = (if mb_node c = a then (live al)(a := None)
    else (live al)(a := None, mb_node c \<mapsto> (mb_offset c, N)))"
  proof (cases "mb_node c = a")
    case True
    have "live al' = (live al)(a := None)"
      by (rule live_remove [OF wf_nodes [OF wf] wf_nodes [OF wf']]) (simp add: u True)
    with True show ?thesis by simp
  next
    case False
    define al0 where "al0 = al\<lparr>blocks := filter (\<lambda>b. mb_node b \<noteq> a) (blocks al)\<rparr>"
    have n0: "nodes_ok (next_node al) (blocks al0)"
      using wf_nodes [OF wf] by (simp add: al0_def nodes_ok_filter)
    have u0: "set (used_blocks (blocks al0)) = {b \<in> set (used_blocks (blocks al)). mb_node b \<noteq> a}"
      by (auto simp: al0_def used_blocks_def)
    have l0: "live al0 = (live al)(a := None)"
      by (rule live_remove [OF wf_nodes [OF wf] n0 u0])
    have "live al' = (live al0)(mb_node (c\<lparr>mb_length := N, mb_state := True\<rparr>) \<mapsto>
        (mb_offset (c\<lparr>mb_length := N, mb_state := True\<rparr>), mb_length (c\<lparr>mb_length := N, mb_state := True\<rparr>)))"
      by (rule live_add [OF n0 wf_nodes [OF wf']])
        (use False c_none in \<open>simp_all add: u u0 l0\<close>)
    with False l0 show ?thesis by simp
  qed
  moreover have "bytes_at (buffer al') o' l' = bytes_at (buffer al) o' l'"
    if "a' \<noteq> a" "live al a' = Some (o', l')" for a' o' l'
  proof -
    from that obtain b where b: "b \<in> set (blocks al)" "\<not> is_free b" "mb_node b \<noteq> a"
      "mb_offset b = o'" "mb_length b = l'"
      using live_iff [OF d] by (auto simp: set_used_blocks)
    with g3 have "b \<in> set xs \<or> b \<in> set ys" by (auto simp: g(1) in_run_def)
    from fits_split_disjoint [OF fit this] N g(4) b(4,5) show ?thesis
      by (auto simp: g(5) intro!: bytes_at_cong memmove_outside)
  qed
  moreover have "bytes_at (buffer al') (mb_offset c) (mb_length it)
      = bytes_at (buffer al) (mb_offset it) (mb_length it)"
    by (simp add: g(5) bytes_at_memmove)
  moreover have "mb_node c = a \<longrightarrow> mb_offset c = mb_offset it"
    using node_block_mem [OF d, of c] it(1) by (auto simp: g(1))
  ultimately show ?thesis
    using \<open>mb_offset c + N \<le> sz\<close> g(2) that [of "mb_node c" "mb_offset c"] by blast
qed

end
