(* ===== verification/Alloc_Interface.thy ===== *)
theory Alloc_Interface imports Alloc_Realloc begin

text \<open>
  The contract of the allocator as a locale (what its clients rely on), the facts a client
  gets from it, and its interpretation on the model of p1/allocator.cpp.
\<close>

section \<open>The contract\<close>

text \<open>
  \<open>region s a\<close> is the part of the buffer the live pointer \<open>a\<close> owns. Nothing is said of
  how the provider keeps its free space.
\<close>

locale region_allocator =
  fixes inv :: "'s \<Rightarrow> bool"
    and alloc_op :: "nat \<Rightarrow> 's \<Rightarrow> ('e, nat option, 's) outcome"
    and free_op :: "nat option \<Rightarrow> 's \<Rightarrow> ('e, nat option, 's) outcome"
    and region :: "'s \<Rightarrow> nat \<Rightarrow> (nat \<times> nat) option"
    and bytes :: "'s \<Rightarrow> memory"
    and store :: "memory \<Rightarrow> 's \<Rightarrow> 's"
  assumes alloc_inv: "inv s \<Longrightarrow> alloc_op N s = (r, s') \<Longrightarrow> inv s'"
    and alloc_Inr: "inv s \<Longrightarrow> alloc_op N s = (Inr p, s') \<Longrightarrow>
      \<exists>a off. p = Some a \<and> region s a = None \<and> region s' = (region s)(a \<mapsto> (off, N)) \<and> bytes s' = bytes s"
    and alloc_Inl: "alloc_op N s = (Inl e, s') \<Longrightarrow> s' = s"
    and free_inv: "inv s \<Longrightarrow> free_op p s = (r, s') \<Longrightarrow> inv s'"
    and free_Inr: "inv s \<Longrightarrow> free_op (Some a) s = (Inr q, s') \<Longrightarrow>
      q = None \<and> region s' = (region s)(a := None) \<and> bytes s' = bytes s"
    and free_Inl: "free_op p s = (Inl e, s') \<Longrightarrow> s' = s"
    and store_inv: "inv s \<Longrightarrow> inv (store m s)"
    and store_region: "region (store m s) = region s"
    and store_bytes: "bytes (store m s) = m"
    and disjoint: "inv s \<Longrightarrow> region s a = Some x \<Longrightarrow> region s b = Some y \<Longrightarrow> a \<noteq> b \<Longrightarrow>
      disjoint_regions x y"
begin

definition contents :: "'s \<Rightarrow> nat \<Rightarrow> byte list option" where
  "contents s a = map_option (\<lambda>(off, len). bytes_at (bytes s) off len) (region s a)"

lemma contents_alloc:
  "inv s \<Longrightarrow> alloc_op N s = (r, s') \<Longrightarrow> contents s a = Some bs \<Longrightarrow> contents s' a = Some bs"
  by (cases r) (auto simp: contents_def dest!: alloc_Inl alloc_Inr)

lemma contents_free:
  "inv s \<Longrightarrow> free_op p s = (r, s') \<Longrightarrow> p \<noteq> Some a \<Longrightarrow> contents s a = Some bs \<Longrightarrow>
    p \<noteq> None \<Longrightarrow> contents s' a = Some bs"
  by (cases r; cases p) (auto simp: contents_def dest!: free_Inl free_Inr)

text \<open>A write inside the region of one pointer is not seen through another.\<close>

lemma contents_write:
  assumes "inv s" "region s b = Some (off, len)" "i < len" "a \<noteq> b"
  shows "contents (store ((bytes s)(off + i := v)) s) a = contents s a"
proof (cases "region s a")
  case None
  then show ?thesis by (simp add: contents_def store_region)
next
  case (Some r)
  obtain o2 l2 where r: "r = (o2, l2)" by (cases r)
  from disjoint [OF assms(1) Some assms(2,4)] assms(3)
  have "off + i < o2 \<or> o2 + l2 \<le> off + i" by (auto simp: disjoint_regions_def r)
  then have "bytes_at ((bytes s)(off + i := v)) o2 l2 = bytes_at (bytes s) o2 l2"
    by (intro bytes_at_cong) auto
  with Some show ?thesis by (simp add: contents_def store_region store_bytes r)
qed

lemma contents_own_write:
  assumes "inv s" "region s b = Some (off, len)" "i < len"
  shows "contents (store ((bytes s)(off + i := v)) s) b
    = Some ((bytes_at (bytes s) off len)[i := v])"
proof -
  have "bytes_at ((bytes s)(off + i := v)) off len = (bytes_at (bytes s) off len)[i := v]"
    using assms(3) by (auto simp: bytes_at_def list_eq_iff_nth_eq nth_list_update)
  with assms show ?thesis by (simp add: contents_def store_region store_bytes)
qed

end

text \<open>A provider that can also compact its live regions.\<close>

locale compacting_allocator = region_allocator +
  fixes compact :: "'a \<Rightarrow> 'a"
  assumes compact_inv: "inv s \<Longrightarrow> inv (compact s)"
    and compact_Some: "inv s \<Longrightarrow> region s p = Some (off, len) \<Longrightarrow>
      \<exists>off'. region (compact s) p = Some (off', len)
        \<and> bytes_at (bytes (compact s)) off' len = bytes_at (bytes s) off len"
    and compact_None: "inv s \<Longrightarrow> region s p = None \<Longrightarrow> region (compact s) p = None"
begin

lemma contents_compact: "inv s \<Longrightarrow> contents (compact s) a = contents s a"
  using compact_Some [of s a] compact_None [of s a]
  by (cases "region s a") (fastforce simp: contents_def)+

end

section \<open>The allocator of p1 meets it\<close>

interpretation heap: compacting_allocator "alloc_wf sz" alloc free live buffer
  "\<lambda>m al. al\<lparr>buffer := m\<rparr>" defrag
proof
  fix s s' :: allocator and N a p q r e m
  show "alloc_wf sz s \<Longrightarrow> alloc N s = (r, s') \<Longrightarrow> alloc_wf sz s'" by (rule alloc_keeps_wf)
  show "\<exists>a off. p = Some a \<and> live s a = None \<and> live s' = (live s)(a \<mapsto> (off, N)) \<and> buffer s' = buffer s"
    if "alloc_wf sz s" "alloc N s = (Inr p, s')"
    using alloc_live [OF that] by blast
  show "alloc N s = (Inl e, s') \<Longrightarrow> s' = s" by (simp add: alloc_Inl)
  show "alloc_wf sz s \<Longrightarrow> free p s = (r, s') \<Longrightarrow> alloc_wf sz s'" by (rule free_keeps_wf)
  show "alloc_wf sz s \<Longrightarrow> free (Some a) s = (Inr q, s') \<Longrightarrow>
      q = None \<and> live s' = (live s)(a := None) \<and> buffer s' = buffer s" by (rule free_live)
  show "free p s = (Inl e, s') \<Longrightarrow> s' = s" by (auto simp: free_def split: option.splits if_splits)
  show "alloc_wf sz s \<Longrightarrow> alloc_wf sz (s\<lparr>buffer := m\<rparr>)" by (simp add: alloc_wf_def)
  show "live (s\<lparr>buffer := m\<rparr>) = live s" by (simp add: live_def fun_eq_iff)
  show "buffer (s\<lparr>buffer := m\<rparr>) = m" by simp
  show "alloc_wf sz s \<Longrightarrow> alloc_wf sz (defrag s)" by (rule defrag_keeps_wf(1))
next
  fix s a b r t
  show "alloc_wf sz s \<Longrightarrow> live s a = Some r \<Longrightarrow> live s b = Some t \<Longrightarrow> a \<noteq> b \<Longrightarrow> disjoint_regions r t"
    by (rule live_disjoint)
next
  fix s p off len
  show "alloc_wf sz s \<Longrightarrow> live s p = Some (off, len) \<Longrightarrow>
      \<exists>off'. live (defrag s) p = Some (off', len)
        \<and> bytes_at (buffer (defrag s)) off' len = bytes_at (buffer s) off len"
    by (rule defrag_live(1))
  show "alloc_wf sz s \<Longrightarrow> live s p = None \<Longrightarrow> live (defrag s) p = None"
    by (rule defrag_live(2))
qed

section \<open>Clients\<close>

text \<open>
  What a program does with the allocator: allocate, free a pointer, defragment, and write a
  byte through a live pointer (\<open>v[i] = \<dots>\<close> as \<open>writeTo\<close> of the tests does). A call that
  throws leaves the state as the code leaves it.
\<close>

datatype client_op = ClientAlloc nat | ClientFree nat | ClientDefrag | ClientWrite nat nat byte

fun client_step :: "client_op \<Rightarrow> allocator \<Rightarrow> allocator" where
  "client_step (ClientAlloc N) al = snd (alloc N al)"
| "client_step (ClientFree a) al = snd (free (Some a) al)"
| "client_step ClientDefrag al = defrag al"
| "client_step (ClientWrite a i v) al = (case live al a of
      None \<Rightarrow> al
    | Some (off, len) \<Rightarrow> if i < len then al\<lparr>buffer := (buffer al)(off + i := v)\<rparr> else al)"

primrec client_run :: "client_op list \<Rightarrow> allocator \<Rightarrow> allocator" where
  "client_run [] al = al"
| "client_run (c # cs) al = client_run cs (client_step c al)"

definition touches :: "nat \<Rightarrow> client_op \<Rightarrow> bool" where
  "touches a c \<longleftrightarrow> c = ClientFree a \<or> (\<exists>i v. c = ClientWrite a i v)"

definition pointer_bytes :: "allocator \<Rightarrow> nat \<Rightarrow> byte list option" where
  "pointer_bytes al a = map_option (\<lambda>(off, len). bytes_at (buffer al) off len) (live al a)"

lemma pointer_bytes_contents: "pointer_bytes = heap.contents"
  by (rule ext)+ (simp add: pointer_bytes_def heap.contents_def)

lemma client_step_wf: "alloc_wf sz al \<Longrightarrow> alloc_wf sz (client_step c al)"
  by (cases c) (auto intro: alloc_keeps_wf [OF _ surjective_pairing] free_keeps_wf [OF _ surjective_pairing]
      defrag_keeps_wf(1) heap.store_inv split: option.splits)

lemma client_step_tiled: "alloc_tiled sz al \<Longrightarrow> alloc_tiled sz (client_step c al)"
  using tiled_wf [of sz al]
  by (cases c) (auto intro: alloc_keeps_tiled [OF _ surjective_pairing]
      free_keeps_tiled [OF _ surjective_pairing] defrag_keeps_wf(2)
      simp: alloc_tiled_def [of _ "al\<lparr>buffer := _\<rparr>"] alloc_tiled_def [of _ al] split: option.splits)

lemma client_step_bytes:
  assumes "alloc_wf sz al" "\<not> touches a c" "pointer_bytes al a = Some bs"
  shows "pointer_bytes (client_step c al) a = Some bs"
proof (cases c)
  case (ClientAlloc N)
  with assms heap.contents_alloc [OF assms(1), of N "fst (alloc N al)" "snd (alloc N al)" a bs]
  show ?thesis by (simp add: pointer_bytes_contents)
next
  case (ClientFree b)
  with assms heap.contents_free
    [OF assms(1), of "Some b" "fst (free (Some b) al)" "snd (free (Some b) al)" a bs]
  show ?thesis by (auto simp: pointer_bytes_contents touches_def)
next
  case ClientDefrag
  with assms heap.contents_compact [OF assms(1)] show ?thesis
    by (simp add: pointer_bytes_contents)
next
  case (ClientWrite b i v)
  with assms have "a \<noteq> b" by (auto simp: touches_def)
  with assms heap.contents_write [OF assms(1), of b] ClientWrite show ?thesis
    by (auto simp: pointer_bytes_contents split: option.splits)
qed

end
