(* ===== verification/Alloc_Props.thy ===== *)
theory Alloc_Props imports Alloc_Interface begin

text \<open>
  The properties of the allocator (p1/allocator.cpp) and the concrete runs that show where
  realloc departs from its contract.
\<close>

section \<open>Runs of a client\<close>

lemma init_tiled: "alloc_tiled sz (allocator_init m sz)"
  by (simp add: alloc_tiled_def allocator_init_def)

lemma client_run_tiled: "alloc_tiled sz al \<Longrightarrow> alloc_tiled sz (client_run cs al)"
  by (induction cs arbitrary: al) (auto intro: client_step_tiled)

lemma client_run_wf: "alloc_wf sz al \<Longrightarrow> alloc_wf sz (client_run cs al)"
  by (induction cs arbitrary: al) (auto intro: client_step_wf)

lemmas reachable_tiled = client_run_tiled [OF init_tiled]
lemmas reachable_wf = tiled_wf [OF reachable_tiled]

lemma live_of_block:
  assumes "distinct (map mb_node (blocks al))" "b \<in> set (used_blocks (blocks al))"
  shows "live al (mb_node b) = Some (mb_offset b, mb_length b)"
  using assms by (auto simp: live_iff [OF assms(1)] set_used_blocks)

text \<open>The lengths of the live regions are those of the used blocks.\<close>

lemma live_lengths:
  assumes d: "distinct (map mb_node (blocks al))"
  shows "(\<Sum>a\<in>dom (live al). snd (the (live al a))) = sum_list (map mb_length (used_blocks (blocks al)))"
proof -
  let ?us = "used_blocks (blocks al)"
  have u: "distinct (map mb_node ?us)" using d by (simp add: used_blocks_def distinct_map_filter)
  have "dom (live al) = set (map mb_node ?us)"
    using live_of_block [OF d] by (fastforce simp: live_iff [OF d])
  then have "(\<Sum>a\<in>dom (live al). snd (the (live al a))) = sum_list (map (\<lambda>a. snd (the (live al a))) (map mb_node ?us))"
    using u by (simp only: sum_list_distinct_conv_sum_set)
  also have "\<dots> = sum_list (map mb_length ?us)"
    using live_of_block [OF d] by (simp add: comp_def cong: map_cong)
  finally show ?thesis .
qed

abbreviation final :: "client_op list \<Rightarrow> memory \<Rightarrow> nat \<Rightarrow> allocator" where
  "final cs m sz \<equiv> client_run cs (allocator_init m sz)"

text \<open>C18: Whatever a client allocates, frees, defragments and writes, starting from a fresh
  allocator over a buffer of sz bytes, the blocks tile the buffer from end to end; the free ones
  have together exactly the bytes that no live pointer owns; every live pointer owns a part inside
  the buffer, and two different ones own disjoint parts.\<close>

theorem alloc_regions_disjoint:
  "tiles 0 sz (blocks (final cs m sz))
    \<and> free_total (blocks (final cs m sz)) + (\<Sum>a\<in>dom (live (final cs m sz)). snd (the (live (final cs m sz) a))) = sz
    \<and> (\<forall>a off len. live (final cs m sz) a = Some (off, len) \<longrightarrow> off + len \<le> sz)
    \<and> (\<forall>a b off1 len1 off2 len2. a \<noteq> b \<longrightarrow> live (final cs m sz) a = Some (off1, len1) \<longrightarrow>
         live (final cs m sz) b = Some (off2, len2) \<longrightarrow> off1 + len1 \<le> off2 \<or> off2 + len2 \<le> off1)"
proof -
  let ?al = "final cs m sz"
  have t: "alloc_tiled sz ?al" by (rule reachable_tiled)
  then have wf: "alloc_wf sz ?al" by (rule tiled_wf)
  have tl: "tiles 0 sz (blocks ?al)" using t by (simp add: alloc_tiled_def)
  have "off + len \<le> sz" if "live ?al a = Some (off, len)" for a off len
    using live_bounds [OF wf that] by simp
  moreover have "off1 + len1 \<le> off2 \<or> off2 + len2 \<le> off1"
    if "a \<noteq> b" "live ?al a = Some (off1, len1)" "live ?al b = Some (off2, len2)" for a b off1 len1 off2 len2
    using live_disjoint [OF wf that(2,3,1)] by (simp add: disjoint_regions_def)
  ultimately show ?thesis using tl tiles_used_sum [OF tl] live_lengths [OF wf_distinct [OF wf]] by auto
qed

lemmas run_defs = client_run.simps client_step.simps allocator_init_def alloc_def free_def
  merge_empty_blocks_def close_run_def live_def node_block_def is_free_def Let_def
  pointer_bytes_def bytes_at_def defrag_def realloc_def find_block_def

theorem alloc_regions_disjoint_witness:
  "live (client_run [ClientAlloc 3, ClientAlloc 4, ClientFree 0, ClientAlloc 2]
      (allocator_init (\<lambda>_. 0) 10)) 0 = Some (0, 2)
   \<and> live (client_run [ClientAlloc 3, ClientAlloc 4, ClientFree 0, ClientAlloc 2]
      (allocator_init (\<lambda>_. 0) 10)) 1 = Some (3, 4)
   \<and> ((0::nat) + 2 \<le> 3 \<or> (3::nat) + 4 \<le> 0)
   \<and> free_total (blocks (client_run [ClientAlloc 7, ClientFree 0] (allocator_init (\<lambda>_. 0) 10))) = 10"
proof -
  let ?al = "client_run [ClientAlloc 3, ClientAlloc 4, ClientFree 0, ClientAlloc 2]
      (allocator_init (\<lambda>_. 0) 10)"
  let ?bl = "client_run [ClientAlloc 7, ClientFree 0] (allocator_init (\<lambda>_. 0) 10)"
  have h: "live ?al 0 = Some (0, 2)" "live ?al 1 = Some (3, 4)" by (simp_all add: run_defs)
  have "dom (live ?bl) = {}" by (auto simp: run_defs split: if_splits)
  then have "free_total (blocks ?bl) = 10"
    using alloc_regions_disjoint [where cs = "[ClientAlloc 7, ClientFree 0]" and m = "\<lambda>_. 0" and sz = 10] by simp
  moreover have "(0::nat) + 2 \<le> 3 \<or> (3::nat) + 4 \<le> 0"
    using alloc_regions_disjoint [where cs = "[ClientAlloc 3, ClientAlloc 4, ClientFree 0, ClientAlloc 2]" and m = "\<lambda>_. 0" and sz = 10] h
    by blast
  ultimately show ?thesis using h by blast
qed

text \<open>C1: A client's data survives everything the rest of the program does: as long as
  the pointer itself is neither freed nor written through, any sequence of allocations,
  frees of other pointers, defragmentations and writes through other pointers leaves the
  bytes it sees unchanged.\<close>

theorem client_data_preserved:
  assumes "alloc_wf sz al" and "\<forall>c\<in>set cs. \<not> touches a c" and "pointer_bytes al a = Some bs"
  shows "pointer_bytes (client_run cs al) a = Some bs"
  using assms
proof (induction cs arbitrary: al)
  case (Cons c cs)
  then show ?case by (auto intro!: Cons.IH client_step_wf client_step_bytes)
qed simp

theorem client_data_preserved_witness:
  "pointer_bytes (client_run [ClientFree 0, ClientDefrag, ClientAlloc 2, ClientWrite 3 0 9]
    (client_run [ClientAlloc 2, ClientAlloc 2, ClientWrite 1 0 7] (allocator_init (\<lambda>_. 1) 8))) 1
    = Some [7, 1]"
proof -
  let ?al = "client_run [ClientAlloc 2, ClientAlloc 2, ClientWrite 1 0 7] (allocator_init (\<lambda>_. 1) 8)"
  have h: "alloc_wf 8 ?al" by (rule reachable_wf)
  have b: "pointer_bytes ?al 1 = Some [7, 1]" by (simp add: run_defs numeral_2_eq_2)
  show ?thesis by (rule client_data_preserved [OF h _ b]) (simp add: touches_def)
qed

section \<open>alloc\<close>

text \<open>alloc is first fit. It fails exactly when no free block is long enough, with
  NoMemory and the state unchanged; otherwise the pointer is the free block of lowest offset
  that is long enough, it owns N bytes from that block's offset, no other pointer's region
  and no byte changes.\<close>

theorem alloc_first_fit:
  assumes "alloc_wf sz al"
  shows "case alloc N al of
      (Inl e, al') \<Rightarrow> e = AllocError NoMemory \<and> al' = al
        \<and> (\<forall>c\<in>set (blocks al). is_free c \<longrightarrow> mb_length c < N)
    | (Inr p, al') \<Rightarrow> \<exists>b\<in>set (blocks al). p = Some (mb_node b) \<and> is_free b \<and> N \<le> mb_length b
        \<and> (\<forall>c\<in>set (blocks al). is_free c \<and> N \<le> mb_length c \<longrightarrow> mb_offset b \<le> mb_offset c)
        \<and> live al' = (live al)(mb_node b \<mapsto> (mb_offset b, N)) \<and> buffer al' = buffer al"
proof (cases "alloc N al")
  case (Pair r al')
  show ?thesis
  proof (cases r)
    case (Inl e)
    with Pair have a: "alloc N al = (Inl e, al')" by simp
    from a [unfolded alloc_Inl] show ?thesis by (simp add: a)
  next
    case (Inr p)
    with Pair have a: "alloc N al = (Inr p, al')" by simp
    then obtain xs b ys where b: "blocks al = xs @ b # ys" "p = Some (mb_node b)" "is_free b"
      "N \<le> mb_length b" "\<forall>x\<in>set xs. is_free x \<longrightarrow> mb_length x < N"
      by (rule alloc_InrD)
    obtain b' where b': "b' \<in> set (blocks al)" "p = Some (mb_node b')"
      "live al' = (live al)(mb_node b' \<mapsto> (mb_offset b', N))" "buffer al' = buffer al"
      using alloc_live [OF assms a] by blast
    have bm: "b \<in> set (blocks al)" by (simp add: b(1))
    note d = wf_distinct [OF assms]
    have "mb_node b' = mb_node b" using b'(2) b(2) by simp
    then have "b' = b"
      using node_block_mem [OF d b'(1)] node_block_mem [OF d bm] by (metis option.inject)
    moreover have "mb_offset b \<le> mb_offset c"
      if "c \<in> set (blocks al)" "is_free c" "N \<le> mb_length c" for c
    proof -
      have "fits 0 sz (xs @ b # ys)" using assms by (simp add: alloc_wf_def b(1))
      then have "fits (mb_offset b + mb_length b) sz ys" by (auto simp: fits_append)
      from fits_mem [OF this, of c] that b(5) show ?thesis by (auto simp: b(1))
    qed
    ultimately show ?thesis using b b' by (simp add: a)
  qed
qed

theorem alloc_first_fit_witness:
  "alloc_wf 8 (allocator_init (\<lambda>_. 0) 8)
   \<and> alloc 3 (allocator_init (\<lambda>_. 0) 8) = (Inr (Some 0), \<lparr>blocks =
       [\<lparr>mb_node = 0, mb_offset = 0, mb_length = 3, mb_state = True\<rparr>, new_block 1 3 5],
       buffer = (\<lambda>_. 0), next_node = 2\<rparr>)
   \<and> buffer (snd (alloc 3 (allocator_init (\<lambda>_. 0) 8))) = (\<lambda>_. 0)"
proof -
  have h: "alloc_wf 8 (allocator_init (\<lambda>_. 0) 8)" by (rule tiled_wf [OF init_tiled])
  have "alloc 3 (allocator_init (\<lambda>_. 0) 8) = (Inr (Some 0), \<lparr>blocks =
       [\<lparr>mb_node = 0, mb_offset = 0, mb_length = 3, mb_state = True\<rparr>, new_block 1 3 5],
       buffer = (\<lambda>_. 0), next_node = 2\<rparr>)" by (simp add: run_defs)
  with h alloc_first_fit [OF h, of 3] show ?thesis by simp
qed

section \<open>free\<close>

lemma coalesced_id: "coalesced bs \<Longrightarrow> coalesce bs = bs"
  unfolding coalesced_def by (induction bs rule: coalesce.induct) auto

lemma coalesce_join:
  assumes "is_free b" "0 < mb_length b" "is_free c"
  shows "coalesce (xs @ b # c # ys) = coalesce (xs @ b\<lparr>mb_length := mb_length b + mb_length c\<rparr> # ys)"
  using assms
proof (induction xs arbitrary: b rule: coalesce.induct)
  case (1 x y xs)
  then show ?case by (cases "is_free x \<and> 0 < mb_length x \<and> is_free y") auto
qed (auto simp: add.assoc)

text \<open>free gives the region back and joins neighbours. Freeing a live pointer sets it
  to NULL, removes exactly its region, adds its length to the free space, touches no byte, and
  leaves no free block of positive length directly before another free block; freeing NULL
  throws InvalidFree and changes nothing.\<close>

theorem free_coalesces:
  assumes "alloc_wf sz al" and "live al a = Some (off, len)"
  shows "\<exists>al'. free (Some a) al = (Inr None, al') \<and> live al' = (live al)(a := None)
      \<and> free_total (blocks al') = free_total (blocks al) + len
      \<and> coalesced (blocks al') \<and> buffer al' = buffer al
      \<and> free None al = (Inl (AllocError InvalidFree), al)"
proof -
  from assms(2) obtain b where b: "node_block (blocks al) a = Some b" "\<not> is_free b" "mb_length b = len"
    by (auto simp: live_def split: option.splits if_splits)
  then obtain q al' where f: "free (Some a) al = (Inr q, al')" by (simp add: free_def)
  note F = free_SomeD [OF wf_nodes [OF assms(1)] f]
  have "free_total (set_state a False bs) = free_total bs + len"
    if "distinct (map mb_node bs)" "b \<in> set bs" for bs
    using that
  proof (induction bs)
    case (Cons c bs)
    then show ?case using node_block_SomeD [OF b(1)] b(2,3) by (auto simp: set_state_notin)
  qed simp
  from this [OF wf_distinct [OF assms(1)]] node_block_SomeD [OF b(1)] f F free_live [OF assms(1) f]
  show ?thesis by (auto simp: coalesce_coalesced free_def [of None])
qed

theorem free_coalesces_witness:
  "\<exists>al'. free (Some 1) (client_run [ClientAlloc 2, ClientAlloc 3, ClientFree 0] (allocator_init (\<lambda>_. 0) 8))
     = (Inr None, al') \<and> free_total (blocks al') = 8"
proof -
  let ?al = "client_run [ClientAlloc 2, ClientAlloc 3, ClientFree 0] (allocator_init (\<lambda>_. 0) 8)"
  have h: "alloc_wf 8 ?al" by (rule reachable_wf)
  have l: "live ?al 1 = Some (2, 3)" "free_total (blocks ?al) = 5" by (simp_all add: run_defs)
  show ?thesis using free_coalesces [OF h l(1)] l(2) by auto
qed

text \<open>An allocation that is freed again leaves the list of blocks exactly as it was (the
  same nodes, offsets, lengths and states), for any positive size on a coalesced list.\<close>

theorem alloc_free_roundtrip:
  assumes "alloc_wf sz al" and "coalesced (blocks al)" and "0 < N" and "alloc N al = (Inr p, al1)"
  shows "\<exists>al2. free p al1 = (Inr None, al2) \<and> blocks al2 = blocks al \<and> buffer al2 = buffer al"
proof -
  from assms(4) obtain xs b ys where b: "blocks al = xs @ b # ys" "p = Some (mb_node b)" "is_free b"
    "N \<le> mb_length b"
    "al1 = al\<lparr>blocks := xs @ cut_block N (next_node al) b @ ys, next_node := Suc (next_node al)\<rparr>"
    by (rule alloc_InrD)
  have wf1: "alloc_wf sz al1" by (rule alloc_keeps_wf [OF assms(1,4)])
  have "node_block (blocks al1) (mb_node b) \<noteq> None"
    by (auto simp: node_block_None b(5) cut_block_def)
  then obtain q al2 where f: "free p al1 = (Inr q, al2)" by (auto simp: free_def b(2))
  note F = free_SomeD [OF wf_nodes [OF wf1] f [unfolded b(2)]]
  have st: "b\<lparr>mb_state := False\<rparr> = b"
    "b\<lparr>mb_length := N, mb_state := False\<rparr> = b\<lparr>mb_length := N\<rparr>"
    using b(3) by (cases b; simp add: is_free_def)+
  have n: "mb_node b \<notin> mb_node ` set xs" "mb_node b \<notin> mb_node ` set ys" "mb_node b \<noteq> next_node al"
    using wf_nodes [OF assms(1)] by (auto simp: b(1))
  have "coalesce (set_state (mb_node b) False (xs @ cut_block N (next_node al) b @ ys)) = coalesce (xs @ b # ys)"
  proof (cases "N < mb_length b")
    case True
    then show ?thesis
      using n coalesce_join [of "b\<lparr>mb_length := N\<rparr>" "new_block (next_node al) (mb_offset b + N) (mb_length b - N)"
        xs ys] b(3) assms(3)
      by (simp add: cut_block_def set_state_notin update_length_self st)
  next
    case False
    with n show ?thesis by (simp add: cut_block_def set_state_notin st)
  qed
  with F f coalesced_id [OF assms(2)] show ?thesis by (auto simp: b(1,5))
qed

theorem alloc_free_roundtrip_witness:
  "\<exists>al1 al2. alloc 3 (allocator_init (\<lambda>_. 0) 8) = (Inr (Some 0), al1)
     \<and> free (Some 0) al1 = (Inr None, al2) \<and> blocks al2 = [new_block 0 0 8]"
proof -
  let ?al = "allocator_init (\<lambda>_. 0) 8"
  have h: "alloc_wf 8 ?al" by (rule tiled_wf [OF init_tiled])
  have c: "coalesced (blocks ?al)" by (simp add: coalesced_def allocator_init_def)
  obtain al1 where a: "alloc 3 ?al = (Inr (Some 0), al1)" by (simp add: run_defs)
  from alloc_free_roundtrip [OF h c _ a] a show ?thesis by (auto simp: allocator_init_def)
qed


text \<open>The pointer-chasing loop of merge\_empty\_blocks (a pointer to the first block of
  the current run, a running total, erasures, a write at the end of the run) computes
  coalesce, the recursive function that joins two neighbours at a time; so it keeps the used
  blocks, the free space and the tiling of the buffer.\<close>

theorem merge_is_coalesce:
  assumes "nodes_ok f bs"
  shows "merge_loop [] bs None 0 = coalesce bs
    \<and> used_blocks (merge_loop [] bs None 0) = used_blocks bs
    \<and> free_total (merge_loop [] bs None 0) = free_total bs
    \<and> coalesced (merge_loop [] bs None 0)
    \<and> (tiles lo hi bs \<longrightarrow> tiles lo hi (merge_loop [] bs None 0))"
proof -
  have "merge_loop [] bs None 0 = coalesce bs"
    using assms by (simp add: merge_loop_coalesce nodes_ok_def)
  then show ?thesis by (simp add: coalesce_coalesced coalesce_tiles)
qed

theorem merge_is_coalesce_witness:
  "merge_loop [] [new_block 0 0 2, new_block 1 2 3, new_block 2 5 1] None 0 = [new_block 0 0 6]"
proof -
  have h: "nodes_ok 3 [new_block 0 0 2, new_block 1 2 3, new_block 2 5 1]" by simp
  have "coalesce [new_block 0 0 2, new_block 1 2 3, new_block 2 5 1] = [new_block 0 0 6]" by simp
  then show ?thesis using merge_is_coalesce [OF h] by metis
qed

section \<open>defrag\<close>

text \<open>C8: defrag compacts without losing data. Afterwards the live blocks stand back to back
  from offset 0, all free space is one block at the end that reaches the end of the buffer,
  every live pointer sees the same bytes as before, and an allocation succeeds exactly when
  the free space, however it was scattered, is large enough.\<close>

theorem defrag_compacts:
  assumes "alloc_tiled sz al"
  shows "(\<exists>bs off. blocks (defrag al) = bs @ [new_block (next_node al) off (free_total (blocks al))]
      \<and> tiles 0 off bs \<and> (\<forall>b\<in>set bs. \<not> is_free b) \<and> off + free_total (blocks al) = sz)
    \<and> pointer_bytes (defrag al) = pointer_bytes al
    \<and> ((\<exists>p al'. alloc N (defrag al) = (Inr p, al')) \<longleftrightarrow> N \<le> free_total (blocks al))"
proof (intro conjI)
  have wf: "alloc_wf sz al" by (rule tiled_wf [OF assms])
  obtain bs off where B:
    "blocks (defrag al) = bs @ [new_block (next_node al) off (free_total (blocks al))]"
    "tiles 0 off bs" "\<forall>b\<in>set bs. \<not> is_free b"
    by (rule defrag_wfD [OF wf])
  have "tiles 0 sz (blocks (defrag al))"
    using defrag_keeps_wf(2) [OF wf assms] by (simp add: alloc_tiled_def)
  then have "off + free_total (blocks al) = sz"
    using tiles_sum [OF B(2)] tiles_sum [of 0 sz "blocks (defrag al)"] by (simp add: B(1))
  with B show "\<exists>bs off. blocks (defrag al) = bs @ [new_block (next_node al) off (free_total (blocks al))]
      \<and> tiles 0 off bs \<and> (\<forall>b\<in>set bs. \<not> is_free b) \<and> off + free_total (blocks al) = sz" by blast
  show "pointer_bytes (defrag al) = pointer_bytes al"
    by (rule ext) (simp add: pointer_bytes_contents heap.contents_compact [OF wf])
  have "(\<exists>e al'. alloc N (defrag al) = (Inl e, al')) \<longleftrightarrow> free_total (blocks al) < N"
    using B(3) by (auto simp: alloc_Inl B(1))
  then show "(\<exists>p al'. alloc N (defrag al) = (Inr p, al')) \<longleftrightarrow> N \<le> free_total (blocks al)"
    by (metis Inl_Inr_False prod.exhaust_sel obj_sumE fst_conv not_le)
qed

theorem defrag_compacts_witness:
  "\<exists>p al'. alloc 4 (defrag (client_run [ClientAlloc 2, ClientAlloc 2, ClientAlloc 2, ClientFree 0, ClientFree 2]
      (allocator_init (\<lambda>_. 0) 6))) = (Inr p, al')"
proof -
  let ?al = "client_run [ClientAlloc 2, ClientAlloc 2, ClientAlloc 2, ClientFree 0, ClientFree 2]
      (allocator_init (\<lambda>_. 0) 6)"
  have h: "alloc_tiled 6 ?al" by (rule reachable_tiled)
  have "free_total (blocks ?al) = 4" by (simp add: run_defs)
  then show ?thesis using defrag_compacts [OF h, of 4] by simp
qed

section \<open>realloc\<close>

text \<open>realloc never leaves the invariant: whatever it does (allocate for NULL, shrink,
  grow, throw), blocks stay in order, disjoint and inside the buffer, with distinct nodes; and
  when it throws, nothing has changed.\<close>

theorem realloc_invariant:
  assumes "alloc_wf sz al" and "realloc p N al = (r, al')"
  shows "alloc_wf sz al' \<and> (\<forall>e. r = Inl e \<longrightarrow> al' = al)"
  using realloc_keeps_wf [OF assms] assms(2)
  by (auto simp: realloc_def alloc_Inl split: option.splits if_splits prod.splits)

theorem realloc_invariant_witness:
  "alloc_wf 8 (snd (realloc (Some 0) 6 (client_run [ClientAlloc 2, ClientAlloc 2] (allocator_init (\<lambda>_. 0) 8))))"
  using realloc_invariant [OF reachable_wf surjective_pairing] by blast

lemma find_block_own:
  assumes "alloc_wf sz al" "\<forall>b\<in>set (blocks al). 0 < mb_length b" "b \<in> set (blocks al)"
  shows "find_block (blocks al) (mb_offset b) = Some b"
proof -
  obtain c where c: "find_block (blocks al) (mb_offset b) = Some c"
    using assms(3) by (fastforce simp: find_block_def find_None_iff)
  have "mb_node c = mb_node b"
  proof (rule ccontr)
    assume "mb_node c \<noteq> mb_node b"
    then show False
      using fits_disjoint [of 0 sz "blocks al" c b] wf_distinct [OF assms(1)] assms
        find_block_SomeD [OF c] by (fastforce simp: alloc_wf_def disjoint_regions_def)
  qed
  then have "c = b"
    using node_block_mem [OF wf_distinct [OF assms(1)]] assms(3) find_block_SomeD [OF c]
    by (metis option.inject)
  with c show ?thesis by simp
qed

text \<open>Shrinking through realloc keeps the pointer, its offset and every byte, and cuts
  its region to the first N bytes (when the block at the pointer's offset is the pointer's
  own, as it is when no block is empty).\<close>

theorem realloc_shrinks:
  assumes "alloc_wf sz al" and "\<forall>b\<in>set (blocks al). 0 < mb_length b"
    and "live al a = Some (off, len)" and "N < len"
  shows "\<exists>al'. realloc (Some a) N al = (Inr (Some a), al')
    \<and> live al' = (live al)(a \<mapsto> (off, N)) \<and> pointer_bytes al' a = map_option (take N) (pointer_bytes al a)"
proof -
  from assms(3) obtain b where b: "node_block (blocks al) a = Some b" "\<not> is_free b"
    "mb_offset b = off" "mb_length b = len"
    by (auto simp: live_def split: option.splits if_splits)
  have bm: "b \<in> set (blocks al)" using node_block_SomeD [OF b(1)] by simp
  have fb: "find_block (blocks al) (mb_offset b) = Some b"
    by (rule find_block_own [OF assms(1,2) bm])
  obtain r al' where r: "realloc (Some a) N al = (r, al')" by (metis surj_pair)
  have "N < mb_length b" using assms(4) b(4) by simp
  from realloc_shrink_live [OF assms(1) b(1,2) fb this r] r assms(3,4) b show ?thesis
    by (auto simp: pointer_bytes_def bytes_at_def take_map)
qed

theorem realloc_shrinks_witness:
  "\<exists>al'. realloc (Some 1) 1 (client_run [ClientAlloc 2, ClientAlloc 3] (allocator_init (\<lambda>_. 5) 8))
    = (Inr (Some 1), al') \<and> live al' 1 = Some (2, 1)"
proof -
  let ?al = "client_run [ClientAlloc 2, ClientAlloc 3] (allocator_init (\<lambda>_. 5) 8)"
  have h: "alloc_wf 8 ?al" by (rule reachable_wf)
  have p: "\<forall>b\<in>set (blocks ?al). 0 < mb_length b" "live ?al 1 = Some (2, 3)" by (simp_all add: run_defs)
  from realloc_shrinks [OF h p, of 1] show ?thesis by auto
qed


text \<open>Growing through realloc copies the data. When it returns, the returned pointer's
  block starts at an offset with N bytes of room inside the buffer, the old bytes are at the
  start of it, and no other live pointer's bytes or region change. If the block moved, the
  new pointer is live with N bytes and the old one is not; if it grew in place (the run found
  starts with the block itself), the pointer is no longer live: its block is left marked
  free, because the old block is set free after the candidate was set used.\<close>

theorem realloc_grows:
  assumes "alloc_wf sz al" and "\<forall>b\<in>set (blocks al). 0 < mb_length b"
    and "live al a = Some (off, len)" and "len < N" and "realloc (Some a) N al = (Inr p, al')"
  shows "\<exists>c off'. p = Some c \<and> off' + N \<le> sz
    \<and> bytes_at (buffer al') off' len = bytes_at (buffer al) off len
    \<and> (\<forall>d. d \<noteq> a \<and> d \<noteq> c \<longrightarrow> live al' d = live al d)
    \<and> (\<forall>d o' l'. d \<noteq> a \<and> live al d = Some (o', l') \<longrightarrow>
         bytes_at (buffer al') o' l' = bytes_at (buffer al) o' l')
    \<and> live al' a = None
    \<and> (if c = a then off' = off else live al' c = Some (off', N))"
proof -
  from assms(3) obtain b where b: "node_block (blocks al) a = Some b" "\<not> is_free b"
    "mb_offset b = off" "mb_length b = len"
    by (auto simp: live_def split: option.splits if_splits)
  have bm: "b \<in> set (blocks al)" using node_block_SomeD [OF b(1)] by simp
  have fb: "find_block (blocks al) (mb_offset b) = Some b"
    by (rule find_block_own [OF assms(1,2) bm])
  from assms(4) b(4) have "mb_length b < N" by simp
  with assms(1,5) b(1) fb obtain c off' where "p = Some c" "off' + N \<le> sz"
    "live al' = (if c = a then (live al)(a := None) else (live al)(a := None, c \<mapsto> (off', N)))"
    "bytes_at (buffer al') off' (mb_length b) = bytes_at (buffer al) (mb_offset b) (mb_length b)"
    "c = a \<longrightarrow> off' = mb_offset b"
    "\<forall>a' o' l'. a' \<noteq> a \<and> live al a' = Some (o', l') \<longrightarrow>
       bytes_at (buffer al') o' l' = bytes_at (buffer al) o' l'"
    by (rule realloc_grow_live)
  then show ?thesis by (intro exI [of _ c] exI [of _ off']) (auto simp: b(3,4))
qed

theorem realloc_grows_witness:
  "\<exists>al'. realloc (Some 0) 3 (client_run [ClientAlloc 2, ClientAlloc 2] (allocator_init (\<lambda>i. of_nat i) 8))
    = (Inr (Some 2), al') \<and> bytes_at (buffer al') 4 2 = [0, 1] \<and> live al' 0 = None"
proof -
  let ?al = "client_run [ClientAlloc 2, ClientAlloc 2] (allocator_init (\<lambda>i. of_nat i) 8)"
  have h: "alloc_wf 8 ?al" by (rule reachable_wf)
  have p: "\<forall>b\<in>set (blocks ?al). 0 < mb_length b" "live ?al 0 = Some (0, 2)"
    by (simp_all add: run_defs)
  obtain al' where r: "realloc (Some 0) 3 ?al = (Inr (Some 2), al')"
    and b: "bytes_at (buffer al') 4 2 = [0, 1]"
    by (simp add: run_defs realloc_grow_def set_length_def set_state_def memmove_def numeral_2_eq_2)
  have n: "live al' 0 = None" using realloc_grows [OF h p _ r] by auto
  from r b n show ?thesis by blast
qed

text \<open>realloc runs out of memory exactly when it has to: growing a pointer throws
  NoMemory if and only if no run of neighbouring free blocks, the pointer's own block counting
  as free, has N bytes in total.\<close>

theorem realloc_no_memory_iff:
  assumes "alloc_wf sz al" and "\<forall>b\<in>set (blocks al). 0 < mb_length b"
    and "live al a = Some (off, len)" and "len < N"
  shows "fst (realloc (Some a) N al) = Inl (AllocError NoMemory) \<longleftrightarrow>
    \<not> (\<exists>xs r ys. blocks al = xs @ r @ ys \<and> (\<forall>b\<in>set r. is_free b \<or> mb_node b = a)
        \<and> N \<le> sum_list (map mb_length r))"
proof -
  from assms(3) obtain b where b: "node_block (blocks al) a = Some b" "mb_offset b = off" "mb_length b = len"
    by (auto simp: live_def split: option.splits if_splits)
  have bm: "b \<in> set (blocks al)" "mb_node b = a" using node_block_SomeD [OF b(1)] by auto
  have fb: "find_block (blocks al) (mb_offset b) = Some b"
    by (rule find_block_own [OF assms(1,2) bm(1)])
  obtain L C where fr: "find_run N a (blocks al) 0 None = (L, C)" by fastforce
  have "fst (realloc (Some a) N al) = Inl (AllocError NoMemory) \<longleftrightarrow> L < N"
    using assms(4) b fb bm(2) fr by (auto simp: realloc_def split: option.splits)
  moreover have "N \<le> L" if "\<exists>xs r ys. blocks al = xs @ r @ ys \<and> (\<forall>b\<in>set r. in_run a b) \<and> N \<le> total_length r"
    using find_run_complete [OF disjI1 [OF that], of 0 None] by (simp add: fr)
  moreover have "\<exists>xs r ys. blocks al = xs @ r @ ys \<and> (\<forall>b\<in>set r. in_run a b) \<and> N \<le> total_length r"
    if "N \<le> L"
  proof -
    from find_run_sound [OF fr _ that, of "[]"] assms(4) obtain xs c r ys where
      "blocks al = xs @ (c # r) @ ys" "\<forall>b\<in>set (c # r). in_run a b" "L = total_length (c # r)"
      by auto
    with that show ?thesis by metis
  qed
  ultimately show ?thesis unfolding in_run_def by (metis not_le)
qed

theorem realloc_no_memory_iff_witness:
  "fst (realloc (Some 0) 3 (client_run [ClientAlloc 2, ClientAlloc 2] (allocator_init (\<lambda>_. 0) 4)))
    = Inl (AllocError NoMemory)
  \<and> \<not> (\<exists>xs r ys. blocks (client_run [ClientAlloc 2, ClientAlloc 2] (allocator_init (\<lambda>_. 0) 4)) = xs @ r @ ys
      \<and> (\<forall>b\<in>set r. is_free b \<or> mb_node b = 0) \<and> 3 \<le> sum_list (map mb_length r))"
proof -
  let ?al = "client_run [ClientAlloc 2, ClientAlloc 2] (allocator_init (\<lambda>_. 0) 4)"
  have h: "alloc_wf 4 ?al" by (rule reachable_wf)
  have p: "\<forall>b\<in>set (blocks ?al). 0 < mb_length b" "live ?al 0 = Some (0, 2)"
    by (simp_all add: run_defs)
  have "fst (realloc (Some 0) 3 ?al) = Inl (AllocError NoMemory)" by (simp add: run_defs)
  then show ?thesis using realloc_no_memory_iff [OF h p, of 3] by simp
qed

section \<open>Where realloc departs from its contract\<close>

lemmas realloc_run_defs = run_defs realloc_grow_def realloc_shrink_def set_length_def set_state_def memmove_def

text \<open>After growing in place, the next allocation hands out the same memory: the client
  holds two pointers to one block.\<close>

theorem realloc_in_place_aliases:
  "(case realloc (Some 0) 4 (client_run [ClientAlloc 2] (allocator_init m 8)) of
      (Inr p, al1) \<Rightarrow> (case alloc 2 al1 of (Inr q, al2) \<Rightarrow> p = Some 0 \<and> q = Some 0 | _ \<Rightarrow> False)
    | _ \<Rightarrow> False)"
  by (simp add: realloc_run_defs)

text \<open>Growing into a run erases every later free block of the list, also those beyond a used
  block: their bytes are in no block any more.\<close>

lemma realloc_loses_free_blocks:
  "(case realloc (Some 0) 4 (client_run
        [ClientAlloc 2, ClientAlloc 2, ClientAlloc 2, ClientAlloc 2, ClientAlloc 2, ClientFree 1, ClientFree 3]
        (allocator_init m 10)) of
      (Inr p, al1) \<Rightarrow> map (\<lambda>b. (mb_offset b, mb_length b)) (blocks al1) = [(0, 4), (4, 2), (8, 2)]
    | _ \<Rightarrow> False)"
  by (simp add: realloc_run_defs)

text \<open>Growing into a run that fits exactly leaves a free block of length 0 behind it, at the
  offset of the next block; find\_block then takes that block for the next one, and shrinking
  that one to one byte moves its pointer elsewhere without its data.\<close>

lemma realloc_takes_wrong_block:
  "(case realloc (Some 0) 4 (client_run
        [ClientAlloc 2, ClientAlloc 2, ClientAlloc 4, ClientAlloc 2, ClientFree 2, ClientWrite 3 0 7]
        (allocator_init (\<lambda>_. 0) 10)) of
      (Inr p, al1) \<Rightarrow> pointer_bytes al1 3 = Some [7, 0] \<and>
        (case realloc (Some 3) 1 al1 of
            (Inr q, al2) \<Rightarrow> q = Some 0 \<and> pointer_bytes al2 0 = Some [0]
          | _ \<Rightarrow> False)
    | _ \<Rightarrow> False)"
  by (simp add: realloc_run_defs numeral_2_eq_2)

end
