(* ===== verification/Node_Pool.thy ===== *)
theory Node_Pool imports Prelude begin

text \<open>
  The node pool of the shared-memory hash tables (p5/HashTable.h and p6/HashTable.h): nodes
  linked by array indices, the class \<open>NodePtr\<close>, the free list, and the operations both
  tables share word for word (\<open>find_node\<close>, \<open>get_node_free\<close>, \<open>set_node_free\<close>,
  \<open>shared_memory_set\<close>). The nodes are a record that p6 extends with its time-to-live
  fields, so the shared operations are polymorphic in the extension.

  The memory block starts with the table: 256 bucket heads and, at index 256, the head of the
  free list; the 2048 nodes follow. Heads and links are indices into the nodes, -1 is NULL.
\<close>

section \<open>Data\<close>

definition HASH_TABLE_SIZE :: nat where "HASH_TABLE_SIZE = 256"
definition BUFFER_SIZE :: nat where "BUFFER_SIZE = 2048"
definition NUM_SECTIONS :: nat where "NUM_SECTIONS = 8"

record node =
  node_key :: int32
  node_value :: int32
  n_prev :: int
  n_next :: int

record 'n table_mem =
  p_table :: "int list"
  p_data :: "'n list"

type_synonym 'a node_mem = "'a node_scheme table_mem"

datatype hash_error = NoKey | NoMemory | NotExists

text \<open>\<open>NodePtr\<close>: NULL or an index. \<open>to_ptr\<close> is its constructor, \<open>get_num\<close> goes back.\<close>

type_synonym node_ptr = "nat option"

definition to_ptr :: "int \<Rightarrow> node_ptr" where
  "to_ptr n = (if n \<noteq> -1 then Some (nat n) else None)"

definition get_num :: "node_ptr \<Rightarrow> int" where
  "get_num p = (case p of None \<Rightarrow> -1 | Some i \<Rightarrow> int i)"

definition get_next :: "'a node_scheme list \<Rightarrow> node_ptr \<Rightarrow> node_ptr" where
  "get_next d p = (case p of None \<Rightarrow> None | Some i \<Rightarrow> to_ptr (n_next (d ! i)))"

definition get_prev :: "'a node_scheme list \<Rightarrow> node_ptr \<Rightarrow> node_ptr" where
  "get_prev d p = (case p of None \<Rightarrow> None | Some i \<Rightarrow> to_ptr (n_prev (d ! i)))"

definition set_next :: "node_ptr \<Rightarrow> int \<Rightarrow> 'a node_scheme list \<Rightarrow> 'a node_scheme list" where
  "set_next p n d = (case p of None \<Rightarrow> d | Some i \<Rightarrow> d[i := (d ! i)\<lparr>n_next := n\<rparr>])"

definition set_prev :: "node_ptr \<Rightarrow> int \<Rightarrow> 'a node_scheme list \<Rightarrow> 'a node_scheme list" where
  "set_prev p n d = (case p of None \<Rightarrow> d | Some i \<Rightarrow> d[i := (d ! i)\<lparr>n_prev := n\<rparr>])"

definition set_key :: "node_ptr \<Rightarrow> int32 \<Rightarrow> 'a node_scheme list \<Rightarrow> 'a node_scheme list" where
  "set_key p k d = (case p of None \<Rightarrow> d | Some i \<Rightarrow> d[i := (d ! i)\<lparr>node_key := k\<rparr>])"

definition set_value :: "node_ptr \<Rightarrow> int32 \<Rightarrow> 'a node_scheme list \<Rightarrow> 'a node_scheme list" where
  "set_value p v d = (case p of None \<Rightarrow> d | Some i \<Rightarrow> d[i := (d ! i)\<lparr>node_value := v\<rparr>])"

text \<open>
  \<open>std::hash<int>\<close> of libstdc++ is the conversion to \<open>size_t\<close>, which extends the sign to 64
  bits; the remainder is taken there.
\<close>

definition get_hash :: "int32 \<Rightarrow> nat" where
  "get_hash key = unat ((scast key :: 64 word) mod 256)"

section \<open>Operations\<close>

text \<open>
  \<open>shared_memory_set\<close>: all buckets empty, every node in the free list. The loops assign
  by index and leave keys and values as the memory holds them.
\<close>

definition shared_memory_set :: "'a node_mem \<Rightarrow> 'a node_mem" where
  "shared_memory_set M = \<lparr>
     p_table = map (\<lambda>i. -1) [0..<HASH_TABLE_SIZE] @ [0],
     p_data = map (\<lambda>i. (p_data M ! i)\<lparr>
         n_prev := (if i > 0 then int i - 1 else -1),
         n_next := (if i < BUFFER_SIZE - 1 then int i + 1 else -1)\<rparr>) [0..<BUFFER_SIZE]\<rparr>"

definition get_num_free_node :: "'a node_mem \<Rightarrow> int" where
  "get_num_free_node M = p_table M ! HASH_TABLE_SIZE"

definition set_num_free_node :: "int \<Rightarrow> 'a node_mem \<Rightarrow> 'a node_mem" where
  "set_num_free_node k M = M\<lparr>p_table := (p_table M)[HASH_TABLE_SIZE := k]\<rparr>"

text \<open>The loop of \<open>find_node\<close>: it follows the links, so it need not end; \<open>None\<close> is that.\<close>

partial_function (option) find_loop :: "'a node_scheme list \<Rightarrow> int32 \<Rightarrow> node_ptr \<Rightarrow> node_ptr option" where
  "find_loop d key p = (case p of
      None \<Rightarrow> Some None
    | Some i \<Rightarrow> if node_key (d ! i) \<noteq> key then find_loop d key (to_ptr (n_next (d ! i))) else Some (Some i))"

definition find_node :: "'a node_mem \<Rightarrow> int32 \<Rightarrow> node_ptr option" where
  "find_node M key = find_loop (p_data M) key (to_ptr (p_table M ! get_hash key))"

definition get_node_free :: "'a node_mem \<Rightarrow> (hash_error, node_ptr, 'a node_mem) outcome" where
  "get_node_free M = (let p_node = to_ptr (get_num_free_node M) in
     case p_node of
       None \<Rightarrow> (Inl NoMemory, M)
     | Some _ \<Rightarrow>
        (let p_free = get_next (p_data M) p_node;
             M1 = M\<lparr>p_data := set_prev p_free (-1) (p_data M)\<rparr>
         in (Inr p_node, set_num_free_node (get_num p_free) M1)))"

text \<open>The loop over the bucket heads: the first head that is the node is redirected.\<close>

function unlink_loop :: "nat \<Rightarrow> int \<Rightarrow> int \<Rightarrow> int list \<Rightarrow> int list" where
  "unlink_loop i num nxt tab =
     (if i < HASH_TABLE_SIZE
      then (if tab ! i = num then tab[i := nxt] else unlink_loop (Suc i) num nxt tab)
      else tab)"
  by pat_completeness auto
termination
  by (relation "measure (\<lambda>(i, num, nxt, tab). HASH_TABLE_SIZE - i)") auto

declare unlink_loop.simps [simp del]

definition set_node_free :: "node_ptr \<Rightarrow> 'a node_mem \<Rightarrow> 'a node_mem" where
  "set_node_free p_node M =
     (let p_prev = get_prev (p_data M) p_node;
          p_next = get_next (p_data M) p_node;
          M1 = M\<lparr>p_table := unlink_loop 0 (get_num p_node) (get_num p_next) (p_table M)\<rparr>;
          d1 = set_next p_prev (get_num p_next) (p_data M1);
          d2 = set_prev p_next (get_num p_prev) d1;
          p_free = to_ptr (get_num_free_node M1);
          d3 = set_prev p_free (get_num p_node) d2;
          d4 = set_next p_node (get_num p_free) d3;
          d5 = set_prev p_node (-1) d4
      in set_num_free_node (get_num p_node) (M1\<lparr>p_data := d5\<rparr>))"

section \<open>Lists of linked nodes\<close>

text \<open>
  \<open>dls d p h xs t\<close>: starting from head \<open>h\<close>, the links lead through the nodes \<open>xs\<close> and
  end in \<open>t\<close>; the first node's back link is \<open>p\<close>, every other one's its predecessor.
\<close>

fun dls :: "'a node_scheme list \<Rightarrow> int \<Rightarrow> int \<Rightarrow> nat list \<Rightarrow> int \<Rightarrow> bool" where
  "dls d p h [] t \<longleftrightarrow> h = t"
| "dls d p h (i # is) t \<longleftrightarrow>
     h = int i \<and> i < length d \<and> n_prev (d ! i) = p \<and> dls d (int i) (n_next (d ! i)) is t"

abbreviation dll :: "'a node_scheme list \<Rightarrow> int \<Rightarrow> nat list \<Rightarrow> bool" where
  "dll d h xs \<equiv> dls d (-1) h xs (-1)"

definition head_num :: "nat list \<Rightarrow> int \<Rightarrow> int" where
  "head_num xs t = (case xs of [] \<Rightarrow> t | x # _ \<Rightarrow> int x)"

definition last_num :: "int \<Rightarrow> nat list \<Rightarrow> int" where
  "last_num p xs = (if xs = [] then p else int (last xs))"

lemma head_num_simps [simp]: "head_num [] t = t" "head_num (x # xs) t = int x"
  by (simp_all add: head_num_def)

lemma last_num_simps [simp]:
  "last_num p [] = p" "last_num p (x # xs) = last_num (int x) xs" "last_num p (xs @ [x]) = int x"
  by (simp_all add: last_num_def)

lemma dls_head: "dls d p h xs t \<Longrightarrow> h = head_num xs t"
  by (cases xs) auto

lemma dls_length: "dls d p h xs t \<Longrightarrow> i \<in> set xs \<Longrightarrow> i < length d"
  by (induction xs arbitrary: p h) auto

lemma dls_append:
  "dls d p h (xs @ ys) t \<longleftrightarrow>
     dls d p h xs (head_num ys t) \<and> dls d (last_num p xs) (head_num ys t) ys t"
proof (induction xs arbitrary: p h)
  case Nil
  then show ?case by (auto dest: dls_head)
next
  case (Cons x xs)
  then show ?case by (simp add: conj_assoc)
qed

text \<open>Frame: only the links of the list's own nodes matter.\<close>

lemma dls_cong:
  assumes "\<And>i. i \<in> set xs \<Longrightarrow> n_prev (d' ! i) = n_prev (d ! i) \<and> n_next (d' ! i) = n_next (d ! i)"
    and "length d' = length d"
  shows "dls d' p h xs t = dls d p h xs t"
  using assms by (induction xs arbitrary: p h) auto

lemma dls_set_last:
  "dls d p h (xs @ [x]) t \<Longrightarrow> x \<notin> set xs \<Longrightarrow>
     dls (d[x := (d ! x)\<lparr>n_next := t'\<rparr>]) p h (xs @ [x]) t'"
  by (induction xs arbitrary: p h) (auto simp: nth_list_update)

lemma dls_set_first:
  assumes "dls d p h (y # ys) t" "y \<notin> set ys"
  shows "dls (d[y := (d ! y)\<lparr>n_prev := p'\<rparr>]) p' h (y # ys) t"
proof -
  have "dls (d[y := (d ! y)\<lparr>n_prev := p'\<rparr>]) (int y) (n_next (d ! y)) ys t
      = dls d (int y) (n_next (d ! y)) ys t"
    by (rule dls_cong) (use assms(2) in \<open>metis nth_list_update_neq\<close>, simp)
  with assms(1) show ?thesis by auto
qed

section \<open>The layout of the table\<close>

text \<open>
  \<open>layout M B F\<close>: bucket \<open>h\<close> is the linked list of the nodes \<open>B h\<close>, the free list is
  \<open>F\<close>. Keys are in their bucket and occur once in it; every node is in exactly one list.
  \<open>layout_but L\<close> is the same in the middle of an operation that holds the nodes of \<open>L\<close>,
  which are in no list.
\<close>

definition bucket_ok :: "'a node_scheme list \<Rightarrow> nat \<Rightarrow> int \<Rightarrow> nat list \<Rightarrow> bool" where
  "bucket_ok d h hd_num is \<longleftrightarrow> dll d hd_num is
     \<and> (\<forall>i\<in>set is. get_hash (node_key (d ! i)) = h) \<and> distinct (map (\<lambda>i. node_key (d ! i)) is)"

definition layout_but :: "nat set \<Rightarrow> 'a node_mem \<Rightarrow> (nat \<Rightarrow> nat list) \<Rightarrow> nat list \<Rightarrow> bool" where
  "layout_but L M B F \<longleftrightarrow>
     length (p_table M) = Suc HASH_TABLE_SIZE \<and> length (p_data M) = BUFFER_SIZE
     \<and> (\<forall>h<HASH_TABLE_SIZE. bucket_ok (p_data M) h (p_table M ! h) (B h) \<and> set (B h) \<inter> set F = {})
     \<and> dll (p_data M) (p_table M ! HASH_TABLE_SIZE) F \<and> distinct F
     \<and> (\<Union>h<HASH_TABLE_SIZE. set (B h)) \<union> set F = {..<BUFFER_SIZE} - L"

abbreviation layout :: "'a node_mem \<Rightarrow> (nat \<Rightarrow> nat list) \<Rightarrow> nat list \<Rightarrow> bool" where
  "layout M B F \<equiv> layout_but {} M B F"

lemma bucket_ok_dll: "bucket_ok d h n is \<Longrightarrow> dll d n is"
  by (simp add: bucket_ok_def)

lemma bucket_ok_distinct: "bucket_ok d h n is \<Longrightarrow> distinct is"
  by (simp add: bucket_ok_def distinct_map)

lemma bucket_ok_cong:
  assumes "\<And>i. i \<in> set is \<Longrightarrow> n_prev (d' ! i) = n_prev (d ! i) \<and> n_next (d' ! i) = n_next (d ! i)
      \<and> node_key (d' ! i) = node_key (d ! i)"
    and "length d' = length d"
  shows "bucket_ok d' h n is = bucket_ok d h n is"
proof -
  have "map (\<lambda>i. node_key (d' ! i)) is = map (\<lambda>i. node_key (d ! i)) is"
    using assms(1) by simp
  moreover have "dll d' n is = dll d n is"
    using assms by (intro dls_cong) auto
  moreover have "(\<forall>i\<in>set is. get_hash (node_key (d' ! i)) = h) = (\<forall>i\<in>set is. get_hash (node_key (d ! i)) = h)"
    using assms(1) by simp
  ultimately show ?thesis unfolding bucket_ok_def by (simp only:)
qed

lemma layout_lengths:
  "layout_but L M B F \<Longrightarrow> length (p_table M) = Suc HASH_TABLE_SIZE"
  "layout_but L M B F \<Longrightarrow> length (p_data M) = BUFFER_SIZE"
  by (simp_all add: layout_but_def)

lemma layout_bucket:
  "layout_but L M B F \<Longrightarrow> h < HASH_TABLE_SIZE \<Longrightarrow> bucket_ok (p_data M) h (p_table M ! h) (B h)"
  by (simp add: layout_but_def)

lemma layout_disjoint:
  assumes "layout_but L M B F" "h < HASH_TABLE_SIZE" "i \<in> set (B h)"
  shows "i \<notin> set F"
  using assms by (auto simp: layout_but_def)

lemma layout_bucket_hash:
  assumes "layout_but L M B F" "h < HASH_TABLE_SIZE" "i \<in> set (B h)"
  shows "get_hash (node_key (p_data M ! i)) = h"
  using layout_bucket [OF assms(1,2)] assms(3) by (simp add: bucket_ok_def)

lemma layout_buckets_disjoint:
  assumes "layout_but L M B F" "h < HASH_TABLE_SIZE" "i \<in> set (B h)" "h' < HASH_TABLE_SIZE" "i \<in> set (B h')"
  shows "h' = h"
  using layout_bucket_hash [OF assms(1-3)] layout_bucket_hash [OF assms(1,4,5)] by simp

lemma layout_free: "layout_but L M B F \<Longrightarrow> dll (p_data M) (p_table M ! HASH_TABLE_SIZE) F \<and> distinct F"
  by (simp add: layout_but_def)

lemma get_hash_less [simp]: "get_hash key < HASH_TABLE_SIZE"
proof -
  have "unat ((scast key :: 64 word) mod 256) = unat (scast key :: 64 word) mod 256"
    by (simp add: unat_mod)
  then show ?thesis by (simp add: get_hash_def HASH_TABLE_SIZE_def)
qed

lemma to_ptr_int [simp]: "to_ptr (int i) = Some i" "to_ptr (-1) = None"
  by (simp_all add: to_ptr_def)

lemma get_num_simps [simp]: "get_num None = -1" "get_num (Some i) = int i"
  by (simp_all add: get_num_def)

lemma to_ptr_head: "to_ptr (head_num xs (-1)) = (case xs of [] \<Rightarrow> None | x # _ \<Rightarrow> Some x)"
  by (cases xs) simp_all

section \<open>The initial table\<close>

lemma initial_free_list:
  assumes "\<And>i. i < n \<Longrightarrow> n_prev (d ! i) = (if i > 0 then int i - 1 else -1)"
    "\<And>i. i < n \<Longrightarrow> n_next (d ! i) = (if i < n - 1 then int i + 1 else -1)"
    "length d = n" "k \<le> n"
  shows "dls d (if k > 0 then int k - 1 else -1) (if k < n then int k else -1) [k..<n] (-1)"
  using assms(4)
proof (induction "n - k" arbitrary: k)
  case 0
  then show ?case by simp
next
  case (Suc m)
  then have "k < n" by simp
  moreover from Suc this have "dls d (int k) (if Suc k < n then int (Suc k) else -1) [Suc k..<n] (-1)"
    using Suc.hyps(1) [of "Suc k"] by simp
  ultimately show ?case using assms(1,2) [of k] assms(3) by (auto simp: upt_conv_Cons)
qed

lemma layout_init: "layout (shared_memory_set M) (\<lambda>_. []) [0..<BUFFER_SIZE]"
proof -
  let ?d = "p_data (shared_memory_set M)"
  have l: "length ?d = BUFFER_SIZE" by (simp add: shared_memory_set_def)
  have "dls ?d (if 0 > (0::nat) then int 0 - 1 else -1) (if 0 < BUFFER_SIZE then int 0 else -1) [0..<BUFFER_SIZE] (-1)"
    by (rule initial_free_list) (simp_all add: shared_memory_set_def)
  then have "dll ?d 0 [0..<BUFFER_SIZE]" by (simp add: BUFFER_SIZE_def)
  with l show ?thesis
    by (auto simp: layout_but_def bucket_ok_def shared_memory_set_def nth_append)
qed

section \<open>find\_node\<close>

lemma find_loop_dls:
  assumes "dls d p h xs (-1)"
  shows "find_loop d key (to_ptr h) = Some (find (\<lambda>i. node_key (d ! i) = key) xs)"
  using assms
proof (induction xs arbitrary: p h)
  case Nil
  then show ?case by (simp add: find_loop.simps)
next
  case (Cons x xs)
  then have "find_loop d key (to_ptr (n_next (d ! x))) = Some (find (\<lambda>i. node_key (d ! i) = key) xs)"
    by auto
  with Cons.prems show ?case by (subst find_loop.simps) auto
qed

lemma find_node_layout:
  assumes "layout_but L M B F"
  shows "find_node M key = Some (find (\<lambda>i. node_key (p_data M ! i) = key) (B (get_hash key)))"
  unfolding find_node_def
  by (rule find_loop_dls [OF bucket_ok_dll [OF layout_bucket [OF assms get_hash_less]]])

text \<open>The node of a key, if any, is the one node of its bucket with that key.\<close>

lemma find_bucket_Some:
  assumes "layout_but L M B F" "i \<in> set (B h)" "h < HASH_TABLE_SIZE"
  shows "find_node M (node_key (p_data M ! i)) = Some (Some i)"
proof -
  have b: "bucket_ok (p_data M) h (p_table M ! h) (B h)" by (rule layout_bucket [OF assms(1,3)])
  then have h: "get_hash (node_key (p_data M ! i)) = h" using assms(2) by (simp add: bucket_ok_def)
  obtain j where j: "find (\<lambda>j. node_key (p_data M ! j) = node_key (p_data M ! i)) (B h) = Some j"
    using assms(2) by (metis (mono_tags) find_None_iff not_None_eq)
  then have "j \<in> set (B h)" "node_key (p_data M ! j) = node_key (p_data M ! i)"
    by (auto simp: find_Some_iff)
  with b assms(2) have "j = i" by (auto simp: bucket_ok_def distinct_map inj_on_def)
  with j h show ?thesis by (simp add: find_node_layout [OF assms(1)])
qed

lemma find_node_SomeD:
  assumes "layout_but L M B F" "find_node M key = Some (Some i)"
  shows "i \<in> set (B (get_hash key)) \<and> node_key (p_data M ! i) = key \<and> i < BUFFER_SIZE"
proof -
  from assms have i: "i \<in> set (B (get_hash key))" "node_key (p_data M ! i) = key"
    by (auto simp: find_node_layout find_Some_iff)
  then have "i < length (p_data M)"
    using dls_length [OF bucket_ok_dll [OF layout_bucket [OF assms(1) get_hash_less]]] by blast
  with i assms(1) show ?thesis by (simp add: layout_but_def)
qed

lemma find_node_NoneD:
  assumes "layout_but L M B F" "find_node M key = Some None"
  shows "\<forall>i\<in>set (B (get_hash key)). node_key (p_data M ! i) \<noteq> key"
  using assms by (auto simp: find_node_layout find_None_iff)

lemma find_node_total: "layout_but L M B F \<Longrightarrow> \<exists>p. find_node M key = Some p"
  by (simp add: find_node_layout)

end
