(* ===== verification/Node_Pool_Ops.thy ===== *)
theory Node_Pool_Ops imports Node_Pool begin

text \<open>
  What the shared operations of the node pool do to the layout: taking the head of the free
  list, linking a node to the front of a bucket, returning a node to the free list. Each is
  a statement on the linked lists (\<open>dls\<close>) and on the payload (key, value and the fields of
  the extension) of every node.
\<close>

text \<open>The end of \<open>HashTable::set\<close> in both tables: the new node becomes the bucket's head.\<close>

definition link_front :: "nat \<Rightarrow> node_ptr \<Rightarrow> 'a node_mem \<Rightarrow> 'a node_mem" where
  "link_front hash p_node M =
     (let p_next = to_ptr (p_table M ! hash);
          d1 = set_next p_node (get_num p_next) (p_data M);
          d2 = set_prev p_next (get_num p_node) d1
      in M\<lparr>p_data := d2, p_table := (p_table M)[hash := get_num p_node]\<rparr>)"

section \<open>Single fields\<close>

definition payload :: "'a node_scheme \<Rightarrow> int32 \<times> int32 \<times> 'a" where
  "payload n = (node_key n, node_value n, node.more n)"

lemma payload_links [simp]:
  "payload (n\<lparr>n_next := x\<rparr>) = payload n" "payload (n\<lparr>n_prev := x\<rparr>) = payload n"
  by (simp_all add: payload_def)

lemma payload_key: "payload n = payload n' \<Longrightarrow> node_key n = node_key n'"
  by (simp add: payload_def)

lemma length_links [simp]:
  "length (set_next p x d) = length d" "length (set_prev p x d) = length d"
  "length (set_key p k d) = length d" "length (set_value p v d) = length d"
  by (simp_all add: set_next_def set_prev_def set_key_def set_value_def split: option.split)

lemma nth_update_if: "d[j := x] ! i = (if j = i \<and> i < length d then x else d ! i)"
  by (cases "j = i"; cases "i < length d") (simp_all add: list_update_beyond)

lemma nth_set_next:
  "set_next p x d ! i = (if p = Some i \<and> i < length d then (d ! i)\<lparr>n_next := x\<rparr> else d ! i)"
  by (cases p) (simp_all add: set_next_def nth_update_if)

lemma nth_set_prev:
  "set_prev p x d ! i = (if p = Some i \<and> i < length d then (d ! i)\<lparr>n_prev := x\<rparr> else d ! i)"
  by (cases p) (simp_all add: set_prev_def nth_update_if)

lemma set_next_fields [simp]:
  "n_next (set_next p x d ! i) = (if p = Some i \<and> i < length d then x else n_next (d ! i))"
  "n_prev (set_next p x d ! i) = n_prev (d ! i)"
  "payload (set_next p x d ! i) = payload (d ! i)"
  "node_key (set_next p x d ! i) = node_key (d ! i)"
  by (simp_all add: nth_set_next)

lemma set_prev_fields [simp]:
  "n_prev (set_prev p x d ! i) = (if p = Some i \<and> i < length d then x else n_prev (d ! i))"
  "n_next (set_prev p x d ! i) = n_next (d ! i)"
  "payload (set_prev p x d ! i) = payload (d ! i)"
  "node_key (set_prev p x d ! i) = node_key (d ! i)"
  by (simp_all add: nth_set_prev)

lemma to_ptr_head_num [simp]: "to_ptr (head_num xs (-1)) = (if xs = [] then None else Some (hd xs))"
  by (cases xs) simp_all

lemma to_ptr_last_num [simp]: "to_ptr (last_num (-1) xs) = (if xs = [] then None else Some (last xs))"
  by (simp add: last_num_def)

lemma get_num_to_ptr_head [simp]: "get_num (to_ptr (head_num xs (-1))) = head_num xs (-1)"
  by (cases xs) simp_all

lemma get_num_ends [simp]:
  "get_num (if xs = [] then None else Some (hd xs)) = head_num xs (-1)"
  "get_num (if xs = [] then None else Some (last xs)) = last_num (-1) xs"
  by (cases xs; simp add: last_num_def)+

lemma get_num_to_ptr_last [simp]: "get_num (to_ptr (last_num (-1) xs)) = last_num (-1) xs"
  by (simp add: last_num_def)

section \<open>Linked lists under link updates\<close>

lemma dls_other:
  assumes "\<And>i. i \<in> set xs \<Longrightarrow> p \<noteq> Some i"
  shows "dls (set_next p x d) q h xs t = dls d q h xs t"
    and "dls (set_prev p x d) q h xs t = dls d q h xs t"
  by (rule dls_cong; use assms in simp)+

lemma dls_retarget_last:
  assumes "dls d p h ys t" "distinct ys"
  shows "dls (set_next (if ys = [] then None else Some (last ys)) t' d) p (head_num ys t') ys t'"
proof (cases ys rule: rev_cases)
  case (snoc zs z)
  then have "head_num ys t' = h" using dls_head [OF assms(1)] by (cases zs) auto
  with snoc assms show ?thesis by (auto simp: set_next_def intro: dls_set_last)
qed simp

lemma dls_retarget_first:
  assumes "dls d p h zs t" "distinct zs" "zs = [] \<or> q = Some (hd zs)" "zs = [] \<longrightarrow> q = None"
  shows "dls (set_prev q p' d) p' h zs t"
  using assms dls_set_first [of d p h "hd zs" "tl zs" t p'] by (cases zs) (auto simp: set_prev_def)

text \<open>Taking a node out of the middle of a list.\<close>

lemma dls_unlink:
  assumes l: "dll d h (ys @ i # zs)" and dist: "distinct (ys @ i # zs)"
  defines "d' \<equiv> set_prev (to_ptr (head_num zs (-1))) (last_num (-1) ys)
                 (set_next (to_ptr (last_num (-1) ys)) (head_num zs (-1)) d)"
  shows "dll d' (head_num (ys @ zs) (-1)) (ys @ zs)"
proof -
  let ?e = "set_next (to_ptr (last_num (-1) ys)) (head_num zs (-1)) d"
  from l have a: "dls d (-1) h ys (int i)" and b: "dls d (int i) (n_next (d ! i)) zs (-1)"
    by (auto simp: dls_append)
  from b have h: "n_next (d ! i) = head_num zs (-1)" by (rule dls_head)
  have "dls ?e (-1) (head_num ys (head_num zs (-1))) ys (head_num zs (-1))"
    using dls_retarget_last [OF a, of "head_num zs (-1)"] dist by simp
  moreover have "to_ptr (head_num zs (-1)) \<noteq> Some j" if "j \<in> set ys" for j
    using that dist by (cases zs) auto
  ultimately have 1: "dls d' (-1) (head_num ys (head_num zs (-1))) ys (head_num zs (-1))"
    unfolding d'_def by (simp only: dls_other not_False_eq_True)
  have "ys = [] \<or> last ys \<notin> set zs" 
    using dist by (metis IntI distinct_append empty_iff last_in_set list.set_intros(2))
  then have "dls ?e (int i) (head_num zs (-1)) zs (-1)"
    using b h by (subst dls_other) (auto split: if_splits)
  then have 2: "dls d' (last_num (-1) ys) (head_num zs (-1)) zs (-1)"
    unfolding d'_def by (rule dls_retarget_first) (use dist in auto)
  have "head_num (ys @ zs) (-1) = head_num ys (head_num zs (-1))" by (cases ys) simp_all
  with 1 2 show ?thesis by (simp add: dls_append)
qed

text \<open>Putting a node at the front of a list.\<close>

lemma dls_push:
  assumes "dll d h xs" "distinct xs" "i \<notin> set xs" "i < length d"
  shows "dll (set_prev (Some i) (-1) (set_next (Some i) h (set_prev (to_ptr h) (int i) d))) (int i) (i # xs)"
proof -
  from assms(1) have h: "h = head_num xs (-1)" by (rule dls_head)
  have "dls (set_prev (to_ptr h) (int i) d) (int i) h xs (-1)"
    by (rule dls_retarget_first [OF assms(1)]) (use assms(2) h in auto)
  moreover have "Some i \<noteq> Some j" if "j \<in> set xs" for j using that assms(3) by auto
  ultimately have "dls (set_prev (Some i) (-1) (set_next (Some i) h (set_prev (to_ptr h) (int i) d)))
      (int i) h xs (-1)"
    by (simp only: dls_other not_False_eq_True)
  with assms(4) show ?thesis by simp
qed

text \<open>A bucket none of whose nodes is touched is as it was.\<close>

lemma bucket_ok_other:
  assumes "\<And>i. i \<in> set is \<Longrightarrow> p \<noteq> Some i"
  shows "bucket_ok (set_next p x d) h n is = bucket_ok d h n is"
    and "bucket_ok (set_prev p x d) h n is = bucket_ok d h n is"
  by (rule bucket_ok_cong; use assms in simp)+

section \<open>Taking a free node\<close>

lemma get_node_free_layout:
  assumes "layout_but L M B F"
  shows "get_node_free M = (case F of
      [] \<Rightarrow> (Inl NoMemory, M)
    | f # F' \<Rightarrow> (Inr (Some f),
        M\<lparr>p_data := set_prev (to_ptr (head_num F' (-1))) (-1) (p_data M),
          p_table := (p_table M)[HASH_TABLE_SIZE := head_num F' (-1)]\<rparr>))"
proof (cases F)
  case Nil
  then have "get_num_free_node M = -1"
    using layout_free [OF assms] by (simp add: get_num_free_node_def)
  with Nil show ?thesis by (simp add: get_node_free_def)
next
  case (Cons f F')
  then have f: "get_num_free_node M = int f" "dls (p_data M) (int f) (n_next (p_data M ! f)) F' (-1)"
    using layout_free [OF assms] by (auto simp: get_num_free_node_def)
  from dls_head [OF f(2)] Cons show ?thesis
    by (simp add: get_node_free_def get_next_def set_num_free_node_def f(1) Let_def)
qed

lemma take_free_layout:
  assumes "layout_but L M B (f # F)"
  shows "layout_but (insert f L) (M\<lparr>p_data := set_prev (to_ptr (head_num F (-1))) (-1) (p_data M),
           p_table := (p_table M)[HASH_TABLE_SIZE := head_num F (-1)]\<rparr>) B F"
    (is "layout_but _ ?M _ _")
proof -
  note free = layout_free [OF assms]
  then have d: "dls (p_data M) (int f) (n_next (p_data M ! f)) F (-1)" by simp
  have *: "to_ptr (head_num F (-1)) \<noteq> Some i" if "i \<in> set (B h)" "h < HASH_TABLE_SIZE" for i h
    using layout_disjoint [OF assms that(2,1)] by (cases F) auto
  have "dll (p_data ?M) (head_num F (-1)) F"
    using dls_retarget_first [OF d, of "to_ptr (head_num F (-1))" "-1"] free dls_head [OF d] by auto
  moreover have "bucket_ok (p_data ?M) h (p_table ?M ! h) (B h)" if "h < HASH_TABLE_SIZE" for h
  proof -
    have "bucket_ok (set_prev (to_ptr (head_num F (-1))) (-1) (p_data M)) h n (B h)
        = bucket_ok (p_data M) h n (B h)" for n
      by (rule bucket_ok_other) (use * that in blast)
    with layout_bucket [OF assms that] that show ?thesis by simp
  qed
  moreover have "(\<Union>h<HASH_TABLE_SIZE. set (B h)) \<union> set F = {..<BUFFER_SIZE} - insert f L"
    using assms free layout_disjoint [OF assms, of _ f] by (auto simp: layout_but_def)
  ultimately show ?thesis using assms free by (auto simp: layout_but_def)
qed

text \<open>A node that is in no list can be written at will.\<close>

lemma loose_layout:
  assumes "layout_but L M B F" "i \<in> L"
  shows "layout_but L (M\<lparr>p_data := (p_data M)[i := n]\<rparr>) B F"
proof -
  have i: "j \<noteq> i" if "j \<in> set (B h)" "h < HASH_TABLE_SIZE" for j h
    using assms that by (auto simp: layout_but_def)
  have iF: "j \<noteq> i" if "j \<in> set F" for j
    using assms that by (auto simp: layout_but_def)
  have "bucket_ok ((p_data M)[i := n]) h (p_table M ! h) (B h)" if "h < HASH_TABLE_SIZE" for h
    using layout_bucket [OF assms(1) that]
    by (subst bucket_ok_cong [of _ _ "p_data M"]) (use i that in \<open>auto simp: nth_update_if\<close>)
  moreover have "dll ((p_data M)[i := n]) (p_table M ! HASH_TABLE_SIZE) F"
    using layout_free [OF assms(1)]
    by (subst dls_cong [of _ _ "p_data M"]) (use iF in \<open>auto simp: nth_update_if\<close>)
  ultimately show ?thesis using assms(1) by (auto simp: layout_but_def)
qed

section \<open>Linking a node to its bucket\<close>

lemma link_front_layout:
  assumes l: "layout_but (insert i L) M B F" and i: "i \<notin> L" "i < BUFFER_SIZE"
    and prev: "n_prev (p_data M ! i) = -1" and h: "get_hash (node_key (p_data M ! i)) = h"
    and new: "\<And>j. j \<in> set (B h) \<Longrightarrow> node_key (p_data M ! j) \<noteq> node_key (p_data M ! i)"
  shows "layout_but L (link_front h (Some i) M) (B(h := i # B h)) F"
    and "payload (p_data (link_front h (Some i) M) ! j) = payload (p_data M ! j)"
proof -
  have hh: "h < HASH_TABLE_SIZE" using h by auto
  show "payload (p_data (link_front h (Some i) M) ! j) = payload (p_data M ! j)"
    by (simp add: link_front_def Let_def)
  note b = layout_bucket [OF l hh]
  have head: "p_table M ! h = head_num (B h) (-1)" by (rule dls_head [OF bucket_ok_dll [OF b]])
  let ?d = "set_prev (to_ptr (p_table M ! h)) (int i) (set_next (Some i) (p_table M ! h) (p_data M))"
  have M': "link_front h (Some i) M = M\<lparr>p_data := ?d, p_table := (p_table M)[h := int i]\<rparr>"
    by (simp add: link_front_def head Let_def)
  have loose: "i \<notin> set (B k)" if "k < HASH_TABLE_SIZE" for k
    using l that by (auto simp: layout_but_def)
  have looseF: "i \<notin> set F" using l by (auto simp: layout_but_def)
  have hdB: "to_ptr (p_table M ! h) = Some j \<Longrightarrow> j \<in> set (B h)" for j
    by (auto simp: head split: if_splits)
  have "dls (set_next (Some i) (p_table M ! h) (p_data M)) (-1) (p_table M ! h) (B h) (-1)"
    using bucket_ok_dll [OF b] loose [OF hh] by (subst dls_other) auto
  then have "dls ?d (int i) (p_table M ! h) (B h) (-1)"
    by (rule dls_retarget_first) (use bucket_ok_distinct [OF b] head in auto)
  moreover have "to_ptr (p_table M ! h) \<noteq> Some i" using hdB loose [OF hh] by blast
  ultimately have dll: "dll ?d (int i) (i # B h)"
    using i(2) prev layout_lengths [OF l] by simp
  have "node_key (p_data M ! i) \<notin> (\<lambda>j. node_key (p_data M ! j)) ` set (B h)"
    using new by force
  then have "bucket_ok ?d h (int i) (i # B h)"
    unfolding bucket_ok_def using dll b h by (simp add: bucket_ok_def del: dls.simps)
  moreover have "bucket_ok ?d k (p_table M ! k) (B k)" if "k < HASH_TABLE_SIZE" "k \<noteq> h" for k
  proof -
    have "Some i \<noteq> Some j" "to_ptr (p_table M ! h) \<noteq> Some j" if "j \<in> set (B k)" for j
      using that \<open>k \<noteq> h\<close> loose [OF \<open>k < HASH_TABLE_SIZE\<close>] hdB
        layout_buckets_disjoint [OF l \<open>k < HASH_TABLE_SIZE\<close> that hh] by auto
    then show ?thesis using layout_bucket [OF l that(1)] by (simp only: bucket_ok_other not_False_eq_True)
  qed
  moreover have "dll ?d (p_table M ! HASH_TABLE_SIZE) F"
  proof -
    have "Some i \<noteq> Some j" "to_ptr (p_table M ! h) \<noteq> Some j" if "j \<in> set F" for j
      using that looseF hdB layout_disjoint [OF l hh] by auto
    then show ?thesis using layout_free [OF l] by (simp only: dls_other not_False_eq_True)
  qed
  moreover have "(\<Union>k<HASH_TABLE_SIZE. set ((B(h := i # B h)) k)) \<union> set F = {..<BUFFER_SIZE} - L"
  proof -
    have "(\<Union>k<HASH_TABLE_SIZE. set ((B(h := i # B h)) k)) = insert i (\<Union>k<HASH_TABLE_SIZE. set (B k))"
      using hh by (auto split: if_splits)
    then show ?thesis using l i by (auto simp: layout_but_def)
  qed
  ultimately show "layout_but L (link_front h (Some i) M) (B(h := i # B h)) F"
    using l looseF hh unfolding M' by (auto simp: layout_but_def nth_update_if)
qed

section \<open>Returning a node to the free list\<close>

lemma unlink_loop_none:
  "\<forall>j. i \<le> j \<and> j < HASH_TABLE_SIZE \<longrightarrow> tab ! j \<noteq> num \<Longrightarrow> unlink_loop i num nxt tab = tab"
proof (induction i num nxt tab rule: unlink_loop.induct)
  case (1 i num nxt tab)
  then show ?case by (subst unlink_loop.simps) auto
qed

lemma unlink_loop_at:
  "i \<le> h \<Longrightarrow> h < HASH_TABLE_SIZE \<Longrightarrow> tab ! h = num \<Longrightarrow>
     \<forall>j. i \<le> j \<and> j < h \<longrightarrow> tab ! j \<noteq> num \<Longrightarrow> unlink_loop i num nxt tab = tab[h := nxt]"
proof (induction i num nxt tab rule: unlink_loop.induct)
  case (1 i num nxt tab)
  show ?case
  proof (cases "i = h")
    case True
    with 1 show ?thesis by (subst unlink_loop.simps) simp
  next
    case False
    with 1 have "unlink_loop (Suc i) num nxt tab = tab[h := nxt]" by simp
    with 1 False show ?thesis by (subst unlink_loop.simps) simp
  qed
qed

lemma layout_head:
  "layout_but L M B F \<Longrightarrow> h < HASH_TABLE_SIZE \<Longrightarrow> p_table M ! h = head_num (B h) (-1)"
  using dls_head [OF bucket_ok_dll [OF layout_bucket]] .

text \<open>Only the bucket of the node can have it as its head.\<close>

lemma unlink_table:
  assumes l: "layout_but L M B F" and h: "h < HASH_TABLE_SIZE" and B: "B h = ys @ i # zs"
  shows "unlink_loop 0 (int i) (head_num zs (-1)) (p_table M) = (p_table M)[h := head_num (ys @ zs) (-1)]"
proof -
  have other: "p_table M ! k \<noteq> int i" if "k < HASH_TABLE_SIZE" "k \<noteq> h" for k
  proof
    assume "p_table M ! k = int i"
    then have "i \<in> set (B k)" using layout_head [OF l that(1)] by (cases "B k") auto
    moreover have "i \<in> set (B h)" using B by simp
    ultimately show False using layout_buckets_disjoint [OF l that(1) _ h] that(2) by blast
  qed
  show ?thesis
  proof (cases ys)
    case Nil
    then have "p_table M ! h = int i" using layout_head [OF l h] B by simp
    moreover have "\<forall>j. 0 \<le> j \<and> j < h \<longrightarrow> p_table M ! j \<noteq> int i" using other h by auto
    ultimately show ?thesis using unlink_loop_at [of 0 h "p_table M" "int i"] h Nil by simp
  next
    case (Cons y ys')
    have "i \<noteq> y" using bucket_ok_distinct [OF layout_bucket [OF l h]] B Cons by auto
    then have "p_table M ! h \<noteq> int i" using layout_head [OF l h] B Cons by simp
    then have "\<forall>j. 0 \<le> j \<and> j < HASH_TABLE_SIZE \<longrightarrow> p_table M ! j \<noteq> int i" using other by metis
    then have "unlink_loop 0 (int i) (head_num zs (-1)) (p_table M) = p_table M"
      by (rule unlink_loop_none)
    moreover have "p_table M ! h = head_num (ys @ zs) (-1)" using layout_head [OF l h] B Cons by simp
    ultimately show ?thesis by (metis list_update_id)
  qed
qed

abbreviation unlinked :: "'a node_scheme list \<Rightarrow> nat list \<Rightarrow> nat list \<Rightarrow> 'a node_scheme list" where
  "unlinked d ys zs \<equiv> set_prev (to_ptr (head_num zs (-1))) (last_num (-1) ys)
     (set_next (to_ptr (last_num (-1) ys)) (head_num zs (-1)) d)"

lemma unlink_layout:
  assumes l: "layout M B F" and h: "h < HASH_TABLE_SIZE" and B: "B h = ys @ i # zs"
  shows "layout_but {i} (M\<lparr>p_table := (p_table M)[h := head_num (ys @ zs) (-1)],
           p_data := unlinked (p_data M) ys zs\<rparr>) (B(h := ys @ zs)) F"
proof -
  note b = layout_bucket [OF l h, unfolded B]
  let ?d = "unlinked (p_data M) ys zs"
  have ends: "to_ptr (last_num (-1) ys) = Some j \<Longrightarrow> j \<in> set (B h)"
    "to_ptr (head_num zs (-1)) = Some j \<Longrightarrow> j \<in> set (B h)" for j
    using B by (auto split: if_splits)
  have "dll ?d (head_num (ys @ zs) (-1)) (ys @ zs)"
    by (rule dls_unlink [OF bucket_ok_dll [OF b] bucket_ok_distinct [OF b]])
  then have "bucket_ok ?d h (head_num (ys @ zs) (-1)) (ys @ zs)"
    using b by (auto simp: bucket_ok_def)
  moreover have "bucket_ok ?d k (p_table M ! k) (B k)" if "k < HASH_TABLE_SIZE" "k \<noteq> h" for k
  proof -
    have "to_ptr (last_num (-1) ys) \<noteq> Some j" "to_ptr (head_num zs (-1)) \<noteq> Some j" if "j \<in> set (B k)" for j
      using \<open>k \<noteq> h\<close> ends layout_buckets_disjoint [OF l \<open>k < HASH_TABLE_SIZE\<close> that h] by blast+
    then show ?thesis using layout_bucket [OF l that(1)] by (simp only: bucket_ok_other not_False_eq_True)
  qed
  moreover have "dll ?d (p_table M ! HASH_TABLE_SIZE) F"
  proof -
    have "to_ptr (last_num (-1) ys) \<noteq> Some j" "to_ptr (head_num zs (-1)) \<noteq> Some j" if "j \<in> set F" for j
      using that ends layout_disjoint [OF l h] by blast+
    then show ?thesis using layout_free [OF l] by (simp only: dls_other not_False_eq_True)
  qed
  moreover have "(\<Union>k<HASH_TABLE_SIZE. set ((B(h := ys @ zs)) k)) \<union> set F = {..<BUFFER_SIZE} - {i}"
  proof -
    have "i \<notin> set F" using layout_disjoint [OF l h, of i] B by simp
    have "i \<notin> set (B k)" if "k < HASH_TABLE_SIZE" "k \<noteq> h" for k
      using layout_buckets_disjoint [OF l that(1) _ h, of i] B that(2) by auto
    moreover have "i \<notin> set (ys @ zs)" using bucket_ok_distinct [OF b] by simp
    ultimately have e: "set ((B(h := ys @ zs)) k) = set (B k) - {i}" if "k < HASH_TABLE_SIZE" for k
      using B that by (cases "k = h") auto
    have "(\<Union>k<HASH_TABLE_SIZE. set ((B(h := ys @ zs)) k)) = (\<Union>k<HASH_TABLE_SIZE. set (B k) - {i})"
      using e by (intro SUP_cong) auto
    with \<open>i \<notin> set F\<close> l show ?thesis by (auto simp: layout_but_def)
  qed
  moreover have "set (ys @ zs) \<inter> set F = {}" using layout_disjoint [OF l h] B by auto
  ultimately show ?thesis using l h by (auto simp: layout_but_def nth_update_if)
qed

lemma push_free_layout:
  assumes l: "layout_but {i} M B F" and i: "i < BUFFER_SIZE"
  defines "d \<equiv> set_prev (Some i) (-1) (set_next (Some i) (p_table M ! HASH_TABLE_SIZE)
                 (set_prev (to_ptr (p_table M ! HASH_TABLE_SIZE)) (int i) (p_data M)))"
  shows "layout (M\<lparr>p_data := d, p_table := (p_table M)[HASH_TABLE_SIZE := int i]\<rparr>) B (i # F)"
proof -
  have loose: "i \<notin> set (B k)" if "k < HASH_TABLE_SIZE" for k using l that by (auto simp: layout_but_def)
  have looseF: "i \<notin> set F" using l by (auto simp: layout_but_def)
  note free = layout_free [OF l]
  then have hd: "p_table M ! HASH_TABLE_SIZE = head_num F (-1)" by (auto dest: dls_head)
  have "dll d (int i) (i # F)"
    unfolding d_def using dls_push [of "p_data M" _ F i] free looseF i layout_lengths [OF l] by simp
  moreover have "bucket_ok d k (p_table M ! k) (B k)" if "k < HASH_TABLE_SIZE" for k
  proof -
    have "Some i \<noteq> Some j" "to_ptr (p_table M ! HASH_TABLE_SIZE) \<noteq> Some j" if "j \<in> set (B k)" for j
      using that loose [OF \<open>k < HASH_TABLE_SIZE\<close>] layout_disjoint [OF l \<open>k < HASH_TABLE_SIZE\<close> that] hd
      by auto
    then show ?thesis unfolding d_def using layout_bucket [OF l that]
      by (simp only: bucket_ok_other not_False_eq_True)
  qed
  moreover have "length d = BUFFER_SIZE" using layout_lengths [OF l] by (simp add: d_def)
  ultimately show ?thesis using l loose looseF i by (auto simp: layout_but_def)
qed

lemma set_node_free_layout:
  assumes l: "layout M B F" and h: "h < HASH_TABLE_SIZE" and B: "B h = ys @ i # zs"
  shows "layout (set_node_free (Some i) M) (B(h := ys @ zs)) (i # F)"
    and "payload (p_data (set_node_free (Some i) M) ! j) = payload (p_data M ! j)"
proof -
  note b = layout_bucket [OF l h, unfolded B]
  have i: "i < BUFFER_SIZE" using dls_length [OF bucket_ok_dll [OF b], of i] layout_lengths [OF l] by simp
  have p: "n_prev (p_data M ! i) = last_num (-1) ys"
    using bucket_ok_dll [OF b] by (simp add: dls_append)
  have "dls (p_data M) (int i) (n_next (p_data M ! i)) zs (-1)"
    using bucket_ok_dll [OF b] by (simp add: dls_append)
  then have n: "n_next (p_data M ! i) = head_num zs (-1)" by (rule dls_head)
  show "payload (p_data (set_node_free (Some i) M) ! j) = payload (p_data M ! j)"
    by (simp add: set_node_free_def set_num_free_node_def Let_def)
  let ?M = "M\<lparr>p_table := (p_table M)[h := head_num (ys @ zs) (-1)], p_data := unlinked (p_data M) ys zs\<rparr>"
  note u = unlink_layout [OF l h B]
  have free: "p_table ?M ! HASH_TABLE_SIZE = head_num F (-1)"
    using layout_free [OF u] by (auto dest: dls_head)
  have "set_node_free (Some i) M = ?M\<lparr>p_data := set_prev (Some i) (-1) (set_next (Some i) (p_table ?M ! HASH_TABLE_SIZE)
      (set_prev (to_ptr (p_table ?M ! HASH_TABLE_SIZE)) (int i) (p_data ?M))),
      p_table := (p_table ?M)[HASH_TABLE_SIZE := int i]\<rparr>"
    using free unlink_table [OF l h B]
    by (simp add: set_node_free_def set_num_free_node_def get_num_free_node_def get_prev_def get_next_def
        p n Let_def)
  with push_free_layout [OF u i] show "layout (set_node_free (Some i) M) (B(h := ys @ zs)) (i # F)"
    by simp
qed

end
