(* ===== verification/Node_Pool_Map.thy ===== *)
theory Node_Pool_Map imports Node_Pool_Ops begin

text \<open>
  The finite map a table stores (\<open>stored\<close>), and what each way of changing the memory does
  to it: writing a node in place, inserting a node, freeing one. The number of keys is the
  number of nodes that are not free.
\<close>

definition stored :: "'a node_mem \<Rightarrow> int32 \<Rightarrow> (int32 \<times> int32 \<times> 'a) option" where
  "stored M k = (case find_node M k of Some (Some i) \<Rightarrow> Some (payload (p_data M ! i)) | _ \<Rightarrow> None)"

definition pool_inv :: "'a node_mem \<Rightarrow> bool" where
  "pool_inv M \<longleftrightarrow> (\<exists>B F. layout M B F)"

text \<open>The key-to-value part of \<open>stored\<close>.\<close>

definition lookup :: "'a node_mem \<Rightarrow> int32 \<Rightarrow> int32 option" where
  "lookup M k = map_option (\<lambda>(_, v, _). v) (stored M k)"

lemma pool_invI: "layout M B F \<Longrightarrow> pool_inv M"
  by (auto simp: pool_inv_def)

lemma stored_find:
  "layout_but L M B F \<Longrightarrow>
     stored M k = map_option (\<lambda>i. payload (p_data M ! i)) (find (\<lambda>i. node_key (p_data M ! i) = k) (B (get_hash k)))"
  by (simp add: stored_def find_node_layout split: option.split)

lemma stored_at:
  assumes "layout_but L M B F" "i \<in> set (B h)" "h < HASH_TABLE_SIZE"
  shows "stored M (node_key (p_data M ! i)) = Some (payload (p_data M ! i))"
  using find_bucket_Some [OF assms] by (simp add: stored_def)

lemma stored_None:
  "layout_but L M B F \<Longrightarrow> stored M k = None \<longleftrightarrow> find_node M k = Some None"
  by (auto simp: stored_find find_node_layout)

lemma stored_Some:
  "layout_but L M B F \<Longrightarrow> find_node M k = Some (Some i) \<Longrightarrow> stored M k = Some (payload (p_data M ! i))"
  by (simp add: stored_def)

section \<open>Writing a node in place\<close>

lemma write_layout:
  assumes l: "layout_but L M B F"
    and n: "n_prev n = n_prev (p_data M ! i)" "n_next n = n_next (p_data M ! i)"
      "node_key n = node_key (p_data M ! i)"
  shows "layout_but L (M\<lparr>p_data := (p_data M)[i := n]\<rparr>) B F"
proof -
  have "bucket_ok ((p_data M)[i := n]) h (p_table M ! h) (B h)" if "h < HASH_TABLE_SIZE" for h
    using layout_bucket [OF l that] by (subst bucket_ok_cong [of _ _ "p_data M"]) (auto simp: nth_update_if n)
  moreover have "dll ((p_data M)[i := n]) (p_table M ! HASH_TABLE_SIZE) F"
    using layout_free [OF l] by (subst dls_cong [of _ _ "p_data M"]) (auto simp: nth_update_if n)
  ultimately show ?thesis using l by (auto simp: layout_but_def)
qed

lemma write_stored:
  assumes l: "layout M B F" and f: "find_node M k = Some (Some i)"
    and n: "n_prev n = n_prev (p_data M ! i)" "n_next n = n_next (p_data M ! i)"
      "node_key n = node_key (p_data M ! i)"
  shows "stored (M\<lparr>p_data := (p_data M)[i := n]\<rparr>) = (stored M)(k \<mapsto> payload n)"
proof
  fix k'
  let ?M = "M\<lparr>p_data := (p_data M)[i := n]\<rparr>"
  note l' = write_layout [OF l n]
  note i = find_node_SomeD [OF l f]
  have len: "i < length (p_data M)" using i layout_lengths [OF l] by simp
  have key: "node_key (p_data ?M ! j) = node_key (p_data M ! j)" for j
    by (simp add: nth_update_if n)
  have "find_node ?M k' = find_node M k'"
    unfolding find_node_layout [OF l'] find_node_layout [OF l] key ..
  then have s: "stored ?M k' = (case find_node M k' of Some (Some j) \<Rightarrow> Some (payload (p_data ?M ! j)) | _ \<Rightarrow> None)"
    by (simp add: stored_def)
  show "stored ?M k' = ((stored M)(k \<mapsto> payload n)) k'"
  proof (cases "k' = k")
    case True
    with s f len show ?thesis by simp
  next
    case False
    have "j \<noteq> i" if "find_node M k' = Some (Some j)" for j
      using find_node_SomeD [OF l that] i False by auto
    with s False show ?thesis by (auto simp: stored_def split: option.split)
  qed
qed

section \<open>Inserting and removing\<close>

lemma insert_stored:
  assumes l: "layout_but L M B F" and l': "layout_but L' M' (B(h := i # B h)) F'"
    and h: "h = get_hash k" and key: "node_key (p_data M' ! i) = k" and new: "stored M k = None"
    and frame: "\<And>j. j \<noteq> i \<Longrightarrow> payload (p_data M' ! j) = payload (p_data M ! j)"
  shows "stored M' = (stored M)(k \<mapsto> payload (p_data M' ! i))"
proof
  fix k'
  have h256: "h < HASH_TABLE_SIZE" by (simp add: h)
  show "stored M' k' = ((stored M)(k \<mapsto> payload (p_data M' ! i))) k'"
  proof (cases "k' = k")
    case True
    with stored_at [OF l', of i h] h256 key show ?thesis by simp
  next
    case False
    let ?B = "B(h := i # B h)"
    have i: "i \<notin> set (B (get_hash k'))"
    proof
      assume a: "i \<in> set (B (get_hash k'))"
      show False
      proof (cases "get_hash k' = h")
        case True
        then show False using a bucket_ok_distinct [OF layout_bucket [OF l' h256]] by simp
      next
        case False
        with a layout_buckets_disjoint [OF l' h256, of i "get_hash k'"] show False by simp
      qed
    qed
    have p: "payload (p_data M' ! j) = payload (p_data M ! j)" if "j \<in> set (B (get_hash k'))" for j
      using frame that i by metis
    then have n: "node_key (p_data M' ! j) = node_key (p_data M ! j)" if "j \<in> set (B (get_hash k'))" for j
      using that payload_key by blast
    have "find (\<lambda>j. node_key (p_data M' ! j) = k') (B (get_hash k'))
        = find (\<lambda>j. node_key (p_data M ! j) = k') (B (get_hash k'))"
      using n by (intro find_cong) simp_all
    then have "find (\<lambda>j. node_key (p_data M' ! j) = k') (?B (get_hash k'))
        = find (\<lambda>j. node_key (p_data M ! j) = k') (B (get_hash k'))" (is "_ = ?f")
      using key False by auto
    moreover have "?f = Some j \<Longrightarrow> payload (p_data M' ! j) = payload (p_data M ! j)" for j
      using p by (auto simp: find_Some_iff)
    ultimately have "stored M' k' = stored M k'"
      by (cases ?f) (simp_all add: stored_find [OF l] stored_find [OF l'])
    with False show ?thesis by simp
  qed
qed

lemma remove_stored:
  assumes l: "layout M B F" and f: "find_node M k = Some (Some i)"
  shows "pool_inv (set_node_free (Some i) M)"
    and "stored (set_node_free (Some i) M) = (stored M)(k := None)"
proof -
  let ?M = "set_node_free (Some i) M" and ?h = "get_hash k"
  note i = find_node_SomeD [OF l f]
  then obtain ys zs where B: "B ?h = ys @ i # zs" by (auto dest: split_list)
  note l' = set_node_free_layout(1) [OF l get_hash_less B]
  note p = set_node_free_layout(2) [OF l get_hash_less B]
  then have n: "node_key (p_data ?M ! j) = node_key (p_data M ! j)" for j
    using payload_key by blast
  from l' show "pool_inv ?M" by (rule pool_invI)
  have d: "distinct (map (\<lambda>j. node_key (p_data M ! j)) (ys @ i # zs))"
    using layout_bucket [OF l get_hash_less, of k] B by (simp add: bucket_ok_def)
  show "stored ?M = (stored M)(k := None)"
  proof
    fix k'
    show "stored ?M k' = ((stored M)(k := None)) k'"
    proof (cases "k' = k")
      case True
      have "find (\<lambda>j. node_key (p_data M ! j) = k) (ys @ zs) = None"
        using d i by (auto simp: find_None_iff image_iff)
      with True show ?thesis by (simp add: stored_find [OF l'] n)
    next
      case False
      have "find (\<lambda>j. node_key (p_data M ! j) = k') (ys @ i # zs) = find (\<lambda>j. node_key (p_data M ! j) = k') (ys @ zs)"
        using i False by (induction ys) auto
      with False B show ?thesis
        by (cases "get_hash k' = ?h") (simp_all add: stored_find [OF l'] stored_find [OF l] n p)
    qed
  qed
qed

section \<open>Counting\<close>

lemma stored_dom:
  assumes "layout M B F"
  shows "dom (stored M) = (\<lambda>i. node_key (p_data M ! i)) ` (\<Union>h<HASH_TABLE_SIZE. set (B h))"
proof (rule set_eqI)
  fix k
  show "k \<in> dom (stored M) \<longleftrightarrow> k \<in> (\<lambda>i. node_key (p_data M ! i)) ` (\<Union>h<HASH_TABLE_SIZE. set (B h))"
  proof
    assume "k \<in> dom (stored M)"
    then obtain i where "find_node M k = Some (Some i)"
      by (auto simp: stored_def split: option.splits)
    from find_node_SomeD [OF assms this]
    show "k \<in> (\<lambda>i. node_key (p_data M ! i)) ` (\<Union>h<HASH_TABLE_SIZE. set (B h))"
      using get_hash_less [of k] by force
  next
    assume "k \<in> (\<lambda>i. node_key (p_data M ! i)) ` (\<Union>h<HASH_TABLE_SIZE. set (B h))"
    then show "k \<in> dom (stored M)" using stored_at [OF assms] by auto
  qed
qed

lemma stored_card:
  assumes l: "layout M B F"
  shows "finite (dom (stored M)) \<and> card (dom (stored M)) + length F = BUFFER_SIZE"
proof -
  let ?U = "\<Union>h<HASH_TABLE_SIZE. set (B h)"
  have inj: "inj_on (\<lambda>i. node_key (p_data M ! i)) ?U"
  proof (rule inj_onI)
    fix i j assume "i \<in> ?U" "j \<in> ?U" "node_key (p_data M ! i) = node_key (p_data M ! j)"
    moreover from this obtain h h' where "i \<in> set (B h)" "h < HASH_TABLE_SIZE" "j \<in> set (B h')" "h' < HASH_TABLE_SIZE"
      by auto
    ultimately show "i = j"
      by (metis find_bucket_Some [OF l] option.inject)
  qed
  have U: "?U \<union> set F = {..<BUFFER_SIZE}" "distinct F" "?U \<inter> set F = {}"
    using l by (auto simp: layout_but_def)
  have "card ?U + card (set F) = BUFFER_SIZE"
    using card_Un_disjoint [of ?U "set F"] U by simp
  then show ?thesis
    using card_image [OF inj] distinct_card [OF U(2)] by (simp add: stored_dom [OF l])
qed

end
