(* ===== verification/Hash_Table.thy ===== *)
theory Hash_Table imports Node_Pool_Map begin

text \<open>
  The hash table of p5 (p5/HashTable.cpp): \<open>set\<close>, \<open>get\<close>, \<open>del\<close> on the nodes of the pool,
  and \<open>dump\<close>, which both tables have. An operation that loops over links yields an option,
  \<open>None\<close> when the loop does not end; its value is the outcome and the memory after the call.
\<close>

section \<open>Operations\<close>

definition ht_set :: "int32 \<Rightarrow> int32 \<Rightarrow> 'a node_mem \<Rightarrow> (hash_error, unit, 'a node_mem) outcome option" where
  "ht_set key value M = (case find_node M key of
      None \<Rightarrow> None
    | Some p_node \<Rightarrow>
       (if p_node \<noteq> None
        then Some (Inr (), M\<lparr>p_data := set_value p_node value (p_data M)\<rparr>)
        else (case get_node_free M of
            (Inl e, M1) \<Rightarrow> Some (Inl e, M1)
          | (Inr p_node, M1) \<Rightarrow>
              (let d1 = set_key p_node key (p_data M1);
                   d2 = set_value p_node value d1
               in Some (Inr (), link_front (get_hash key) p_node (M1\<lparr>p_data := d2\<rparr>))))))"

definition ht_get :: "int32 \<Rightarrow> 'a node_mem \<Rightarrow> (hash_error, int32, 'a node_mem) outcome option" where
  "ht_get key M = (case find_node M key of
      None \<Rightarrow> None
    | Some None \<Rightarrow> Some (Inl NoKey, M)
    | Some (Some i) \<Rightarrow> Some (Inr (node_value (p_data M ! i)), M))"

definition ht_del :: "int32 \<Rightarrow> 'a node_mem \<Rightarrow> (hash_error, unit, 'a node_mem) outcome option" where
  "ht_del key M = (case find_node M key of
      None \<Rightarrow> None
    | Some p_node \<Rightarrow> (if p_node \<noteq> None then Some (Inr (), set_node_free p_node M) else Some (Inl NoKey, M)))"

definition show_node :: "'a node_scheme \<Rightarrow> string" where
  "show_node n = ''('' @ show_int (sint (node_key n)) @ '' , '' @ show_int (sint (node_value n)) @ '')'' @ newline"

partial_function (option) dump_bucket ::
    "'a node_scheme list \<Rightarrow> node_ptr \<Rightarrow> string \<Rightarrow> nat \<Rightarrow> (string \<times> nat) option" where
  "dump_bucket d p out n_reserved = (case p of
      None \<Rightarrow> Some (out, n_reserved)
    | Some i \<Rightarrow> dump_bucket d (to_ptr (n_next (d ! i))) (out @ show_node (d ! i)) (Suc n_reserved))"

fun dump_buckets :: "'a node_scheme list \<Rightarrow> int list \<Rightarrow> string \<Rightarrow> nat \<Rightarrow> (string \<times> nat) option" where
  "dump_buckets d [] out n_reserved = Some (out, n_reserved)"
| "dump_buckets d (h # hs) out n_reserved = (case dump_bucket d (to_ptr h) out n_reserved of
      None \<Rightarrow> None
    | Some (out', n') \<Rightarrow> dump_buckets d hs out' n')"

partial_function (option) count_free :: "'a node_scheme list \<Rightarrow> node_ptr \<Rightarrow> nat \<Rightarrow> nat option" where
  "count_free d p n_free = (case p of
      None \<Rightarrow> Some n_free
    | Some i \<Rightarrow> count_free d (to_ptr (n_next (d ! i))) (Suc n_free))"

definition statistics :: "nat \<Rightarrow> nat \<Rightarrow> string" where
  "statistics n_reserved n_free = newline @ ''STATISTICS:'' @ newline
     @ ''Reserved: '' @ show_nat n_reserved @ newline @ ''Free: '' @ show_nat n_free @ newline
     @ ''------------------'' @ newline
     @ ''Total: '' @ show_nat (n_reserved + n_free) @ '' of '' @ show_nat BUFFER_SIZE @ newline"

definition ht_dump :: "'a node_mem \<Rightarrow> string option" where
  "ht_dump M = (case dump_buckets (p_data M) (take HASH_TABLE_SIZE (p_table M)) [] 0 of
      None \<Rightarrow> None
    | Some (out, n_reserved) \<Rightarrow> (case count_free (p_data M) (to_ptr (get_num_free_node M)) 0 of
        None \<Rightarrow> None
      | Some n_free \<Rightarrow> Some (out @ statistics n_reserved n_free)))"

section \<open>What set, get and del do\<close>

text \<open>\<open>HashTable::set\<close> on a new key, for any way \<open>f\<close> of filling the free node.\<close>

lemma insert_new:
  assumes l: "layout M B (f # F)" and new: "stored M k = None"
    and fill: "\<And>n. node_key (fill n) = k \<and> n_prev (fill n) = n_prev n \<and> n_next (fill n) = n_next n"
  defines "M1 \<equiv> M\<lparr>p_data := set_prev (to_ptr (head_num F (-1))) (-1) (p_data M),
                  p_table := (p_table M)[HASH_TABLE_SIZE := head_num F (-1)]\<rparr>"
  defines "M2 \<equiv> link_front (get_hash k) (Some f) (M1\<lparr>p_data := (p_data M1)[f := fill (p_data M1 ! f)]\<rparr>)"
  shows "layout M2 (B(get_hash k := f # B (get_hash k))) F"
    and "stored M2 = (stored M)(k \<mapsto> payload (fill (p_data M1 ! f)))"
proof -
  let ?h = "get_hash k" and ?n = "fill (p_data M1 ! f)"
  let ?M = "M1\<lparr>p_data := (p_data M1)[f := ?n]\<rparr>"
  have l1: "layout_but {f} ?M B F"
    using loose_layout [OF take_free_layout [OF l]] by (simp add: M1_def)
  have fB: "f < BUFFER_SIZE" using l by (auto simp: layout_but_def)
  have len: "length (p_data M1) = BUFFER_SIZE" using layout_lengths [OF l] by (simp add: M1_def)
  have n: "p_data ?M ! f = ?n" using fB len by simp
  have "f \<notin> set F" using layout_free [OF l] by simp
  then have "to_ptr (head_num F (-1)) \<noteq> Some f" by auto
  then have prev: "n_prev (p_data ?M ! f) = -1"
    using n fill layout_free [OF l] by (simp add: M1_def)
  have fh: "f \<notin> set (B ?h)" using layout_disjoint [OF l get_hash_less, of f k] by auto
  have none: "\<forall>j\<in>set (B ?h). node_key (p_data M ! j) \<noteq> k"
    using new find_node_NoneD [OF l] stored_None [OF l] by blast
  have nk: "node_key (p_data ?M ! j) \<noteq> node_key (p_data ?M ! f)" if "j \<in> set (B ?h)" for j
  proof -
    have "j \<noteq> f" using that fh by blast
    then have "node_key (p_data ?M ! j) = node_key (p_data M ! j)" by (simp add: M1_def)
    with none that n fill show ?thesis by auto
  qed
  have "get_hash (node_key (p_data ?M ! f)) = ?h" using n fill by simp
  note link = link_front_layout [OF l1 _ fB prev this nk]
  show l2: "layout M2 (B(?h := f # B ?h)) F" unfolding M2_def by (rule link(1)) auto
  have p: "payload (p_data M2 ! j) = payload (p_data ?M ! j)" for j
    unfolding M2_def by (rule link(2)) auto
  have "stored M2 = (stored M)(k \<mapsto> payload (p_data M2 ! f))"
  proof (rule insert_stored [OF l l2 refl _ new])
    show "node_key (p_data M2 ! f) = k" using payload_key [OF p] n fill by metis
    show "payload (p_data M2 ! j) = payload (p_data M ! j)" if "j \<noteq> f" for j
      using that by (simp add: p) (simp add: M1_def)
  qed
  then show "stored M2 = (stored M)(k \<mapsto> payload ?n)" using p n by simp
qed

lemma lookup_stored: "lookup M k = None \<longleftrightarrow> stored M k = None"
  by (simp add: lookup_def)

lemma lookup_upd: "stored M' = (stored M)(k \<mapsto> (k', v, e)) \<Longrightarrow> lookup M' = (lookup M)(k \<mapsto> v)"
  by (auto simp: lookup_def fun_eq_iff)

lemma lookup_del: "stored M' = (stored M)(k := None) \<Longrightarrow> lookup M' = (lookup M)(k := None)"
  by (auto simp: lookup_def fun_eq_iff)

lemma dom_lookup: "dom (lookup M) = dom (stored M)"
  by (auto simp: lookup_def)

lemma ht_set_present:
  assumes l: "layout M B F" and f: "find_node M k = Some (Some i)"
  shows "\<exists>M'. ht_set k v M = Some (Inr (), M') \<and> pool_inv M' \<and> lookup M' = (lookup M)(k \<mapsto> v)"
proof -
  let ?n = "(p_data M ! i)\<lparr>node_value := v\<rparr>"
  have "ht_set k v M = Some (Inr (), M\<lparr>p_data := (p_data M)[i := ?n]\<rparr>)"
    by (simp add: ht_set_def f set_value_def)
  moreover have "pool_inv (M\<lparr>p_data := (p_data M)[i := ?n]\<rparr>)"
    by (rule pool_invI, rule write_layout [OF l]) simp_all
  moreover have "lookup (M\<lparr>p_data := (p_data M)[i := ?n]\<rparr>) = (lookup M)(k \<mapsto> v)"
    by (rule lookup_upd [where k' = "node_key ?n" and e = "node.more ?n"])
      (use write_stored [OF l f, of ?n] in \<open>simp add: payload_def\<close>)
  ultimately show ?thesis by blast
qed

lemma ht_set_absent:
  assumes l: "layout M B (f # F)" and f: "find_node M k = Some None"
  shows "\<exists>M'. ht_set k v M = Some (Inr (), M') \<and> pool_inv M' \<and> lookup M' = (lookup M)(k \<mapsto> v)"
proof -
  let ?fill = "\<lambda>n. n\<lparr>node_key := k, node_value := v\<rparr>"
  let ?M1 = "M\<lparr>p_data := set_prev (to_ptr (head_num F (-1))) (-1) (p_data M),
               p_table := (p_table M)[HASH_TABLE_SIZE := head_num F (-1)]\<rparr>"
  let ?M2 = "link_front (get_hash k) (Some f) (?M1\<lparr>p_data := (p_data ?M1)[f := ?fill (p_data ?M1 ! f)]\<rparr>)"
  have "f < length (p_data ?M1)" using dls_length [of "p_data M" "-1" _ "f # F" "-1" f] layout_free [OF l] by simp
  then have eq: "ht_set k v M = Some (Inr (), ?M2)"
    by (simp add: ht_set_def f get_node_free_layout [OF l] set_key_def set_value_def Let_def)
  have new: "stored M k = None" using f stored_None [OF l] by blast
  note ins = insert_new [OF l new, of ?fill]
  have "layout ?M2 (B(get_hash k := f # B (get_hash k))) F" by (rule ins(1)) simp
  then have "pool_inv ?M2" by (rule pool_invI)
  moreover have "stored ?M2 = (stored M)(k \<mapsto> payload (?fill (p_data ?M1 ! f)))" by (rule ins(2)) simp
  then have "lookup ?M2 = (lookup M)(k \<mapsto> v)"
    by (intro lookup_upd [where k' = k and e = "node.more (p_data ?M1 ! f)"]) (simp add: payload_def)
  ultimately show ?thesis using eq by blast
qed

lemma ht_set_full:
  assumes l: "layout M B []" and f: "find_node M k = Some None"
  shows "ht_set k v M = Some (Inl NoMemory, M)"
  by (simp add: ht_set_def f get_node_free_layout [OF l])

text \<open>The table refines a map of at most 2048 keys.\<close>

lemma ht_set_spec:
  assumes "pool_inv M"
  shows "\<exists>M'. pool_inv M' \<and>
     (if lookup M k = None \<and> card (dom (lookup M)) = BUFFER_SIZE
      then ht_set k v M = Some (Inl NoMemory, M') \<and> M' = M
      else ht_set k v M = Some (Inr (), M') \<and> lookup M' = (lookup M)(k \<mapsto> v))"
proof -
  from assms obtain B F where l: "layout M B F" by (auto simp: pool_inv_def)
  obtain p where p: "find_node M k = Some p" using find_node_total [OF l] by blast
  note card = stored_card [OF l]
  show ?thesis
  proof (cases p)
    case (Some i)
    then have "lookup M k \<noteq> None"
      using stored_Some [OF l, of k i] p Some by (simp add: lookup_stored)
    with ht_set_present [OF l p [unfolded Some], of v] show ?thesis by auto
  next
    case None
    then have k: "lookup M k = None" using p stored_None [OF l] lookup_stored by blast
    show ?thesis
    proof (cases F)
      case Nil
      with k card ht_set_full [OF l [unfolded Nil] p [unfolded None]] assms show ?thesis
        by (auto simp: dom_lookup)
    next
      case (Cons f F')
      with card have "card (dom (lookup M)) \<noteq> BUFFER_SIZE" by (simp add: dom_lookup)
      with k ht_set_absent [OF l [unfolded Cons] p [unfolded None], of v] show ?thesis by auto
    qed
  qed
qed

lemma ht_get_spec:
  assumes "pool_inv M"
  shows "ht_get k M = Some (case lookup M k of None \<Rightarrow> Inl NoKey | Some v \<Rightarrow> Inr v, M)"
proof -
  from assms obtain B F where l: "layout M B F" by (auto simp: pool_inv_def)
  show ?thesis using find_node_total [OF l, of k]
    by (auto simp: ht_get_def lookup_def stored_def payload_def split: option.split)
qed

lemma ht_del_spec:
  assumes "pool_inv M"
  shows "\<exists>M'. pool_inv M' \<and> lookup M' = (lookup M)(k := None) \<and>
     ht_del k M = Some (if lookup M k = None then Inl NoKey else Inr (), M')"
proof -
  from assms obtain B F where l: "layout M B F" by (auto simp: pool_inv_def)
  obtain p where p: "find_node M k = Some p" using find_node_total [OF l] by blast
  show ?thesis
  proof (cases p)
    case None
    then have "lookup M k = None" using p stored_None [OF l] lookup_stored by blast
    with p None assms show ?thesis by (auto simp: ht_del_def fun_upd_idem)
  next
    case (Some i)
    then have "lookup M k \<noteq> None" using stored_Some [OF l, of k i] p Some by (simp add: lookup_stored)
    with p Some remove_stored [OF l p [unfolded Some]] lookup_del show ?thesis
      by (auto simp: ht_del_def)
  qed
qed

lemma lookup_init: "pool_inv (shared_memory_set M)" "lookup (shared_memory_set M) = (\<lambda>_. None)"
  using layout_init [of M] by (auto simp: pool_inv_def lookup_def stored_find [OF layout_init])

section \<open>dump\<close>

lemma dump_bucket_dls:
  "dls d p h xs (-1) \<Longrightarrow> dump_bucket d (to_ptr h) out n =
     Some (out @ concat (map (\<lambda>i. show_node (d ! i)) xs), n + length xs)"
proof (induction xs arbitrary: p h out n)
  case Nil
  then show ?case by (simp add: dump_bucket.simps)
next
  case (Cons x xs)
  then have "dls d (int x) (n_next (d ! x)) xs (-1)" "h = int x" by auto
  with Cons.IH show ?case by (subst dump_bucket.simps) simp
qed

lemma count_free_dls: "dls d p h xs (-1) \<Longrightarrow> count_free d (to_ptr h) n = Some (n + length xs)"
proof (induction xs arbitrary: p h n)
  case Nil
  then show ?case by (simp add: count_free.simps)
next
  case (Cons x xs)
  then have "dls d (int x) (n_next (d ! x)) xs (-1)" "h = int x" by auto
  with Cons.IH show ?case by (subst count_free.simps) simp
qed

lemma dump_buckets_dlls:
  "list_all2 (\<lambda>h xs. dll d h xs) hs xss \<Longrightarrow> dump_buckets d hs out n =
     Some (out @ concat (map (\<lambda>i. show_node (d ! i)) (concat xss)), n + length (concat xss))"
proof (induction arbitrary: out n rule: list_all2_induct)
  case (Cons h hs xs xss)
  then show ?case by (simp add: dump_bucket_dls)
qed simp

definition pair_of :: "'a node_scheme \<Rightarrow> int32 \<times> int32" where
  "pair_of n = (node_key n, node_value n)"

definition show_pair :: "int32 \<times> int32 \<Rightarrow> string" where
  "show_pair e = ''('' @ show_int (sint (fst e)) @ '' , '' @ show_int (sint (snd e)) @ '')'' @ newline"

text \<open>\<open>dump\<close> ends, prints every stored pair once, and the counts add up to the buffer.\<close>

lemma dump_spec:
  assumes "pool_inv M"
  shows "\<exists>es. distinct es \<and> set es = {(k, v). lookup M k = Some v} \<and> length es \<le> BUFFER_SIZE
     \<and> ht_dump M = Some (concat (map show_pair es) @ statistics (length es) (BUFFER_SIZE - length es))"
proof -
  from assms obtain B F where l: "layout M B F" by (auto simp: pool_inv_def)
  let ?is = "concat (map B [0..<HASH_TABLE_SIZE])"
  let ?es = "map (\<lambda>i. pair_of (p_data M ! i)) ?is"
  have U: "set ?is = (\<Union>h<HASH_TABLE_SIZE. set (B h))" by auto
  have "list_all2 (\<lambda>h xs. dll (p_data M) h xs) (take HASH_TABLE_SIZE (p_table M)) (map B [0..<HASH_TABLE_SIZE])"
    using layout_lengths [OF l] bucket_ok_dll [OF layout_bucket [OF l]]
    by (auto simp: list_all2_conv_all_nth)
  note buckets = dump_buckets_dlls [OF this, of "[]" 0]
  have "count_free (p_data M) (to_ptr (get_num_free_node M)) 0 = Some (length F)"
    using count_free_dls [of "p_data M" "-1" _ F 0] layout_free [OF l] by (simp add: get_num_free_node_def)
  moreover have "(\<lambda>i. show_node (p_data M ! i)) = (\<lambda>i. show_pair (pair_of (p_data M ! i)))"
    by (simp add: show_node_def show_pair_def pair_of_def)
  ultimately have dump: "ht_dump M = Some (concat (map show_pair ?es) @ statistics (length ?es) (length F))"
    using buckets by (simp add: ht_dump_def map_concat comp_def length_concat)
  have lk: "lookup M (node_key (p_data M ! i)) = Some (node_value (p_data M ! i))"
    if "i \<in> set (B h)" "h < HASH_TABLE_SIZE" for i h
    using stored_at [OF l that] by (simp add: lookup_def payload_def)
  have es: "set ?es = {(k, v). lookup M k = Some v}"
  proof (intro set_eqI iffI)
    fix e assume "e \<in> set ?es"
    then show "e \<in> {(k, v). lookup M k = Some v}" using lk by (auto simp: pair_of_def)
  next
    fix e assume "e \<in> {(k, v). lookup M k = Some v}"
    then obtain k v where e: "e = (k, v)" "lookup M k = Some v" by auto
    then have "k \<in> dom (stored M)" by (auto simp: lookup_def)
    then obtain i h where i: "i \<in> set (B h)" "h < HASH_TABLE_SIZE" "k = node_key (p_data M ! i)"
      by (auto simp: stored_dom [OF l])
    with lk e have "e = pair_of (p_data M ! i)" by (simp add: pair_of_def)
    moreover have "i \<in> set ?is" using i by auto
    ultimately show "e \<in> set ?es" by auto
  qed
  have "distinct (concat (map B [0..<n]))" if "n \<le> HASH_TABLE_SIZE" for n
    using that
  proof (induction n)
    case (Suc n)
    then have "x \<notin> set (B k)" if "k < n" "x \<in> set (B n)" for k x
      using layout_buckets_disjoint [OF l, of n x k] that by auto
    with Suc bucket_ok_distinct [OF layout_bucket [OF l, of n]] show ?case by auto
  qed simp
  then have "distinct ?is" by simp
  moreover have "inj_on (\<lambda>i. pair_of (p_data M ! i)) (set ?is)"
  proof (rule inj_onI)
    fix i j assume a: "i \<in> set ?is" "j \<in> set ?is" "pair_of (p_data M ! i) = pair_of (p_data M ! j)"
    then obtain h h' where "i \<in> set (B h)" "h < HASH_TABLE_SIZE" "j \<in> set (B h')" "h' < HASH_TABLE_SIZE"
      by auto
    then show "i = j" using a(3) unfolding pair_of_def
      by (metis find_bucket_Some [OF l] option.inject prod.inject)
  qed
  ultimately have d: "distinct ?es" unfolding distinct_map by blast
  have "card (dom (stored M)) = length ?es"
  proof -
    have "dom (stored M) = fst ` set ?es" unfolding es dom_lookup [symmetric] by force
    moreover have "inj_on fst (set ?es)" unfolding es by (auto simp: inj_on_def)
    ultimately show ?thesis by (simp only: card_image distinct_card [OF d])
  qed
  then have "length ?es + length F = BUFFER_SIZE" using stored_card [OF l] by simp
  then have "length F = BUFFER_SIZE - length ?es" "length ?es \<le> BUFFER_SIZE" by simp_all
  with dump es d show ?thesis by metis
qed

end
