(* ===== verification/Ttl_Table.thy ===== *)
theory Ttl_Table imports Hash_Table begin

text \<open>
  The hash table of p6 (p6/HashTable.cpp, p6/HashTable.h): nodes carry a time to live and the
  time of their death; \<open>get\<close> and \<open>del\<close> free an expired node and report it. Every call of
  \<open>time(NULL)\<close> is a parameter, in the order of the calls: \<open>get\<close> asks twice, once to test
  and once to extend the life. \<open>time_t\<close> has 64 bits, so adding an \<open>int\<close> to the clock does
  not overflow; times are integers. The cleaner process (\<open>HashTableCleaner\<close> of p6/main.cpp) is
  modelled with the time of its pass.
\<close>

section \<open>Nodes with a life time\<close>

record ttl_node = node +
  ttl :: int32
  t_death :: int

type_synonym ttl_mem = "ttl_node table_mem"

definition set_ttl :: "int \<Rightarrow> node_ptr \<Rightarrow> int32 \<Rightarrow> ttl_node list \<Rightarrow> ttl_node list" where
  "set_ttl now p x d = (case p of None \<Rightarrow> d
     | Some i \<Rightarrow> d[i := (d ! i)\<lparr>t_death := now + sint x, ttl := x\<rparr>])"

definition is_expired :: "int \<Rightarrow> ttl_node \<Rightarrow> bool" where
  "is_expired now n \<longleftrightarrow> t_death n < now"

section \<open>Operations\<close>

text \<open>What has the same text as in p5 is the same function, at the type of these nodes.\<close>

definition ttl_memory_set :: "ttl_mem \<Rightarrow> ttl_mem" where
  "ttl_memory_set = shared_memory_set"

definition ttl_find_node :: "ttl_mem \<Rightarrow> int32 \<Rightarrow> node_ptr option" where
  "ttl_find_node = find_node"

definition ttl_node_free :: "ttl_mem \<Rightarrow> (hash_error, node_ptr, ttl_mem) outcome" where
  "ttl_node_free = get_node_free"

definition ttl_set_node_free :: "node_ptr \<Rightarrow> ttl_mem \<Rightarrow> ttl_mem" where
  "ttl_set_node_free = set_node_free"

definition ttl_dump :: "ttl_mem \<Rightarrow> string option" where
  "ttl_dump = ht_dump"

lemmas [simp] = ttl_memory_set_def ttl_find_node_def ttl_node_free_def ttl_set_node_free_def ttl_dump_def

definition ttl_set :: "int \<Rightarrow> int32 \<Rightarrow> int32 \<Rightarrow> int32 \<Rightarrow> ttl_mem \<Rightarrow> (hash_error, unit, ttl_mem) outcome option" where
  "ttl_set now key life value M = (case ttl_find_node M key of
      None \<Rightarrow> None
    | Some p_node \<Rightarrow>
       (if p_node \<noteq> None
        then Some (Inr (), M\<lparr>p_data := set_ttl now p_node life (set_value p_node value (p_data M))\<rparr>)
        else (case ttl_node_free M of
            (Inl e, M1) \<Rightarrow> Some (Inl e, M1)
          | (Inr p_node, M1) \<Rightarrow>
              (let d1 = set_key p_node key (p_data M1);
                   d2 = set_value p_node value d1;
                   d3 = set_ttl now p_node life d2
               in Some (Inr (), link_front (get_hash key) p_node (M1\<lparr>p_data := d3\<rparr>))))))"

definition ttl_get :: "int \<Rightarrow> int \<Rightarrow> int32 \<Rightarrow> ttl_mem \<Rightarrow> (hash_error, int32, ttl_mem) outcome option" where
  "ttl_get t0 t1 key M = (case ttl_find_node M key of
      None \<Rightarrow> None
    | Some None \<Rightarrow> Some (Inl NoKey, M)
    | Some (Some i) \<Rightarrow>
       (if \<not> is_expired t0 (p_data M ! i)
        then (let M1 = M\<lparr>p_data := set_ttl t1 (Some i) (ttl (p_data M ! i)) (p_data M)\<rparr>
              in Some (Inr (node_value (p_data M1 ! i)), M1))
        else Some (Inl NotExists, ttl_set_node_free (Some i) M)))"

definition ttl_del :: "int \<Rightarrow> int32 \<Rightarrow> ttl_mem \<Rightarrow> (hash_error, unit, ttl_mem) outcome option" where
  "ttl_del now key M = (case ttl_find_node M key of
      None \<Rightarrow> None
    | Some None \<Rightarrow> Some (Inl NoKey, M)
    | Some (Some i) \<Rightarrow>
       (if \<not> is_expired now (p_data M ! i) then Some (Inr (), ttl_set_node_free (Some i) M)
        else Some (Inl NotExists, ttl_set_node_free (Some i) M)))"

section \<open>The map with life times\<close>

text \<open>What the table holds for a key: value, time to live, time of death.\<close>

definition view :: "ttl_mem \<Rightarrow> int32 \<Rightarrow> (int32 \<times> int32 \<times> int) option" where
  "view M k = (case find_node M k of
      Some (Some i) \<Rightarrow> Some (node_value (p_data M ! i), ttl (p_data M ! i), t_death (p_data M ! i))
    | _ \<Rightarrow> None)"

definition entry_of :: "int32 \<times> int32 \<times> unit ttl_node_ext \<Rightarrow> int32 \<times> int32 \<times> int" where
  "entry_of p = (case p of (k, v, e) \<Rightarrow>
     let n = \<lparr>node_key = k, node_value = v, n_prev = 0, n_next = 0, \<dots> = e\<rparr> in (v, ttl n, t_death n))"

lemma entry_of_payload [simp]: "entry_of (payload n) = (node_value n, ttl n, t_death n)"
  by (cases n) (simp add: entry_of_def payload_def)

lemma view_stored: "view M k = map_option entry_of (stored M k)"
  by (auto simp: view_def stored_def split: option.split)

lemma view_upd: "stored M' = (stored M)(k \<mapsto> p) \<Longrightarrow> view M' = (view M)(k \<mapsto> entry_of p)"
  by (auto simp: view_stored fun_eq_iff)

lemma view_rem: "stored M' = (stored M)(k := None) \<Longrightarrow> view M' = (view M)(k := None)"
  by (auto simp: view_stored fun_eq_iff)

lemma dom_view: "dom (view M) = dom (stored M)"
  by (auto simp: view_stored)

lemma view_None: "layout M B F \<Longrightarrow> view M k = None \<longleftrightarrow> find_node M k = Some None"
  by (simp add: view_stored stored_None)

lemma view_Some:
  assumes "layout M B F" "view M k = Some (v, life, d)"
  obtains i where "find_node M k = Some (Some i)" "i < BUFFER_SIZE" "node_value (p_data M ! i) = v"
    "ttl (p_data M ! i) = life" "t_death (p_data M ! i) = d"
  using assms find_node_SomeD [OF assms(1)] by (auto simp: view_def split: option.splits)

section \<open>The operations refine the map\<close>

lemma ttl_set_present:
  assumes l: "layout M B F" and v: "view M k = Some e"
  shows "\<exists>M'. ttl_set now k life x M = Some (Inr (), M') \<and> pool_inv M'
     \<and> view M' = (view M)(k \<mapsto> (x, life, now + sint life))"
proof -
  obtain i where f: "find_node M k = Some (Some i)" and i: "i < BUFFER_SIZE"
    using v find_node_SomeD [OF l] by (auto simp: view_def split: option.splits)
  let ?n = "(p_data M ! i)\<lparr>node_value := x, t_death := now + sint life, ttl := life\<rparr>"
  let ?M = "M\<lparr>p_data := (p_data M)[i := ?n]\<rparr>"
  have "ttl_set now k life x M = Some (Inr (), ?M)"
    using i layout_lengths [OF l] by (simp add: ttl_set_def f set_value_def set_ttl_def)
  moreover have "pool_inv ?M" by (rule pool_invI, rule write_layout [OF l]) simp_all
  moreover have "view ?M = (view M)(k \<mapsto> entry_of (payload ?n))"
    by (rule view_upd, rule write_stored [OF l f]) simp_all
  then have "view ?M = (view M)(k \<mapsto> (x, life, now + sint life))" by simp
  ultimately show ?thesis by blast
qed

lemma ttl_set_absent:
  assumes l: "layout M B (f # F)" and v: "view M k = None"
  shows "\<exists>M'. ttl_set now k life x M = Some (Inr (), M') \<and> pool_inv M'
     \<and> view M' = (view M)(k \<mapsto> (x, life, now + sint life))"
proof -
  let ?fill = "\<lambda>n. n\<lparr>node_key := k, node_value := x, t_death := now + sint life, ttl := life\<rparr>"
  let ?M1 = "M\<lparr>p_data := set_prev (to_ptr (head_num F (-1))) (-1) (p_data M),
               p_table := (p_table M)[HASH_TABLE_SIZE := head_num F (-1)]\<rparr>"
  let ?M2 = "link_front (get_hash k) (Some f) (?M1\<lparr>p_data := (p_data ?M1)[f := ?fill (p_data ?M1 ! f)]\<rparr>)"
  have fl: "find_node M k = Some None" using v view_None [OF l] by simp
  have "f < length (p_data ?M1)" using dls_length [of "p_data M" "-1" _ "f # F" "-1" f] layout_free [OF l] by simp
  then have eq: "ttl_set now k life x M = Some (Inr (), ?M2)"
    by (simp add: ttl_set_def fl get_node_free_layout [OF l] set_key_def set_value_def set_ttl_def Let_def)
  have new: "stored M k = None" using fl stored_None [OF l] by blast
  note ins = insert_new [OF l new, of ?fill]
  have "layout ?M2 (B(get_hash k := f # B (get_hash k))) F" by (rule ins(1)) simp
  then have "pool_inv ?M2" by (rule pool_invI)
  moreover have "stored ?M2 = (stored M)(k \<mapsto> payload (?fill (p_data ?M1 ! f)))" by (rule ins(2)) simp
  then have "view ?M2 = (view M)(k \<mapsto> (x, life, now + sint life))"
    by (simp add: view_upd)
  ultimately show ?thesis using eq by blast
qed

lemma ttl_set_spec:
  assumes "pool_inv M"
  shows "\<exists>M'. pool_inv M' \<and>
     (if view M k = None \<and> card (dom (view M)) = BUFFER_SIZE
      then ttl_set now k life v M = Some (Inl NoMemory, M') \<and> M' = M
      else ttl_set now k life v M = Some (Inr (), M') \<and> view M' = (view M)(k \<mapsto> (v, life, now + sint life)))"
proof -
  from assms obtain B F where l: "layout M B F" by (auto simp: pool_inv_def)
  note card = stored_card [OF l]
  show ?thesis
  proof (cases "view M k")
    case (Some e)
    with ttl_set_present [OF l Some, of now life v] show ?thesis by auto
  next
    case None
    then have fl: "find_node M k = Some None" using view_None [OF l] by simp
    show ?thesis
    proof (cases F)
      case Nil
      then have "ttl_set now k life v M = Some (Inl NoMemory, M)"
        by (simp add: ttl_set_def fl get_node_free_layout [OF l])
      with Nil card assms None show ?thesis by (auto simp: dom_view)
    next
      case (Cons f F')
      with card have "card (dom (view M)) \<noteq> BUFFER_SIZE" by (simp add: dom_view)
      with None ttl_set_absent [OF l [unfolded Cons] None, of now life v] show ?thesis by auto
    qed
  qed
qed

lemma ttl_get_spec:
  assumes "pool_inv M"
  shows "\<exists>M'. pool_inv M' \<and> (case view M k of
      None \<Rightarrow> ttl_get t0 t1 k M = Some (Inl NoKey, M') \<and> M' = M
    | Some (v, life, d) \<Rightarrow>
        if d < t0 then ttl_get t0 t1 k M = Some (Inl NotExists, M') \<and> view M' = (view M)(k := None)
        else ttl_get t0 t1 k M = Some (Inr v, M') \<and> view M' = (view M)(k \<mapsto> (v, life, t1 + sint life)))"
proof -
  from assms obtain B F where l: "layout M B F" by (auto simp: pool_inv_def)
  show ?thesis
  proof (cases "view M k")
    case None
    then have "find_node M k = Some None" using view_None [OF l] by simp
    with None assms show ?thesis by (auto simp: ttl_get_def)
  next
    case (Some e)
    obtain v life d where e: "e = (v, life, d)" by (cases e)
    obtain i where f: "find_node M k = Some (Some i)" and i: "i < BUFFER_SIZE"
      and n: "node_value (p_data M ! i) = v" "ttl (p_data M ! i) = life" "t_death (p_data M ! i) = d"
      using view_Some [OF l Some [unfolded e]] by metis
    let ?n = "(p_data M ! i)\<lparr>t_death := t1 + sint life, ttl := life\<rparr>"
    let ?M = "M\<lparr>p_data := (p_data M)[i := ?n]\<rparr>"
    show ?thesis
    proof (cases "d < t0")
      case True
      with f n have "ttl_get t0 t1 k M = Some (Inl NotExists, set_node_free (Some i) M)"
        by (simp add: ttl_get_def is_expired_def)
      with remove_stored [OF l f] view_rem True show ?thesis by (auto simp: Some e)
    next
      case False
      with f n i layout_lengths [OF l] have "ttl_get t0 t1 k M = Some (Inr v, ?M)"
        by (simp add: ttl_get_def is_expired_def set_ttl_def Let_def)
      moreover have "pool_inv ?M" by (rule pool_invI, rule write_layout [OF l]) simp_all
      moreover have "view ?M = (view M)(k \<mapsto> entry_of (payload ?n))"
        by (rule view_upd, rule write_stored [OF l f]) simp_all
      then have "view ?M = (view M)(k \<mapsto> (v, life, t1 + sint life))" by (simp add: n)
      ultimately show ?thesis using False by (auto simp: Some e)
    qed
  qed
qed

lemma ttl_del_spec:
  assumes "pool_inv M"
  shows "\<exists>M'. pool_inv M' \<and> view M' = (view M)(k := None) \<and>
     ttl_del now k M = Some (case view M k of None \<Rightarrow> Inl NoKey
       | Some (v, life, d) \<Rightarrow> if d < now then Inl NotExists else Inr (), M')"
proof -
  from assms obtain B F where l: "layout M B F" by (auto simp: pool_inv_def)
  show ?thesis
  proof (cases "view M k")
    case None
    then have "find_node M k = Some None" using view_None [OF l] by simp
    with None assms show ?thesis by (auto simp: ttl_del_def fun_upd_idem)
  next
    case (Some e)
    obtain v life d where e: "e = (v, life, d)" by (cases e)
    obtain i where f: "find_node M k = Some (Some i)" and n: "t_death (p_data M ! i) = d"
      using view_Some [OF l Some [unfolded e]] by metis
    have "ttl_del now k M = Some (if d < now then Inl NotExists else Inr (), set_node_free (Some i) M)"
      by (simp add: ttl_del_def f is_expired_def n)
    with remove_stored [OF l f] view_rem show ?thesis by (auto simp: Some e)
  qed
qed

section \<open>The cleaner\<close>

text \<open>One bucket: the next node is read before the current one is freed.\<close>

partial_function (option) clean_bucket :: "int \<Rightarrow> node_ptr \<Rightarrow> ttl_mem \<Rightarrow> ttl_mem option" where
  "clean_bucket now p_node M = (case p_node of
      None \<Rightarrow> Some M
    | Some i \<Rightarrow> (let p_next = to_ptr (n_next (p_data M ! i));
          M1 = (if is_expired now (p_data M ! i) then set_node_free (Some i) M else M)
        in clean_bucket now p_next M1))"

text \<open>The inner loop over the buckets of section \<open>j\<close>: its index is kept across sections.\<close>

function clean_section :: "int \<Rightarrow> nat \<Rightarrow> nat \<Rightarrow> ttl_mem \<Rightarrow> (nat \<times> ttl_mem) option" where
  "clean_section now j i M =
     (if i div NUM_SECTIONS = j \<and> i < NUM_SECTIONS
      then (case clean_bucket now (to_ptr (p_table M ! i)) M of
          None \<Rightarrow> None
        | Some M1 \<Rightarrow> clean_section now j (Suc i) M1)
      else Some (i, M))"
  by pat_completeness auto
termination
  by (relation "measure (\<lambda>(now, j, i, M). NUM_SECTIONS - i)") auto

declare clean_section.simps [simp del]

fun clean_sections :: "int \<Rightarrow> nat list \<Rightarrow> nat \<Rightarrow> ttl_mem \<Rightarrow> ttl_mem option" where
  "clean_sections now [] i M = Some M"
| "clean_sections now (j # js) i M = (case clean_section now j i M of
      None \<Rightarrow> None
    | Some (i', M') \<Rightarrow> clean_sections now js i' M')"

definition clean :: "int \<Rightarrow> ttl_mem \<Rightarrow> ttl_mem option" where
  "clean now M = clean_sections now [0..<NUM_SECTIONS] 0 M"

lemma payload_death: "payload (n :: ttl_node) = payload n' \<Longrightarrow> t_death n = t_death n'"
  using entry_of_payload [of n] entry_of_payload [of n'] by simp

lemma view_iff:
  assumes l: "layout M B F"
  shows "view M k = Some e \<longleftrightarrow> (\<exists>i\<in>set (B (get_hash k)). node_key (p_data M ! i) = k \<and> entry_of (payload (p_data M ! i)) = e)"
proof
  assume "view M k = Some e"
  then obtain i where "find_node M k = Some (Some i)" "entry_of (payload (p_data M ! i)) = e"
    by (auto simp: view_def split: option.splits)
  then show "\<exists>i\<in>set (B (get_hash k)). node_key (p_data M ! i) = k \<and> entry_of (payload (p_data M ! i)) = e"
    using find_node_SomeD [OF l] by blast
next
  assume "\<exists>i\<in>set (B (get_hash k)). node_key (p_data M ! i) = k \<and> entry_of (payload (p_data M ! i)) = e"
  then obtain i where i: "i \<in> set (B (get_hash k))" "node_key (p_data M ! i) = k"
    "entry_of (payload (p_data M ! i)) = e" by blast
  then have "stored M k = Some (payload (p_data M ! i))" using stored_at [OF l i(1) get_hash_less] by simp
  with i(3) show "view M k = Some e" by (simp add: view_stored)
qed

lemma clean_bucket_layout:
  assumes "layout M B F" "h < HASH_TABLE_SIZE" "B h = ys @ zs"
  shows "\<exists>M' F'. clean_bucket now (to_ptr (head_num zs (-1))) M = Some M'
     \<and> layout M' (B(h := ys @ filter (\<lambda>i. \<not> is_expired now (p_data M ! i)) zs)) F'
     \<and> (\<forall>j. payload (p_data M' ! j) = payload (p_data M ! j))"
  using assms
proof (induction zs arbitrary: M B F ys)
  case Nil
  then show ?case by (auto simp: clean_bucket.simps fun_upd_idem)
next
  case (Cons z zs)
  have "dls (p_data M) (int z) (n_next (p_data M ! z)) zs (-1)"
    using bucket_ok_dll [OF layout_bucket [OF Cons.prems(1,2)]] Cons.prems(3) by (simp add: dls_append)
  then have n: "n_next (p_data M ! z) = head_num zs (-1)" by (rule dls_head)
  show ?case
  proof (cases "is_expired now (p_data M ! z)")
    case True
    let ?M = "set_node_free (Some z) M"
    note free = set_node_free_layout [OF Cons.prems]
    have e: "is_expired now (p_data ?M ! j) = is_expired now (p_data M ! j)" for j
      using payload_death [OF free(2)] by (simp add: is_expired_def)
    obtain M' F' where "clean_bucket now (to_ptr (head_num zs (-1))) ?M = Some M'"
      "layout M' ((B(h := ys @ zs))(h := ys @ filter (\<lambda>i. \<not> is_expired now (p_data ?M ! i)) zs)) F'"
      "\<forall>j. payload (p_data M' ! j) = payload (p_data ?M ! j)"
      using Cons.IH [OF free(1) Cons.prems(2), of ys] unfolding fun_upd_same by blast
    then show ?thesis using True by (subst clean_bucket.simps) (auto simp: n e free(2) Let_def)
  next
    case False
    obtain M' F' where "clean_bucket now (to_ptr (head_num zs (-1))) M = Some M'"
      "layout M' (B(h := (ys @ [z]) @ filter (\<lambda>i. \<not> is_expired now (p_data M ! i)) zs)) F'"
      "\<forall>j. payload (p_data M' ! j) = payload (p_data M ! j)"
      using Cons.IH [OF Cons.prems(1,2), of "ys @ [z]"] Cons.prems(3) unfolding append_assoc append_Cons append_Nil
      by blast
    then show ?thesis using False by (subst clean_bucket.simps) (auto simp: n Let_def)
  qed
qed

text \<open>What is left in a map from which the expired keys of some buckets are removed.\<close>

definition purge :: "int \<Rightarrow> (nat \<Rightarrow> bool) \<Rightarrow> (int32 \<Rightarrow> (int32 \<times> int32 \<times> int) option) \<Rightarrow> int32 \<Rightarrow> (int32 \<times> int32 \<times> int) option" where
  "purge now P m k = (case m k of None \<Rightarrow> None
     | Some (v, life, d) \<Rightarrow> if P (get_hash k) \<and> d < now then None else Some (v, life, d))"

lemma purge_purge: "purge now P (purge now Q m) = purge now (\<lambda>h. P h \<or> Q h) m"
  by (auto simp: purge_def fun_eq_iff split: option.split)

lemma clean_bucket_view:
  assumes l: "layout M B F" and h: "h < HASH_TABLE_SIZE"
  shows "\<exists>M'. clean_bucket now (to_ptr (p_table M ! h)) M = Some M' \<and> pool_inv M'
     \<and> view M' = purge now (\<lambda>h'. h' = h) (view M)"
proof -
  let ?alive = "\<lambda>i. \<not> is_expired now (p_data M ! i)"
  from clean_bucket_layout [OF l h, of "[]" "B h" now] layout_head [OF l h] obtain M' F' where
    c: "clean_bucket now (to_ptr (p_table M ! h)) M = Some M'"
    and l': "layout M' (B(h := filter ?alive (B h))) F'"
    and p: "\<And>j. payload (p_data M' ! j) = payload (p_data M ! j)"
    by auto
  have key: "node_key (p_data M' ! j) = node_key (p_data M ! j)" for j using payload_key [OF p] .
  have "view M' k = Some e \<longleftrightarrow> purge now (\<lambda>h'. h' = h) (view M) k = Some e" for k e
  proof -
    obtain v life d where e: "e = (v, life, d)" by (cases e)
    have "view M' k = Some e \<longleftrightarrow> (\<exists>i\<in>set (B (get_hash k)). (get_hash k = h \<longrightarrow> ?alive i)
        \<and> node_key (p_data M ! i) = k \<and> entry_of (payload (p_data M ! i)) = e)"
      by (auto simp only: view_iff [OF l'] key p fun_upd_apply set_filter split: if_splits)
    also have "\<dots> \<longleftrightarrow> view M k = Some e \<and> \<not> (get_hash k = h \<and> d < now)"
      by (auto simp: view_iff [OF l] is_expired_def e)
    also have "\<dots> \<longleftrightarrow> purge now (\<lambda>h'. h' = h) (view M) k = Some e"
      by (auto simp: purge_def e split: option.splits)
    finally show ?thesis .
  qed
  then have "view M' = purge now (\<lambda>h'. h' = h) (view M)" by (intro ext option.expand) (metis not_None_eq)+
  with c l' show ?thesis by (auto intro: pool_invI)
qed

lemma clean_section_view:
  assumes "pool_inv M" "i \<le> NUM_SECTIONS"
  shows "\<exists>M'. clean_section now 0 i M = Some (NUM_SECTIONS, M') \<and> pool_inv M'
     \<and> view M' = purge now (\<lambda>h. i \<le> h \<and> h < NUM_SECTIONS) (view M)"
  using assms
proof (induction "NUM_SECTIONS - i" arbitrary: i M)
  case 0
  then show ?case by (subst clean_section.simps) (auto simp: purge_def fun_eq_iff split: option.split)
next
  case (Suc n)
  then have i: "i < NUM_SECTIONS" by simp
  from Suc.prems obtain B F where "layout M B F" by (auto simp: pool_inv_def)
  from clean_bucket_view [OF this, of i now] i obtain M1 where
    m: "clean_bucket now (to_ptr (p_table M ! i)) M = Some M1" "pool_inv M1"
      "view M1 = purge now (\<lambda>h. h = i) (view M)"
    by (auto simp: NUM_SECTIONS_def HASH_TABLE_SIZE_def)
  have "n = NUM_SECTIONS - Suc i" using Suc.hyps(2) by simp
  from Suc.hyps(1) [OF this m(2)] i obtain M' where
    M': "clean_section now 0 (Suc i) M1 = Some (NUM_SECTIONS, M')" "pool_inv M'"
      "view M' = purge now (\<lambda>h. Suc i \<le> h \<and> h < NUM_SECTIONS) (view M1)"
    by auto
  have "(\<lambda>h. (Suc i \<le> h \<and> h < NUM_SECTIONS) \<or> h = i) = (\<lambda>h. i \<le> h \<and> h < NUM_SECTIONS)"
    using i by auto
  with M' m i show ?case by (subst clean_section.simps) (simp add: purge_purge)
qed

lemma clean_sections_rest: "0 \<notin> set js \<Longrightarrow> clean_sections now js NUM_SECTIONS M = Some M"
  by (induction js) (simp_all add: clean_section.simps)

lemma clean_view:
  assumes "pool_inv M"
  shows "\<exists>M'. clean now M = Some M' \<and> pool_inv M' \<and> view M' = purge now (\<lambda>h. h < 8) (view M)"
proof -
  obtain M' where "clean_section now 0 0 M = Some (NUM_SECTIONS, M')" "pool_inv M'"
    "view M' = purge now (\<lambda>h. 0 \<le> h \<and> h < NUM_SECTIONS) (view M)"
    using clean_section_view [OF assms, of 0 now] by auto
  moreover have "[0..<NUM_SECTIONS] = 0 # [1..<NUM_SECTIONS]" by (simp add: NUM_SECTIONS_def upt_conv_Cons)
  moreover have "clean_sections now [1..<NUM_SECTIONS] NUM_SECTIONS M' = Some M'"
    by (rule clean_sections_rest) simp
  ultimately show ?thesis by (simp add: clean_def) (simp add: NUM_SECTIONS_def)
qed

end
