(* ===== verification/Kv_Interface.thy ===== *)
theory Kv_Interface imports Ttl_Table begin

text \<open>
  What a worker relies on when it calls a table, as a locale: a map that \<open>put\<close>, \<open>fetch\<close>
  and \<open>remove\<close> implement, every operation returning. The two tables are its providers: the
  one of p5, and the one of p6 at each fixed time. The lemmas of the locale are about runs of
  requests: they agree with a map machine that only knows the replies.
\<close>

section \<open>Requests and replies\<close>

datatype ('k, 'v) request = Put 'k 'v | Fetch 'k | Remove 'k

datatype ('e, 'v) reply = Done | Value 'v | Failed 'e

fun request_key :: "('k, 'v) request \<Rightarrow> 'k" where
  "request_key (Put k v) = k"
| "request_key (Fetch k) = k"
| "request_key (Remove k) = k"

text \<open>
  The replies a map allows: a put may fail (no memory), a fetch or a removal fails exactly
  when the key is absent. \<open>eff\<close> is what a put makes visible of its argument: all of it in
  p5, the value in p6, and nothing when its time to live is over at once.
\<close>

fun allowed :: "('a \<Rightarrow> 'v option) \<Rightarrow> ('k \<Rightarrow> 'v option) \<Rightarrow> ('k, 'a) request list \<Rightarrow> ('e, 'v) reply list \<Rightarrow> bool" where
  "allowed eff m [] [] \<longleftrightarrow> True"
| "allowed eff m (Put k a # qs) (Done # rs) \<longleftrightarrow> allowed eff (m(k := eff a)) qs rs"
| "allowed eff m (Put k a # qs) (Failed e # rs) \<longleftrightarrow> allowed eff m qs rs"
| "allowed eff m (Fetch k # qs) (Value v # rs) \<longleftrightarrow> m k = Some v \<and> allowed eff m qs rs"
| "allowed eff m (Fetch k # qs) (Failed e # rs) \<longleftrightarrow> m k = None \<and> allowed eff m qs rs"
| "allowed eff m (Remove k # qs) (Done # rs) \<longleftrightarrow> m k \<noteq> None \<and> allowed eff (m(k := None)) qs rs"
| "allowed eff m (Remove k # qs) (Failed e # rs) \<longleftrightarrow> m k = None \<and> allowed eff m qs rs"
| "allowed eff m _ _ \<longleftrightarrow> False"

section \<open>The interface\<close>

locale kv_store =
  fixes inv :: "'s \<Rightarrow> bool"
    and look :: "'s \<Rightarrow> 'k \<Rightarrow> 'v option"
    and eff :: "'a \<Rightarrow> 'v option"
    and put :: "'k \<Rightarrow> 'a \<Rightarrow> 's \<Rightarrow> ('e, unit, 's) outcome option"
    and fetch :: "'k \<Rightarrow> 's \<Rightarrow> ('e, 'v, 's) outcome option"
    and remove :: "'k \<Rightarrow> 's \<Rightarrow> ('e, unit, 's) outcome option"
  assumes put_law: "inv s \<Longrightarrow> \<exists>r s'. put k a s = Some (r, s') \<and> inv s'
      \<and> (case r of Inl _ \<Rightarrow> look s' = look s | Inr _ \<Rightarrow> look s' = (look s)(k := eff a))"
    and fetch_law: "inv t \<Longrightarrow> \<exists>r t'. fetch k t = Some (r, t') \<and> inv t' \<and> look t' = look t
      \<and> (case r of Inl _ \<Rightarrow> look t k = None | Inr v \<Rightarrow> look t k = Some v)"
    and remove_law: "inv u \<Longrightarrow> \<exists>r u'. remove k u = Some (r, u') \<and> inv u'
      \<and> (case r of Inl _ \<Rightarrow> look u k = None \<and> look u' = look u
         | Inr _ \<Rightarrow> look u k \<noteq> None \<and> look u' = (look u)(k := None))"
begin

definition serve :: "('k, 'a) request \<Rightarrow> 's \<Rightarrow> (('e, 'v) reply \<times> 's) option" where
  "serve q s = (case q of
      Put k a \<Rightarrow> map_option (\<lambda>(r, s'). (case r of Inl e \<Rightarrow> Failed e | Inr _ \<Rightarrow> Done, s')) (put k a s)
    | Fetch k \<Rightarrow> map_option (\<lambda>(r, s'). (case r of Inl e \<Rightarrow> Failed e | Inr v \<Rightarrow> Value v, s')) (fetch k s)
    | Remove k \<Rightarrow> map_option (\<lambda>(r, s'). (case r of Inl e \<Rightarrow> Failed e | Inr _ \<Rightarrow> Done, s')) (remove k s))"

fun serve_all :: "('k, 'a) request list \<Rightarrow> 's \<Rightarrow> (('e, 'v) reply list \<times> 's) option" where
  "serve_all [] s = Some ([], s)"
| "serve_all (q # qs) s = (case serve q s of None \<Rightarrow> None
     | Some (r, s') \<Rightarrow> map_option (\<lambda>(rs, s''). (r # rs, s'')) (serve_all qs s'))"

lemma serve_cases:
  assumes "inv s"
  obtains r s' where "serve q s = Some (r, s')" "inv s'"
    "\<And>qs rs. allowed eff (look s') qs rs \<Longrightarrow> allowed eff (look s) (q # qs) (r # rs)"
    "\<And>k. k \<noteq> request_key q \<Longrightarrow> look s' k = look s k"
proof (cases q)
  case (Put k a)
  obtain r s' where "put k a s = Some (r, s')" "inv s'"
    "(case r of Inl _ \<Rightarrow> look s' = look s | Inr _ \<Rightarrow> look s' = (look s)(k := eff a))"
    using put_law [OF assms, of k a] by blast
  with Put that show ?thesis by (cases r) (auto simp: serve_def)
next
  case (Fetch k)
  obtain r s' where "fetch k s = Some (r, s')" "inv s'"
    "look s' = look s \<and> (case r of Inl _ \<Rightarrow> look s k = None | Inr v \<Rightarrow> look s k = Some v)"
    using fetch_law [OF assms, of k] by blast
  with Fetch that show ?thesis by (cases r) (auto simp: serve_def)
next
  case (Remove k)
  obtain r s' where "remove k s = Some (r, s')" "inv s'"
    "(case r of Inl _ \<Rightarrow> look s k = None \<and> look s' = look s
         | Inr _ \<Rightarrow> look s k \<noteq> None \<and> look s' = (look s)(k := None))"
    using remove_law [OF assms, of k] by blast
  with Remove that show ?thesis by (cases r) (auto simp: serve_def)
qed

text \<open>A run of requests ends, and its replies are those of the map.\<close>

lemma serve_all_allowed:
  "inv s \<Longrightarrow> \<exists>rs s'. serve_all qs s = Some (rs, s') \<and> inv s' \<and> allowed eff (look s) qs rs"
proof (induction qs arbitrary: s)
  case (Cons q qs)
  obtain r s' where q: "serve q s = Some (r, s')" "inv s'"
    "\<And>qs rs. allowed eff (look s') qs rs \<Longrightarrow> allowed eff (look s) (q # qs) (r # rs)"
    using serve_cases [OF Cons.prems] by metis
  from Cons.IH [OF q(2)] q show ?case by auto
qed auto

text \<open>Requests for other keys leave a key alone.\<close>

lemma serve_all_other:
  "inv s \<Longrightarrow> serve_all qs s = Some (rs, s') \<Longrightarrow> k \<notin> request_key ` set qs \<Longrightarrow> inv s' \<and> look s' k = look s k"
proof (induction qs arbitrary: s rs)
  case (Cons q qs)
  obtain r t where q: "serve q s = Some (r, t)" "inv t" "\<And>k. k \<noteq> request_key q \<Longrightarrow> look t k = look s k"
    using serve_cases [OF Cons.prems(1)] by metis
  with Cons.prems obtain rs' where "serve_all qs t = Some (rs', s')" by auto
  with Cons.IH [OF q(2)] q(3) Cons.prems(3) show ?case by auto
qed simp

text \<open>What was put is what is fetched, whatever happens to other keys in between.\<close>

lemma put_then_fetch:
  assumes "inv s" "put k a s = Some (Inr (), t)" "eff a = Some v" "serve_all qs t = Some (rs, t')"
    "k \<notin> request_key ` set qs"
  shows "\<exists>t''. fetch k t' = Some (Inr v, t'')"
proof -
  have t: "inv t" "look t k = Some v" using put_law [OF assms(1), of k a] assms(2,3) by auto
  with serve_all_other [OF t(1) assms(4,5)] have "inv t'" "look t' k = Some v" by auto
  then obtain r t'' where "fetch k t' = Some (r, t'')" "case r of Inl _ \<Rightarrow> False | Inr w \<Rightarrow> w = v"
    using fetch_law [of t' k] by (fastforce split: sum.splits)
  then show ?thesis by (cases r) auto
qed

end

section \<open>The two tables are stores\<close>

interpretation ht: kv_store pool_inv lookup Some ht_set ht_get ht_del
proof
  fix k v and s :: "'a node_mem" assume "pool_inv s"
  from ht_set_spec [OF this, of k v] show "\<exists>r s'. ht_set k v s = Some (r, s') \<and> pool_inv s'
      \<and> (case r of Inl _ \<Rightarrow> lookup s' = lookup s | Inr _ \<Rightarrow> lookup s' = (lookup s)(k \<mapsto> v))"
    by (auto split: if_splits)
next
  fix k and s :: "'a node_mem" assume "pool_inv s"
  then show "\<exists>r s'. ht_get k s = Some (r, s') \<and> pool_inv s' \<and> lookup s' = lookup s
      \<and> (case r of Inl _ \<Rightarrow> lookup s k = None | Inr v \<Rightarrow> lookup s k = Some v)"
    by (auto simp: ht_get_spec split: option.split)
next
  fix k and s :: "'a node_mem" assume "pool_inv s"
  from ht_del_spec [OF this, of k] show "\<exists>r s'. ht_del k s = Some (r, s') \<and> pool_inv s'
      \<and> (case r of Inl _ \<Rightarrow> lookup s k = None \<and> lookup s' = lookup s
         | Inr _ \<Rightarrow> lookup s k \<noteq> None \<and> lookup s' = (lookup s)(k := None))"
    by (auto simp: fun_upd_idem split: if_splits)
qed

text \<open>
  The table of p6 at time \<open>now\<close> holds what has not expired by then. An entry set with a
  negative time to live is expired at once, and \<open>ttl_inv\<close> says no such entry is alive.
\<close>

definition alive :: "int \<Rightarrow> ttl_mem \<Rightarrow> int32 \<Rightarrow> int32 option" where
  "alive now M k = (case view M k of None \<Rightarrow> None | Some (v, life, d) \<Rightarrow> if d < now then None else Some v)"

definition ttl_inv :: "int \<Rightarrow> ttl_mem \<Rightarrow> bool" where
  "ttl_inv now M \<longleftrightarrow> pool_inv M
     \<and> (\<forall>k v life d. view M k = Some (v, life, d) \<longrightarrow> sint life < 0 \<longrightarrow> d < now)"

definition ttl_eff :: "int32 \<times> int32 \<Rightarrow> int32 option" where
  "ttl_eff a = (if sint (snd a) < 0 then None else Some (fst a))"

definition ttl_put :: "int \<Rightarrow> int32 \<Rightarrow> int32 \<times> int32 \<Rightarrow> ttl_mem \<Rightarrow> (hash_error, unit, ttl_mem) outcome option" where
  "ttl_put now k a M = ttl_set now k (snd a) (fst a) M"

lemma ttl_inv_mono: "ttl_inv now M \<Longrightarrow> now \<le> now' \<Longrightarrow> ttl_inv now' M"
  by (fastforce simp: ttl_inv_def)

lemma alive_upd:
  "view M' = (view M)(k \<mapsto> (v, life, now + sint life)) \<Longrightarrow>
     alive now M' = (alive now M)(k := ttl_eff (v, life))"
  by (auto simp: alive_def ttl_eff_def fun_eq_iff)

lemma alive_rem: "view M' = (view M)(k := None) \<Longrightarrow> alive now M' = (alive now M)(k := None)"
  by (auto simp: alive_def fun_eq_iff)

interpretation tt: kv_store "ttl_inv now" "alive now" ttl_eff "ttl_put now" "ttl_get now now" "ttl_del now"
  for now :: int
proof
  fix k a s assume s: "ttl_inv now s"
  then have p: "pool_inv s" by (simp add: ttl_inv_def)
  from ttl_set_spec [OF p, of k now "snd a" "fst a"] obtain s' where
    "ttl_put now k a s = Some (Inl NoMemory, s') \<and> s' = s
     \<or> ttl_put now k a s = Some (Inr (), s') \<and> view s' = (view s)(k \<mapsto> (fst a, snd a, now + sint (snd a)))"
    and p': "pool_inv s'"
    unfolding ttl_put_def by metis
  moreover have "ttl_inv now s' \<and> alive now s' = (alive now s)(k := ttl_eff a)"
    if v: "view s' = (view s)(k \<mapsto> (fst a, snd a, now + sint (snd a)))"
    using s p' v alive_upd [OF v] by (auto simp: ttl_inv_def)
  ultimately show "\<exists>r s'. ttl_put now k a s = Some (r, s') \<and> ttl_inv now s'
      \<and> (case r of Inl _ \<Rightarrow> alive now s' = alive now s | Inr _ \<Rightarrow> alive now s' = (alive now s)(k := ttl_eff a))"
    using s by auto
next
  fix k s assume s: "ttl_inv now s"
  then have p: "pool_inv s" by (simp add: ttl_inv_def)
  show "\<exists>r s'. ttl_get now now k s = Some (r, s') \<and> ttl_inv now s' \<and> alive now s' = alive now s
      \<and> (case r of Inl _ \<Rightarrow> alive now s k = None | Inr v \<Rightarrow> alive now s k = Some v)"
  proof (cases "view s k")
    case None
    with ttl_get_spec [OF p, of now now k] s show ?thesis by (auto simp: alive_def)
  next
    case (Some e)
    obtain v life d where e: "e = (v, life, d)" by (cases e)
    show ?thesis
    proof (cases "d < now")
      case True
      with ttl_get_spec [OF p, of now now k] Some e obtain s' where
        "ttl_get now now k s = Some (Inl NotExists, s')" "pool_inv s'" and v: "view s' = (view s)(k := None)"
        by auto
      moreover from v s have "ttl_inv now s'" using \<open>pool_inv s'\<close> by (auto simp: ttl_inv_def)
      moreover have "alive now s k = None" using Some e True by (simp add: alive_def)
      then have "alive now s' = alive now s" using alive_rem [OF v, of now] by (simp add: fun_upd_idem)
      ultimately show ?thesis using \<open>alive now s k = None\<close> by auto
    next
      case False
      with ttl_get_spec [OF p, of now now k] Some e obtain s' where
        "ttl_get now now k s = Some (Inr v, s')" "pool_inv s'"
        and v: "view s' = (view s)(k \<mapsto> (v, life, now + sint life))"
        by auto
      moreover from v s have "ttl_inv now s'" using \<open>pool_inv s'\<close> by (auto simp: ttl_inv_def)
      moreover have lv: "alive now s k = Some v" using Some e False by (simp add: alive_def)
      moreover have "\<not> sint life < 0" using s Some e False by (auto simp: ttl_inv_def)
      then have "ttl_eff (v, life) = Some v" by (simp add: ttl_eff_def)
      then have "alive now s' = alive now s" using alive_upd [OF v] lv by (simp add: fun_upd_idem)
      ultimately show ?thesis by auto
    qed
  qed
next
  fix k s assume s: "ttl_inv now s"
  then have p: "pool_inv s" by (simp add: ttl_inv_def)
  from ttl_del_spec [OF p, of k now] obtain s' where d: "pool_inv s'" and v: "view s' = (view s)(k := None)"
    "ttl_del now k s = Some (case view s k of None \<Rightarrow> Inl NoKey
       | Some (v, life, d) \<Rightarrow> if d < now then Inl NotExists else Inr (), s')"
    by blast
  have i: "ttl_inv now s'" using s d v(1) by (auto simp: ttl_inv_def)
  have l: "alive now s' = (alive now s)(k := None)" by (rule alive_rem [OF v(1)])
  then have "alive now s k = None \<Longrightarrow> alive now s' = alive now s" by (simp add: fun_upd_idem)
  with i l v(2) show "\<exists>r s'. ttl_del now k s = Some (r, s') \<and> ttl_inv now s'
      \<and> (case r of Inl _ \<Rightarrow> alive now s k = None \<and> alive now s' = alive now s
         | Inr _ \<Rightarrow> alive now s k \<noteq> None \<and> alive now s' = (alive now s)(k := None))"
    by (auto simp: alive_def split: option.splits if_splits)
qed

end
