(* ===== verification/Kv_Worker.thy ===== *)
theory Kv_Worker imports Kv_Interface begin

text \<open>
  A worker process of p5 (p5/main_worker.cpp): it takes a message from the queue, takes the
  semaphore of the key's section (all four units to write, one to read), works on the shared
  table, gives the units back and sends the answer. Four workers run at once; the step
  relation interleaves them. System V semaphores: eight of them, each with four units.

  A worker's work on the table is one step of the relation (Kv_Interleave takes it apart). The theorems on the semaphores do
  not depend on that; the ones on the contents of the table are about one worker.
\<close>

section \<open>Messages\<close>

datatype op_type = GET | SET | DEL | QUIT

record message =
  mtype :: nat
  m_op :: op_type
  m_key :: int32
  m_value :: int32
  m_err :: int32
  m_from :: int

definition SERVER_MSGID :: nat where "SERVER_MSGID = 1"
definition NUM_WORKERS :: nat where "NUM_WORKERS = 4"

section \<open>Semaphores\<close>

text \<open>
  \<open>semop\<close> with one operation: an index outside the set fails (EFBIG) and the code ignores
  it; a decrement that would go below zero blocks (\<open>None\<close>).
\<close>

definition sem_up :: "nat \<Rightarrow> nat \<Rightarrow> nat list \<Rightarrow> nat list option" where
  "sem_up i c sems = (if i < length sems then Some (sems[i := sems ! i + c]) else Some sems)"

definition sem_down :: "nat \<Rightarrow> nat \<Rightarrow> nat list \<Rightarrow> nat list option" where
  "sem_down i c sems =
     (if i < length sems then (if c \<le> sems ! i then Some (sems[i := sems ! i - c]) else None)
      else Some sems)"

definition sem_init :: "nat list" where
  "sem_init = replicate NUM_SECTIONS NUM_WORKERS"

definition sem_id :: "message \<Rightarrow> nat" where
  "sem_id msg = get_hash (m_key msg) div NUM_SECTIONS"

text \<open>The units the operation takes and gives back.\<close>

fun units :: "op_type \<Rightarrow> nat" where
  "units SET = NUM_WORKERS"
| "units DEL = NUM_WORKERS"
| "units GET = 1"
| "units QUIT = 0"

section \<open>One worker\<close>

definition err_code :: "hash_error \<Rightarrow> int32" where
  "err_code e = (case e of NoKey \<Rightarrow> 1 | NoMemory \<Rightarrow> 2 | NotExists \<Rightarrow> 0)"

text \<open>The body of the try block between the semaphore calls, with the catch clause.\<close>

definition worker_apply :: "message \<Rightarrow> 'a node_mem \<Rightarrow> (message \<times> 'a node_mem) option" where
  "worker_apply msg M = (case m_op msg of
      SET \<Rightarrow> (case ht_set (m_key msg) (m_value msg) M of None \<Rightarrow> None
        | Some (Inr _, M') \<Rightarrow> Some (msg\<lparr>m_err := 0\<rparr>, M')
        | Some (Inl e, M') \<Rightarrow> Some (msg\<lparr>m_err := err_code e\<rparr>, M'))
    | GET \<Rightarrow> (case ht_get (m_key msg) M of None \<Rightarrow> None
        | Some (Inr v, M') \<Rightarrow> Some (msg\<lparr>m_value := v, m_err := 0\<rparr>, M')
        | Some (Inl e, M') \<Rightarrow> Some (msg\<lparr>m_err := err_code e\<rparr>, M'))
    | DEL \<Rightarrow> (case ht_del (m_key msg) M of None \<Rightarrow> None
        | Some (Inr _, M') \<Rightarrow> Some (msg\<lparr>m_err := 0\<rparr>, M')
        | Some (Inl e, M') \<Rightarrow> Some (msg\<lparr>m_err := err_code e\<rparr>, M'))
    | QUIT \<Rightarrow> Some (msg, M))"

text \<open>A worker alone: the answers to the messages before the first QUIT. The messages are those of the worker's
  own type, which is all that \<open>msgrcv\<close> gives it (Kv_Queue has the queue with the messages of all four).\<close>

fun worker_run :: "message list \<Rightarrow> 'a node_mem \<Rightarrow> (message list \<times> 'a node_mem) option" where
  "worker_run [] M = Some ([], M)"
| "worker_run (msg # msgs) M =
     (if m_op msg = QUIT then Some ([], M)
      else (case worker_apply (msg\<lparr>mtype := SERVER_MSGID\<rparr>) M of
          None \<Rightarrow> None
        | Some (ans, M') \<Rightarrow> map_option (\<lambda>(as, M''). (ans # as, M'')) (worker_run msgs M')))"

text \<open>The request a message carries and the reply an answer carries.\<close>

definition request_of :: "message \<Rightarrow> (int32, int32) request" where
  "request_of msg = (case m_op msg of SET \<Rightarrow> Put (m_key msg) (m_value msg)
     | GET \<Rightarrow> Fetch (m_key msg) | _ \<Rightarrow> Remove (m_key msg))"

definition reply_of :: "message \<Rightarrow> (int32, int32) reply" where
  "reply_of ans = (if m_err ans = 0 then (if m_op ans = GET then Value (m_value ans) else Done)
     else Failed (m_err ans))"

definition header :: "message \<Rightarrow> op_type \<times> int32 \<times> int \<times> nat" where
  "header m = (m_op m, m_key m, m_from m, mtype m)"

lemma header_upd [simp]:
  "header (m\<lparr>m_err := e\<rparr>) = header m" "header (m\<lparr>m_value := v\<rparr>) = header m"
  by (simp_all add: header_def)

lemma worker_apply_spec:
  assumes "pool_inv M" "m_op msg \<noteq> QUIT"
  obtains ans M1 where "worker_apply msg M = Some (ans, M1)" "pool_inv M1" "header ans = header msg"
    "\<And>qs rs. allowed Some (lookup M1) qs rs \<Longrightarrow>
       allowed Some (lookup M) (request_of msg # qs) (reply_of ans # rs)"
proof (cases "m_op msg")
  case GET
  show ?thesis
  proof (cases "lookup M (m_key msg)")
    case None
    with GET assms(1) show ?thesis
      by (intro that [of "msg\<lparr>m_err := 1\<rparr>" M])
        (simp_all add: worker_apply_def ht_get_spec request_of_def reply_of_def err_code_def)
  next
    case (Some v)
    with GET assms(1) show ?thesis
      by (intro that [of "msg\<lparr>m_value := v, m_err := 0\<rparr>" M])
        (simp_all add: worker_apply_def ht_get_spec request_of_def reply_of_def)
  qed
next
  case SET
  from ht_set_spec [OF assms(1), of "m_key msg" "m_value msg"] consider M1 where "pool_inv M1"
      "ht_set (m_key msg) (m_value msg) M = Some (Inr (), M1)" "lookup M1 = (lookup M)(m_key msg \<mapsto> m_value msg)"
    | "ht_set (m_key msg) (m_value msg) M = Some (Inl NoMemory, M)"
    by metis
  then show ?thesis
  proof cases
    case 1
    with SET show ?thesis
      by (intro that [of "msg\<lparr>m_err := 0\<rparr>" M1]) (simp_all add: worker_apply_def request_of_def reply_of_def)
  next
    case 2
    with SET assms(1) show ?thesis
      by (intro that [of "msg\<lparr>m_err := 2\<rparr>" M])
        (simp_all add: worker_apply_def request_of_def reply_of_def err_code_def)
  qed
next
  case DEL
  obtain M1 where d: "pool_inv M1" "lookup M1 = (lookup M)(m_key msg := None)"
    "ht_del (m_key msg) M = Some (if lookup M (m_key msg) = None then Inl NoKey else Inr (), M1)"
    using ht_del_spec [OF assms(1)] by blast
  show ?thesis
  proof (cases "lookup M (m_key msg)")
    case None
    with DEL d show ?thesis
      by (intro that [of "msg\<lparr>m_err := 1\<rparr>" M1])
        (simp_all add: worker_apply_def request_of_def reply_of_def err_code_def fun_upd_idem)
  next
    case (Some v)
    with DEL d show ?thesis
      by (intro that [of "msg\<lparr>m_err := 0\<rparr>" M1])
        (simp_all add: worker_apply_def request_of_def reply_of_def)
  qed
qed (use assms(2) in simp)

text \<open>The same on a map of at most 2048 keys: the answer to one message, in every field, and the map after
  it.\<close>

definition map_answer :: "message \<Rightarrow> (int32 \<rightharpoonup> int32) \<Rightarrow> message \<times> (int32 \<rightharpoonup> int32)" where
  "map_answer msg m = (case m_op msg of
      SET \<Rightarrow> if m (m_key msg) = None \<and> card (dom m) = BUFFER_SIZE then (msg\<lparr>m_err := 2\<rparr>, m)
        else (msg\<lparr>m_err := 0\<rparr>, m(m_key msg \<mapsto> m_value msg))
    | GET \<Rightarrow> (case m (m_key msg) of None \<Rightarrow> (msg\<lparr>m_err := 1\<rparr>, m) | Some v \<Rightarrow> (msg\<lparr>m_value := v, m_err := 0\<rparr>, m))
    | DEL \<Rightarrow> (case m (m_key msg) of None \<Rightarrow> (msg\<lparr>m_err := 1\<rparr>, m) | Some v \<Rightarrow> (msg\<lparr>m_err := 0\<rparr>, m(m_key msg := None)))
    | QUIT \<Rightarrow> (msg, m))"

fun map_answers :: "message list \<Rightarrow> (int32 \<rightharpoonup> int32) \<Rightarrow> message list \<times> (int32 \<rightharpoonup> int32)" where
  "map_answers [] m = ([], m)"
| "map_answers (msg # msgs) m = (case map_answer msg m of (ans, m1) \<Rightarrow>
     (case map_answers msgs m1 of (as, m2) \<Rightarrow> (ans # as, m2)))"

lemma worker_apply_map:
  assumes "pool_inv M" "m_op msg \<noteq> QUIT"
  shows "\<exists>M1. worker_apply msg M = Some (fst (map_answer msg (lookup M)), M1) \<and> pool_inv M1
     \<and> lookup M1 = snd (map_answer msg (lookup M))"
proof (cases "m_op msg")
  case SET
  from ht_set_spec [OF assms(1), of "m_key msg" "m_value msg"] SET show ?thesis
    by (auto simp: worker_apply_def map_answer_def err_code_def split: if_splits)
next
  case GET
  with assms(1) show ?thesis
    by (auto simp: worker_apply_def map_answer_def ht_get_spec err_code_def split: option.split)
next
  case DEL
  from ht_del_spec [OF assms(1), of "m_key msg"] DEL show ?thesis
    by (auto simp: worker_apply_def map_answer_def err_code_def fun_upd_idem split: option.split)
qed (use assms(2) in simp)

text \<open>A worker's answers, up to its QUIT, are those of the map.\<close>

abbreviation served :: "message list \<Rightarrow> message list" where
  "served msgs \<equiv> map (\<lambda>m. m\<lparr>mtype := SERVER_MSGID\<rparr>) (takeWhile (\<lambda>m. m_op m \<noteq> QUIT) msgs)"

lemma worker_run_map:
  "pool_inv M \<Longrightarrow> \<exists>M'. worker_run msgs M = Some (fst (map_answers (served msgs) (lookup M)), M')
     \<and> pool_inv M' \<and> lookup M' = snd (map_answers (served msgs) (lookup M))"
proof (induction msgs arbitrary: M)
  case (Cons msg msgs)
  show ?case
  proof (cases "m_op msg = QUIT")
    case False
    let ?m = "msg\<lparr>mtype := SERVER_MSGID\<rparr>"
    obtain ans m1 where a: "map_answer ?m (lookup M) = (ans, m1)" by fastforce
    from worker_apply_map [OF Cons.prems, of ?m] False obtain M1 where
      M1: "worker_apply ?m M = Some (ans, M1)" "pool_inv M1" "lookup M1 = m1" by (auto simp: a)
    from Cons.IH [OF M1(2)] False M1 show ?thesis by (auto simp: a split: prod.split)
  qed (use Cons.prems in simp)
qed simp

text \<open>Requests for other keys leave a key alone.\<close>

lemma map_answers_other:
  "\<forall>msg\<in>set msgs. m_key msg \<noteq> k \<Longrightarrow> snd (map_answers msgs m) k = m k"
proof (induction msgs arbitrary: m)
  case (Cons msg msgs)
  then have "snd (map_answer msg m) k = m k"
    by (auto simp: map_answer_def split: op_type.split option.split)
  moreover have "snd (map_answers msgs m') k = m' k" for m' using Cons by simp
  ultimately show ?case by (simp add: case_prod_beta)
qed simp

lemma worker_run_other:
  assumes "pool_inv M" "worker_run msgs M = Some (as, M')" "\<forall>msg\<in>set msgs. m_key msg \<noteq> k"
  shows "pool_inv M' \<and> lookup M' k = lookup M k"
proof -
  have "\<forall>msg\<in>set (served msgs). m_key msg \<noteq> k" using assms(3) by (auto dest: set_takeWhileD)
  then have "snd (map_answers (served msgs) (lookup M)) k = lookup M k" by (rule map_answers_other)
  with worker_run_map [OF assms(1), of msgs] assms(2) show ?thesis by auto
qed

section \<open>Four workers\<close>

datatype wpc = Receiving | Locking message | Holding message | Releasing message | Exited

record kv_sys =
  sems :: "nat list"
  shm :: "node table_mem"
  pcs :: "wpc list"
  answers :: "message list"

inductive kv_step :: "kv_sys \<Rightarrow> kv_sys \<Rightarrow> bool" where
  receive: "w < length (pcs s) \<Longrightarrow> pcs s ! w = Receiving \<Longrightarrow> m_op msg \<noteq> QUIT \<Longrightarrow>
     kv_step s (s\<lparr>pcs := (pcs s)[w := Locking (msg\<lparr>mtype := SERVER_MSGID\<rparr>)]\<rparr>)"
| quit: "w < length (pcs s) \<Longrightarrow> pcs s ! w = Receiving \<Longrightarrow> kv_step s (s\<lparr>pcs := (pcs s)[w := Exited]\<rparr>)"
| lock: "w < length (pcs s) \<Longrightarrow> pcs s ! w = Locking msg \<Longrightarrow>
     sem_down (sem_id msg) (units (m_op msg)) (sems s) = Some sems' \<Longrightarrow>
     kv_step s (s\<lparr>sems := sems', pcs := (pcs s)[w := Holding msg]\<rparr>)"
| work: "w < length (pcs s) \<Longrightarrow> pcs s ! w = Holding msg \<Longrightarrow>
     worker_apply msg (shm s) = Some (ans, M') \<Longrightarrow>
     kv_step s (s\<lparr>shm := M', pcs := (pcs s)[w := Releasing ans]\<rparr>)"
| release: "w < length (pcs s) \<Longrightarrow> pcs s ! w = Releasing ans \<Longrightarrow>
     sem_up (sem_id ans) (units (m_op ans)) (sems s) = Some sems' \<Longrightarrow>
     kv_step s (s\<lparr>sems := sems', pcs := (pcs s)[w := Receiving], answers := answers s @ [ans]\<rparr>)"

definition kv_init :: "node table_mem \<Rightarrow> kv_sys" where
  "kv_init M = \<lparr>sems = sem_init, shm = shared_memory_set M,
     pcs = replicate NUM_WORKERS Receiving, answers = []\<rparr>"

definition kv_reachable :: "node table_mem \<Rightarrow> kv_sys \<Rightarrow> bool" where
  "kv_reachable M s \<longleftrightarrow> kv_step\<^sup>*\<^sup>* (kv_init M) s"

text \<open>The units of section \<open>i\<close> a worker has.\<close>

fun held :: "nat \<Rightarrow> wpc \<Rightarrow> nat" where
  "held i (Holding msg) = (if sem_id msg = i then units (m_op msg) else 0)"
| "held i (Releasing msg) = (if sem_id msg = i then units (m_op msg) else 0)"
| "held i _ = 0"

text \<open>Inside its critical section with a message for section \<open>i\<close>.\<close>

fun inside :: "nat \<Rightarrow> wpc \<Rightarrow> op_type option" where
  "inside i (Holding msg) = (if sem_id msg = i then Some (m_op msg) else None)"
| "inside i (Releasing msg) = (if sem_id msg = i then Some (m_op msg) else None)"
| "inside i _ = None"

definition kv_inv :: "kv_sys \<Rightarrow> bool" where
  "kv_inv s \<longleftrightarrow> length (sems s) = NUM_SECTIONS \<and> length (pcs s) = NUM_WORKERS \<and> pool_inv (shm s)
     \<and> (\<forall>i<NUM_SECTIONS. sems s ! i + (\<Sum>pc\<leftarrow>pcs s. held i pc) = NUM_WORKERS)"

lemma sum_list_held:
  "w < length ps \<Longrightarrow> (\<Sum>pc\<leftarrow>ps[w := p]. f pc :: 'b::comm_monoid_add) + f (ps ! w) = (\<Sum>pc\<leftarrow>ps. f pc) + f p"
proof (induction ps arbitrary: w)
  case (Cons q ps)
  then show ?case by (cases w) (auto simp: ac_simps)
qed simp

text \<open>Only messages other than QUIT get as far as the semaphores.\<close>

fun pc_message :: "wpc \<Rightarrow> message option" where
  "pc_message (Locking msg) = Some msg"
| "pc_message (Holding msg) = Some msg"
| "pc_message (Releasing msg) = Some msg"
| "pc_message _ = None"

definition no_quit :: "wpc \<Rightarrow> bool" where
  "no_quit pc \<longleftrightarrow> (case pc_message pc of None \<Rightarrow> True | Some msg \<Rightarrow> m_op msg \<noteq> QUIT)"

lemma kv_inv_init: "kv_inv (kv_init M) \<and> (\<forall>pc\<in>set (pcs (kv_init M)). no_quit pc)"
  by (auto simp: kv_inv_def kv_init_def sem_init_def lookup_init NUM_WORKERS_def NUM_SECTIONS_def
      no_quit_def sum_list_replicate)

lemma kv_step_no_quit:
  assumes "kv_step s s'" "pool_inv (shm s)" "\<forall>pc\<in>set (pcs s). no_quit pc"
  shows "\<forall>pc\<in>set (pcs s'). no_quit pc"
  using assms
proof (induction rule: kv_step.induct)
  case (lock w s msg sems')
  then have "no_quit (Locking msg)" by (metis nth_mem)
  then have "no_quit (Holding msg)" by (simp add: no_quit_def)
  with lock.prems(2) set_update_subset_insert [of "pcs s" w] show ?case by auto
next
  case (work w s msg ans M')
  then have "no_quit (Holding msg)" by (metis nth_mem)
  then have "m_op msg \<noteq> QUIT" by (simp add: no_quit_def)
  from worker_apply_spec [OF work.prems(1) this] work.hyps(3) have "header ans = header msg" by auto
  with \<open>m_op msg \<noteq> QUIT\<close> have "no_quit (Releasing ans)" by (simp add: no_quit_def header_def)
  with work.prems(2) set_update_subset_insert [of "pcs s" w] show ?case by auto
qed (use set_update_subset_insert in \<open>fastforce simp: no_quit_def\<close>)+

lemma sum_list_held_le: "w < length ps \<Longrightarrow> f (ps ! w) \<le> (\<Sum>pc\<leftarrow>ps. f pc :: nat)"
proof (induction ps arbitrary: w)
  case (Cons q ps)
  then show ?case by (cases w) (auto intro: trans_le_add2)
qed simp

lemma sum_list_held_le2:
  assumes "w < length ps" "w' < length ps" "w \<noteq> w'" "f Exited = 0"
  shows "f (ps ! w) + f (ps ! w') \<le> (\<Sum>pc\<leftarrow>ps. f pc :: nat)"
  using sum_list_held [of w ps f Exited] sum_list_held_le [of w' "ps[w := Exited]" f] assms by simp

lemma kv_inv_update:
  assumes inv: "kv_inv s" and w: "w < length (pcs s)" and len: "length sems' = NUM_SECTIONS"
    and M: "pool_inv M'"
    and sem: "\<And>i. i < NUM_SECTIONS \<Longrightarrow> sems' ! i + held i pc = sems s ! i + held i (pcs s ! w)"
  shows "kv_inv (s\<lparr>sems := sems', shm := M', pcs := (pcs s)[w := pc], answers := as\<rparr>)"
proof -
  have "sems' ! i + (\<Sum>pc\<leftarrow>(pcs s)[w := pc]. held i pc) = NUM_WORKERS" if "i < NUM_SECTIONS" for i
    using sum_list_held [OF w, of "held i" pc] sem [OF that] inv that by (auto simp: kv_inv_def)
  with inv len M show ?thesis by (simp add: kv_inv_def)
qed

lemma kv_step_inv:
  assumes "kv_step s s'" "kv_inv s" "\<forall>pc\<in>set (pcs s). no_quit pc"
  shows "kv_inv s'"
  using assms
proof (induction rule: kv_step.induct)
  case (receive w s msg)
  then show ?case using kv_inv_update [of s w "sems s" "shm s" "Locking (msg\<lparr>mtype := SERVER_MSGID\<rparr>)" "answers s"]
    by (simp add: kv_inv_def)
next
  case (quit w s)
  then show ?case using kv_inv_update [of s w "sems s" "shm s" Exited "answers s"]
    by (simp add: kv_inv_def)
next
  case (lock w s msg sems')
  then have "length sems' = NUM_SECTIONS" by (auto simp: sem_down_def kv_inv_def split: if_splits)
  moreover from lock have
    "sems' ! i + held i (Holding msg) = sems s ! i + held i (pcs s ! w)" if "i < NUM_SECTIONS" for i
    using that by (auto simp: sem_down_def kv_inv_def nth_list_update split: if_splits)
  ultimately show ?case using lock kv_inv_update [of s w sems' "shm s" "Holding msg" "answers s"]
    by (simp add: kv_inv_def)
next
  case (work w s msg ans M')
  then have "no_quit (Holding msg)" by (metis nth_mem)
  then have "m_op msg \<noteq> QUIT" by (simp add: no_quit_def)
  from work.prems(1) have "pool_inv (shm s)" by (simp add: kv_inv_def)
  from worker_apply_spec [OF this \<open>m_op msg \<noteq> QUIT\<close>] work.hyps(3)
  have "header ans = header msg" "pool_inv M'" by auto
  then have "held i (Releasing ans) = held i (Holding msg)" for i
    by (simp add: header_def sem_id_def)
  with work \<open>pool_inv M'\<close> show ?case using kv_inv_update [of s w "sems s" M' "Releasing ans" "answers s"]
    by (simp add: kv_inv_def)
next
  case (release w s ans sems')
  then have "length sems' = NUM_SECTIONS" by (auto simp: sem_up_def kv_inv_def split: if_splits)
  moreover from release have
    "sems' ! i + held i Receiving = sems s ! i + held i (pcs s ! w)" if "i < NUM_SECTIONS" for i
    using that by (auto simp: sem_up_def kv_inv_def nth_list_update split: if_splits)
  ultimately show ?case using release kv_inv_update [of s w sems' "shm s" Receiving "answers s @ [ans]"]
    by (simp add: kv_inv_def)
qed

lemma kv_reachable_inv:
  assumes "kv_reachable M s"
  shows "kv_inv s \<and> (\<forall>pc\<in>set (pcs s). no_quit pc)"
  using assms unfolding kv_reachable_def
proof (induction rule: rtranclp_induct)
  case base
  show ?case by (rule kv_inv_init)
next
  case (step s t)
  with kv_step_inv kv_step_no_quit show ?case by (metis kv_inv_def)
qed

end
