(* ===== verification/Scan.thy ===== *)
theory Scan imports Prelude begin

text \<open>
  \<open>sscanf\<close> as the servers of p5 and p6 use it: one \<open>%s\<close> and then some \<open>%d\<close>. Both
  directives skip white space; \<open>%d\<close> reads an optional sign and decimal digits, converts
  with \<open>strtol\<close> to a long (which saturates) and stores an int, as glibc does. The number of
  conversions is what the server branches on.
\<close>

section \<open>Characters\<close>

definition isspace :: "char \<Rightarrow> bool" where
  "isspace c \<longleftrightarrow> (of_char c :: nat) \<in> {9, 10, 11, 12, 13, 32}"

definition isdigit :: "char \<Rightarrow> bool" where
  "isdigit c \<longleftrightarrow> 48 \<le> (of_char c :: nat) \<and> (of_char c :: nat) \<le> 57"

definition digit_val :: "char \<Rightarrow> nat" where
  "digit_val c = of_char c - 48"

definition digits_val :: "string \<Rightarrow> nat" where
  "digits_val ds = foldl (\<lambda>v c. 10 * v + digit_val c) 0 ds"

text \<open>A C string in a buffer: what precedes the first NUL.\<close>

definition c_string :: "string \<Rightarrow> string" where
  "c_string buf = takeWhile (\<lambda>c. c \<noteq> CHR 0x00) buf"

section \<open>The directives\<close>

definition scan_word :: "string \<Rightarrow> (string \<times> string) option" where
  "scan_word s = (let s1 = dropWhile isspace s in
     if s1 = [] then None
     else Some (takeWhile (\<lambda>c. \<not> isspace c) s1, dropWhile (\<lambda>c. \<not> isspace c) s1))"

definition to_long :: "int \<Rightarrow> int" where
  "to_long v = max (- (2 ^ 63)) (min (2 ^ 63 - 1) v)"

definition scan_int :: "string \<Rightarrow> (int32 \<times> string) option" where
  "scan_int s =
     (let s1 = dropWhile isspace s;
          neg = (s1 \<noteq> [] \<and> hd s1 = CHR ''-'');
          s2 = (if s1 \<noteq> [] \<and> (hd s1 = CHR ''-'' \<or> hd s1 = CHR ''+'') then tl s1 else s1);
          ds = takeWhile isdigit s2;
          v = int (digits_val ds)
      in if ds = [] then None else Some (word_of_int (to_long (if neg then - v else v)), dropWhile isdigit s2))"

fun scan_ints :: "nat \<Rightarrow> string \<Rightarrow> int32 list" where
  "scan_ints 0 s = []"
| "scan_ints (Suc n) s = (case scan_int s of None \<Rightarrow> [] | Some (v, s') \<Rightarrow> v # scan_ints n s')"

text \<open>\<open>sscanf(buf, "%s%d...%d", ...)\<close> with \<open>n\<close> integers: \<open>None\<close> is EOF, otherwise the word
  and the integers converted; the number of conversions is one more than the integers.\<close>

definition sscanf :: "nat \<Rightarrow> string \<Rightarrow> (string \<times> int32 list) option" where
  "sscanf n buf = map_option (\<lambda>(cmd, s). (cmd, scan_ints n s)) (scan_word (c_string buf))"

text \<open>The reply of both servers to a line they do not understand.\<close>

definition wrong_command :: string where
  "wrong_command = ''> FAIL: Wrong command or wrong number of params'' @ newline"

section \<open>Reading what was printed\<close>

lemma isdigit_not_space [simp]: "isdigit c \<Longrightarrow> \<not> isspace c"
  by (auto simp: isdigit_def isspace_def)

lemma of_char_digit [simp]: "n < 10 \<Longrightarrow> of_char (char_of (48 + n) :: char) = (48 + n :: nat)"
  by simp

lemma isdigit_show_nat: "\<forall>c\<in>set (show_nat n). isdigit c"
proof (induction n rule: show_nat.induct)
  case (1 n)
  have "isdigit (char_of (48 + n mod 10))" by (simp add: isdigit_def)
  moreover have "n < 10 \<Longrightarrow> isdigit (char_of (48 + n))" by (simp add: isdigit_def)
  ultimately show ?case using 1 by (subst show_nat.simps) auto
qed

lemma show_nat_not_Nil [simp]: "show_nat n \<noteq> []"
  by (subst show_nat.simps) simp

lemma digits_val_append: "digits_val (ds @ [c]) = 10 * digits_val ds + digit_val c"
  by (simp add: digits_val_def)

lemma digits_val_show_nat [simp]: "digits_val (show_nat n) = n"
proof (induction n rule: show_nat.induct)
  case (1 n)
  show ?case
  proof (cases "n < 10")
    case True
    then show ?thesis by (subst show_nat.simps) (simp add: digits_val_def digit_val_def)
  next
    case False
    with 1 show ?thesis
      by (subst show_nat.simps) (simp add: digits_val_append digit_val_def)
  qed
qed

lemma takeWhile_digits:
  "\<forall>c\<in>set ds. isdigit c \<Longrightarrow> rest = [] \<or> \<not> isdigit (hd rest) \<Longrightarrow> takeWhile isdigit (ds @ rest) = ds"
  "\<forall>c\<in>set ds. isdigit c \<Longrightarrow> rest = [] \<or> \<not> isdigit (hd rest) \<Longrightarrow> dropWhile isdigit (ds @ rest) = rest"
  by (induction ds) (cases rest; simp)+

lemma to_long_int32: "to_long (sint (v :: int32)) = sint v"
proof -
  have "- (2 ^ 31) \<le> sint v" "sint v < 2 ^ 31"
    using sint_ge [of v] sint_lt [of v] by simp_all
  then show ?thesis by (simp add: to_long_def)
qed

lemma hd_show_nat: "isdigit (hd (show_nat n))"
  using isdigit_show_nat [of n] by (meson hd_in_set show_nat_not_Nil)

text \<open>A printed integer after white space is read back, whatever follows that is no digit.\<close>

lemma scan_int_show:
  assumes "rest = [] \<or> \<not> isdigit (hd rest)" "\<forall>c\<in>set ws. isspace c"
  shows "scan_int (ws @ show_int (sint v) @ rest) = Some (v, rest)"
proof -
  let ?n = "nat \<bar>sint v\<bar>"
  have dw: "dropWhile isspace (ws @ s) = dropWhile isspace s" for s
    using assms(2) by (induction ws) auto
  have tw: "takeWhile isdigit (show_nat ?n @ rest) = show_nat ?n"
    "dropWhile isdigit (show_nat ?n @ rest) = rest"
    using takeWhile_digits isdigit_show_nat assms(1) by blast+
  obtain c cs where c: "show_nat ?n = c # cs" "isdigit c"
    using hd_show_nat [of ?n] by (cases "show_nat ?n") auto
  have signs: "c \<noteq> CHR ''-''" "c \<noteq> CHR ''+''" using c(2) by (auto simp: isdigit_def)
  show ?thesis
  proof (cases "sint v < 0")
    case True
    then have s: "show_int (sint v) = CHR ''-'' # show_nat ?n" by (simp add: show_int_def)
    have "\<not> isspace CHR ''-''" by (simp add: isspace_def)
    then have d: "dropWhile isspace (ws @ show_int (sint v) @ rest) = CHR ''-'' # show_nat ?n @ rest"
      by (simp add: dw s)
    have "- int ?n = sint v" using True by simp
    then have "to_long (- int ?n) = sint v" using to_long_int32 by metis
    then show ?thesis using tw unfolding scan_int_def Let_def d
      by (simp only: list.sel list.distinct digits_val_show_nat simp_thms if_True if_False show_nat_not_Nil)
        simp
  next
    case False
    then have s: "show_int (sint v) = show_nat ?n" by (simp add: show_int_def)
    have d: "dropWhile isspace (ws @ show_int (sint v) @ rest) = show_nat ?n @ rest"
      using c by (simp add: dw s)
    have h: "hd (show_nat ?n @ rest) = c" using c by simp
    have "int ?n = sint v" using False by simp
    then have "to_long (int ?n) = sint v" using to_long_int32 by metis
    then show ?thesis using tw signs unfolding scan_int_def Let_def d h
      by (simp only: digits_val_show_nat simp_thms if_False show_nat_not_Nil append_is_Nil_conv) simp
  qed
qed

lemma scan_word_show:
  assumes "cmd \<noteq> []" "\<forall>c\<in>set cmd. \<not> isspace c" "rest = [] \<or> isspace (hd rest)"
  shows "scan_word (cmd @ rest) = Some (cmd, rest)"
proof -
  have "dropWhile isspace (cmd @ rest) = cmd @ rest" using assms(1,2) by (cases cmd) auto
  moreover have "takeWhile (\<lambda>c. \<not> isspace c) (cmd @ rest) = cmd" "dropWhile (\<lambda>c. \<not> isspace c) (cmd @ rest) = rest"
    using assms(2,3) by (induction cmd) (cases rest; simp)+
  ultimately show ?thesis using assms(1) by (simp add: scan_word_def Let_def)
qed

lemma scan_word_not_Nil: "scan_word s = Some (w, rest) \<Longrightarrow> w \<noteq> []"
  using hd_dropWhile [of isspace s]
  by (cases "dropWhile isspace s") (auto simp: scan_word_def Let_def)

lemma c_string_id: "CHR 0x00 \<notin> set s \<Longrightarrow> c_string s = s"
  by (auto simp: c_string_def takeWhile_eq_all_conv)

lemma c_string_nul: "c_string (s @ [CHR 0x00]) = c_string s"
  by (induction s) (simp_all add: c_string_def)

lemma sscanf_nul: "sscanf n (s @ [CHR 0x00]) = sscanf n s"
  by (simp add: sscanf_def c_string_nul)

lemma show_int_no_nul: "CHR 0x00 \<notin> set (show_int i)"
proof -
  have "CHR 0x00 \<notin> set (show_nat n)" for n
    using isdigit_show_nat [of n] by (auto simp: isdigit_def)
  then show ?thesis by (simp add: show_int_def)
qed

section \<open>Lines\<close>

text \<open>\<open>fgets\<close> with room for \<open>n\<close> characters and the NUL: the characters through the first
  newline, and what is left.\<close>

fun fgets :: "nat \<Rightarrow> string \<Rightarrow> string \<times> string" where
  "fgets 0 s = ([], s)"
| "fgets (Suc n) [] = ([], [])"
| "fgets (Suc n) (ch # s) =
     (if ch = CHR 0x0A then ([ch], s) else (case fgets n s of (l, r) \<Rightarrow> (ch # l, r)))"

lemma fgets_length: "length (snd (fgets n s)) \<le> length s"
  by (induction n s rule: fgets.induct) (auto split: prod.split)

lemma fgets_shorter: "s \<noteq> [] \<Longrightarrow> length (snd (fgets (Suc n) s)) < length s"
proof (cases s)
  case (Cons ch s')
  then show ?thesis using fgets_length [of n s'] by (auto split: prod.split)
qed simp

lemma fgets_line: "CHR 0x0A \<notin> set l \<Longrightarrow> length l < n \<Longrightarrow> fgets n (l @ CHR 0x0A # rest) = (l @ [CHR 0x0A], rest)"
proof (induction l arbitrary: n)
  case Nil
  then show ?case by (cases n) auto
next
  case (Cons c l)
  then show ?case by (cases n) auto
qed

lemma fgets_end: "CHR 0x0A \<notin> set r \<Longrightarrow> length r \<le> n \<Longrightarrow> fgets n r = (r, [])"
proof (induction r arbitrary: n)
  case Nil
  then show ?case by (cases n) auto
next
  case (Cons c r)
  then show ?case by (cases n) auto
qed

lemma fgets_max: "length (fst (fgets n s)) \<le> n"
  by (induction n s rule: fgets.induct) (auto split: prod.split)

end
