(* ===== verification/Sockets.thy ===== *)
theory Sockets imports Prelude begin

text \<open>
  What the servers get from the operating system, as inputs of the models: the outcome of a
  \<open>recv\<close> on a socket that is not blocking. Sockets are file descriptors, integers.
\<close>

datatype recv_result = Data string | Closed | Recv_Error

text \<open>\<open>set_nonblock\<close>, the same in all programs, on the status flags of the descriptors. \<open>got_flags\<close> and \<open>sets\<close> say
  whether the two calls of \<open>fcntl\<close> succeed; if the first fails the other flags are taken to be 0.\<close>

unbundle bit_operations_syntax

definition O_NONBLOCK :: int32 where "O_NONBLOCK = 2048"

definition set_nonblock :: "bool \<Rightarrow> bool \<Rightarrow> int \<Rightarrow> (int \<Rightarrow> int32) \<Rightarrow> int \<times> (int \<Rightarrow> int32)" where
  "set_nonblock got_flags sets fd fl =
     (let flags = (if got_flags then fl fd else 0)
      in if sets then (0, fl(fd := flags OR O_NONBLOCK)) else (-1, fl))"

lemma set_nonblock_flags:
  assumes "set_nonblock got_flags True fd fl = (res, fl')"
  shows "bit (fl' fd) i \<longleftrightarrow> i = 11 \<or> got_flags \<and> bit (fl fd) i" "fd' \<noteq> fd \<Longrightarrow> fl' fd' = fl fd'"
proof -
  have b: "O_NONBLOCK = push_bit 11 1" by (simp add: O_NONBLOCK_def push_bit_eq_mult)
  have "bit O_NONBLOCK i \<longleftrightarrow> i = 11" unfolding b bit_push_bit_iff bit_1_iff by auto
  with assms show "bit (fl' fd) i \<longleftrightarrow> i = 11 \<or> got_flags \<and> bit (fl fd) i" "fd' \<noteq> fd \<Longrightarrow> fl' fd' = fl fd'"
    by (auto simp: set_nonblock_def Let_def bit_or_iff split: if_splits)
qed

end
