(* ===== verification/Kv_Server.thy ===== *)
theory Kv_Server imports Kv_Worker Scan Sockets begin

text \<open>
  The server process of p5 (p5/Server.cpp): it accepts clients, turns their lines into
  messages for a random worker, and the workers' answers into replies. The network, the
  message queue and \<open>rand()\<close> are inputs: what \<open>accept\<close>, \<open>recv\<close> and \<open>msgrcv\<close> deliver.
  What the server sends is recorded in order. Its log output is left out.
\<close>

section \<open>From a line to a message\<close>

text \<open>
  \<open>process_message_from_client\<close>: the result (0, 1 or -1), the message and the buffer after
  the call. \<open>key\<close> and \<open>value\<close> are what the uninitialised variables hold; \<open>r\<close> is the value
  of \<open>rand()\<close>. \<open>None\<close>: the word does not fit \<open>cmd[32]\<close>, the call writes beyond the array.
\<close>

definition process_message_from_client ::
    "nat \<Rightarrow> int32 \<Rightarrow> int32 \<Rightarrow> message \<Rightarrow> int \<Rightarrow> string \<Rightarrow> (int \<times> message \<times> string) option" where
  "process_message_from_client r key value msg client_fd buf =
     (case sscanf 2 buf of
        None \<Rightarrow> Some (0, msg, buf)
      | Some (cmd, args) \<Rightarrow>
         (if 32 \<le> length cmd then None
          else (let n_args = 1 + length args;
                    key' = (if 2 \<le> n_args then args ! 0 else key);
                    value' = (if 3 \<le> n_args then args ! 1 else value);
                    msg1 = msg\<lparr>m_key := key', m_value := value', m_from := client_fd,
                               mtype := r mod NUM_WORKERS + 2\<rparr>
                in if cmd = ''set'' \<and> n_args = 3 then Some (1, msg1\<lparr>m_op := SET\<rparr>, buf)
                   else if cmd = ''get'' \<and> n_args = 2 then Some (1, msg1\<lparr>m_op := GET\<rparr>, buf)
                   else if cmd = ''del'' \<and> n_args = 2 then Some (1, msg1\<lparr>m_op := DEL\<rparr>, buf)
                   else Some (-1, msg1, wrong_command))))"

section \<open>From an answer to a reply\<close>

definition process_message_from_worker :: "message \<Rightarrow> string \<Rightarrow> string" where
  "process_message_from_worker msg buf =
     (if m_err msg = 0 then
        (if m_op msg = GET
         then ''> DONE: ('' @ show_int (sint (m_key msg)) @ '' , '' @ show_int (sint (m_value msg)) @ '')'' @ newline
         else ''> DONE'' @ newline)
      else if m_err msg = 1 then ''> FAIL: There is no key '' @ show_int (sint (m_key msg)) @ newline
      else if m_err msg = 2 then ''> FAIL: There is no more free memory left'' @ newline
      else buf)"

section \<open>The event loop\<close>

record server =
  slave_sockets :: "int set"
  buffer :: string
  to_workers :: "message list"
  sent :: "(int \<times> string) list"
  closed :: "int list"

definition send_message_to_client :: "int \<Rightarrow> server \<Rightarrow> server" where
  "send_message_to_client fd s = s\<lparr>sent := sent s @ [(fd, c_string (buffer s) @ [CHR 0x00])]\<rparr>"

definition send_message_to_worker :: "message \<Rightarrow> server \<Rightarrow> server" where
  "send_message_to_worker msg s = s\<lparr>to_workers := to_workers s @ [msg]\<rparr>"

definition disconnect_client :: "int \<Rightarrow> server \<Rightarrow> server" where
  "disconnect_client fd s = s\<lparr>slave_sockets := slave_sockets s - {fd}, closed := closed s @ [fd]\<rparr>"

text \<open>An error of \<open>recv\<close> leaves the buffer as it is and counts as a message.\<close>

definition recv_message_from_client :: "int \<Rightarrow> recv_result \<Rightarrow> server \<Rightarrow> bool \<times> server" where
  "recv_message_from_client fd res s = (case res of
      Data d \<Rightarrow> (True, s\<lparr>buffer := d @ [CHR 0x00]\<rparr>)
    | Closed \<Rightarrow> (False, disconnect_client fd s)
    | Recv_Error \<Rightarrow> (True, s))"

definition process_client_event ::
    "nat \<Rightarrow> message \<Rightarrow> int \<Rightarrow> recv_result \<Rightarrow> bool \<Rightarrow> server \<Rightarrow> server option" where
  "process_client_event r msg0 fd res hup s =
     (case recv_message_from_client fd res s of
        (False, s1) \<Rightarrow> Some s1
      | (True, s1) \<Rightarrow>
         (case process_message_from_client r (m_key msg0) (m_value msg0) msg0 fd (buffer s1) of
            None \<Rightarrow> None
          | Some (q, msg, buf) \<Rightarrow>
             (let s2 = s1\<lparr>buffer := buf\<rparr>;
                  s3 = (if q > 0 then send_message_to_worker msg s2
                        else if q < 0 then send_message_to_client fd s2 else s2)
              in Some (if hup then disconnect_client fd s3 else s3))))"

text \<open>\<open>process_master_event\<close>: the sockets \<open>accept\<close> returns in this round; those not
  positive are errors and are passed over.\<close>

fun process_master_event :: "int list \<Rightarrow> server \<Rightarrow> server" where
  "process_master_event [] s = s"
| "process_master_event (fd # fds) s = process_master_event fds
     (if fd > 0 then s\<lparr>slave_sockets := insert fd (slave_sockets s),
                      sent := sent s @ [(fd, ''Welcome!'' @ newline)]\<rparr> else s)"

definition process_worker_message :: "message \<Rightarrow> server \<Rightarrow> server" where
  "process_worker_message msg s =
     send_message_to_client (m_from msg) (s\<lparr>buffer := process_message_from_worker msg (buffer s)\<rparr>)"

definition free_worker_resources :: "message \<Rightarrow> server \<Rightarrow> server" where
  "free_worker_resources msg0 s = fold (\<lambda>i. send_message_to_worker (msg0\<lparr>m_op := QUIT, mtype := i + 2\<rparr>)) [0..<NUM_WORKERS] s"

text \<open>One turn of the loop in \<open>start\<close>: the events of \<open>epoll_wait\<close>, then at most one answer.\<close>

datatype event = Master "int list" | Client int recv_result bool nat message

definition process_event :: "event \<Rightarrow> server \<Rightarrow> server option" where
  "process_event e s = (case e of
      Master fds \<Rightarrow> Some (process_master_event fds s)
    | Client fd res hup r msg0 \<Rightarrow> process_client_event r msg0 fd res hup s)"

fun process_events :: "event list \<Rightarrow> server \<Rightarrow> server option" where
  "process_events [] s = Some s"
| "process_events (e # es) s = (case process_event e s of None \<Rightarrow> None | Some s' \<Rightarrow> process_events es s')"

definition server_turn :: "event list \<Rightarrow> message option \<Rightarrow> server \<Rightarrow> server option" where
  "server_turn es ans s = (case process_events es s of None \<Rightarrow> None
     | Some s' \<Rightarrow> Some (case ans of None \<Rightarrow> s' | Some msg \<Rightarrow> process_worker_message msg s'))"

section \<open>Commands are understood\<close>

lemma sscanf_show:
  assumes "cmd \<noteq> []" "\<forall>c\<in>set cmd. \<not> isspace c \<and> c \<noteq> CHR 0x00"
  shows "sscanf 2 (cmd @ '' '' @ show_int (sint k) @ newline) = Some (cmd, [k])"
    and "sscanf 2 (cmd @ '' '' @ show_int (sint k) @ '' '' @ show_int (sint v) @ newline) = Some (cmd, [k, v])"
proof -
  have sp: "isspace CHR '' ''" "isspace CHR 0x0A" "\<not> isdigit CHR '' ''" "\<not> isdigit CHR 0x0A"
    by (simp_all add: isspace_def isdigit_def)
  have nul: "CHR 0x00 \<notin> set cmd" using assms(2) by auto
  have w: "scan_word (cmd @ '' '' @ s) = Some (cmd, '' '' @ s)" for s
    by (rule scan_word_show) (use assms sp in auto)
  have i: "scan_int ('' '' @ show_int (sint v) @ rest) = Some (v, rest)"
    if "rest = [] \<or> \<not> isdigit (hd rest)" for v rest
    using scan_int_show [of rest "'' ''" v] that sp by simp
  have nl: "scan_int newline = None" by (simp add: newline_def scan_int_def sp)
  have "c_string (cmd @ '' '' @ show_int (sint k) @ newline) = cmd @ '' '' @ show_int (sint k) @ newline"
    by (rule c_string_id) (use nul show_int_no_nul in \<open>simp add: newline_def\<close>)
  then show "sscanf 2 (cmd @ '' '' @ show_int (sint k) @ newline) = Some (cmd, [k])"
    using i [of newline k] nl sp
    by (simp add: sscanf_def w numeral_2_eq_2 del: append.simps) (simp add: newline_def)
  have "c_string (cmd @ '' '' @ show_int (sint k) @ '' '' @ show_int (sint v) @ newline)
      = cmd @ '' '' @ show_int (sint k) @ '' '' @ show_int (sint v) @ newline"
    by (rule c_string_id) (use nul show_int_no_nul in \<open>simp add: newline_def\<close>)
  then show "sscanf 2 (cmd @ '' '' @ show_int (sint k) @ '' '' @ show_int (sint v) @ newline) = Some (cmd, [k, v])"
    using i [of "'' '' @ show_int (sint v) @ newline" k] i [of newline v] sp
    by (simp add: sscanf_def w numeral_2_eq_2 newline_def del: append.simps)
qed

end
