(* ===== verification/Kv_Props.thy ===== *)
theory Kv_Props imports Kv_Server begin

text \<open>
  The properties of the key-value store of p5: the table is a map of at most 2048 keys, a
  worker answers as that map does, the lines of the protocol become the right messages, and
  what the semaphores do and do not exclude.
\<close>

section \<open>The table\<close>

text \<open>C7: \<open>HashTable::set\<close> returns, keeps the linked lists well formed and changes the map at
  its key only; it throws NoMemory exactly when the key is new and 2048 keys are stored, and then
  changes nothing.\<close>

theorem hash_set_refines:
  assumes "pool_inv M"
  shows "\<exists>M'. pool_inv M' \<and>
     (if lookup M k = None \<and> card (dom (lookup M)) = BUFFER_SIZE
      then ht_set k v M = Some (Inl NoMemory, M') \<and> M' = M
      else ht_set k v M = Some (Inr (), M') \<and> lookup M' = (lookup M)(k \<mapsto> v))"
  by (rule ht_set_spec [OF assms])

abbreviation blank :: "node table_mem" where
  "blank \<equiv> \<lparr>p_table = [], p_data = replicate 2048 \<lparr>node_key = 0, node_value = 0, n_prev = 0, n_next = 0\<rparr>\<rparr>"

theorem hash_set_refines_witness:
  "pool_inv (shared_memory_set blank) \<and>
   (\<exists>M'. pool_inv M' \<and> ht_set 5 7 (shared_memory_set blank) = Some (Inr (), M') \<and> lookup M' 5 = Some 7)"
  using hash_set_refines [OF lookup_init(1) [of blank], of 5 7]
  by (auto simp: lookup_init BUFFER_SIZE_def)

text \<open>\<open>get\<close> and \<open>del\<close> return: \<open>get\<close> yields the value of the map or NoKey and leaves the
  memory as it is; \<open>del\<close> removes exactly its key, and throws NoKey when there is none.\<close>

theorem hash_get_del_refine:
  assumes "pool_inv M"
  shows "ht_get k M = Some (case lookup M k of None \<Rightarrow> Inl NoKey | Some v \<Rightarrow> Inr v, M)
     \<and> (\<exists>M'. pool_inv M' \<and> lookup M' = (lookup M)(k := None) \<and>
          ht_del k M = Some (if lookup M k = None then Inl NoKey else Inr (), M'))"
  using ht_get_spec [OF assms] ht_del_spec [OF assms] by blast

theorem hash_get_del_refine_witness:
  "pool_inv (shared_memory_set blank) \<and> fst (the (ht_get 5 (shared_memory_set blank))) = Inl NoKey"
  using hash_get_del_refine [OF lookup_init(1) [of blank], of 5] by (simp add: lookup_init)

text \<open>\<open>dump\<close> returns; it prints every stored pair once and nothing else, and the reserved
  and free nodes it counts are together the 2048 of the buffer.\<close>

theorem hash_dump_complete:
  assumes "pool_inv M"
  shows "\<exists>es. distinct es \<and> set es = {(k, v). lookup M k = Some v} \<and> length es \<le> BUFFER_SIZE
     \<and> ht_dump M = Some (concat (map show_pair es) @ statistics (length es) (BUFFER_SIZE - length es))"
  by (rule dump_spec [OF assms])

theorem hash_dump_complete_witness:
  "pool_inv (shared_memory_set blank) \<and> ht_dump (shared_memory_set blank) = Some (statistics 0 2048)"
  using hash_dump_complete [OF lookup_init(1) [of blank]] by (auto simp: lookup_init BUFFER_SIZE_def)

section \<open>Workers\<close>

text \<open>C3: A worker on a fresh table answers every sequence of set, get and del messages up to its QUIT, in
  order; each answer is, in every field, that of one map that is empty at first: a set stores its value
  and is answered with 0, or with 2 when its key is new and 2048 keys are stored; a get has the value
  and 0, or 1 when the key is absent; a del removes its key and has 0, or 1 when it is absent. The
  table holds that map at the end.\<close>

theorem worker_answers_as_map:
  "\<exists>M'. worker_run msgs (shared_memory_set M) = Some (fst (map_answers (served msgs) (\<lambda>_. None)), M')
     \<and> pool_inv M' \<and> lookup M' = snd (map_answers (served msgs) (\<lambda>_. None))"
  using worker_run_map [OF lookup_init(1), of msgs M] by (simp only: lookup_init)

abbreviation msg_of :: "op_type \<Rightarrow> int32 \<Rightarrow> int32 \<Rightarrow> message" where
  "msg_of f k v \<equiv> \<lparr>mtype = 2, m_op = f, m_key = k, m_value = v, m_err = 0, m_from = 5\<rparr>"

theorem worker_answers_as_map_witness:
  "\<exists>as M'. worker_run [msg_of SET 1 9, msg_of GET 1 0, msg_of DEL 1 0, msg_of GET 1 0, msg_of QUIT 0 0, msg_of SET 1 7] (shared_memory_set blank)
       = Some (as, M')
     \<and> map m_err as = [0, 0, 0, 1] \<and> m_value (as ! 1) = 9 \<and> lookup M' = (\<lambda>_. None)"
  using worker_answers_as_map [of "[msg_of SET 1 9, msg_of GET 1 0, msg_of DEL 1 0, msg_of GET 1 0, msg_of QUIT 0 0, msg_of SET 1 7]" blank]
  by (auto simp: map_answer_def BUFFER_SIZE_def)

text \<open>C9: For the buckets the semaphores cover, a writer excludes everyone: when two of the four
  workers are in the critical section of the same section, both are reading.\<close>

theorem writers_exclude:
  assumes "kv_reachable M s" "w < length (pcs s)" "w' < length (pcs s)" "w \<noteq> w'" "i < NUM_SECTIONS"
    and "inside i (pcs s ! w) = Some f" "inside i (pcs s ! w') = Some g"
  shows "f = GET \<and> g = GET"
proof -
  from kv_reachable_inv [OF assms(1)] have inv: "kv_inv s" "\<forall>pc\<in>set (pcs s). no_quit pc" by auto
  have units: "held i (pcs s ! v) = units h \<and> h \<noteq> QUIT" if "inside i (pcs s ! v) = Some h" "v < length (pcs s)" for v h
  proof -
    have "no_quit (pcs s ! v)" using inv(2) that(2) by simp
    with that(1) show ?thesis
      by (cases "pcs s ! v") (auto simp: no_quit_def split: if_splits)
  qed
  have "held i (pcs s ! w) + held i (pcs s ! w') \<le> NUM_WORKERS"
    using sum_list_held_le2 [OF assms(2-4), of "held i"] inv(1) assms(5)
    by (auto simp: kv_inv_def dest!: spec)
  then have "units f + units g \<le> NUM_WORKERS" using units [OF assms(6,2)] units [OF assms(7,3)] by simp
  then show ?thesis using units [OF assms(6,2)] units [OF assms(7,3)]
    by (cases f; cases g) (auto simp: NUM_WORKERS_def)
qed

text \<open>A run that takes two workers into their critical sections.\<close>

lemma two_inside:
  assumes "m_op m1 \<noteq> QUIT" "m_op m2 \<noteq> QUIT" "mtype m1 = SERVER_MSGID" "mtype m2 = SERVER_MSGID"
    and "sem_down (sem_id m1) (units (m_op m1)) sem_init = Some semsA"
    and "sem_down (sem_id m2) (units (m_op m2)) semsA = Some semsB"
  shows "kv_reachable M \<lparr>sems = semsB, shm = shared_memory_set M,
           pcs = [Holding m1, Holding m2, Receiving, Receiving], answers = []\<rparr>"
proof -
  let ?s = "\<lambda>sm p q. \<lparr>sems = sm, shm = shared_memory_set M, pcs = [p, q, Receiving, Receiving], answers = []\<rparr>"
  have i: "kv_init M = ?s sem_init Receiving Receiving"
    by (simp add: kv_init_def NUM_WORKERS_def numeral_eq_Suc)
  have m: "m1\<lparr>mtype := SERVER_MSGID\<rparr> = m1" "m2\<lparr>mtype := SERVER_MSGID\<rparr> = m2" using assms(3,4) by simp_all
  have 1: "kv_step (?s sem_init Receiving Receiving) (?s sem_init (Locking m1) Receiving)"
    using kv_step.receive [of 0 "?s sem_init Receiving Receiving" m1] assms(1) m by simp
  have 2: "kv_step (?s sem_init (Locking m1) Receiving) (?s sem_init (Locking m1) (Locking m2))"
    using kv_step.receive [of 1 "?s sem_init (Locking m1) Receiving" m2] assms(2) m by simp
  have 3: "kv_step (?s sem_init (Locking m1) (Locking m2)) (?s semsA (Holding m1) (Locking m2))"
    using kv_step.lock [of 0 "?s sem_init (Locking m1) (Locking m2)" m1 semsA] assms(5) by simp
  have 4: "kv_step (?s semsA (Holding m1) (Locking m2)) (?s semsB (Holding m1) (Holding m2))"
    using kv_step.lock [of 1 "?s semsA (Holding m1) (Locking m2)" m2 semsB] assms(6) by simp
  show ?thesis unfolding kv_reachable_def i 
    by (rule converse_rtranclp_into_rtranclp [OF 1 converse_rtranclp_into_rtranclp [OF 2
          converse_rtranclp_into_rtranclp [OF 3 r_into_rtranclp [of kv_step, OF 4]]]])
qed

abbreviation inbox :: "op_type \<Rightarrow> int32 \<Rightarrow> message" where
  "inbox f k \<equiv> \<lparr>mtype = SERVER_MSGID, m_op = f, m_key = k, m_value = 0, m_err = 0, m_from = 5\<rparr>"

lemma hash_small: "get_hash 0 = 0" "get_hash 1 = 1" "get_hash 64 = 64"
  by (simp_all add: get_hash_def)

lemma two_readers: "kv_reachable M \<lparr>sems = sem_init[0 := 2], shm = shared_memory_set M,
   pcs = [Holding (inbox GET 0), Holding (inbox GET 1), Receiving, Receiving], answers = []\<rparr>"
  by (rule two_inside [where semsA = "sem_init[0 := 3]"])
    (simp_all add: sem_id_def hash_small sem_down_def sem_init_def NUM_SECTIONS_def NUM_WORKERS_def)

abbreviation reading :: kv_sys where
  "reading \<equiv> \<lparr>sems = sem_init[0 := 2], shm = shared_memory_set blank,
     pcs = [Holding (inbox GET 0), Holding (inbox GET 1), Receiving, Receiving], answers = []\<rparr>"

lemma reading_inside: "inside 0 (pcs reading ! 0) = Some GET" "inside 0 (pcs reading ! 1) = Some GET"
  by (simp_all add: sem_id_def hash_small NUM_SECTIONS_def)

theorem writers_exclude_witness:
  "kv_reachable blank reading \<and> the (inside 0 (pcs reading ! 0)) = GET \<and> the (inside 0 (pcs reading ! 1)) = GET"
proof -
  have b: "0 < length (pcs reading)" "1 < length (pcs reading)" "(0::nat) \<noteq> 1" "0 < NUM_SECTIONS"
    by (simp_all add: NUM_SECTIONS_def)
  have "GET = GET \<and> GET = GET"
    by (rule writers_exclude [OF two_readers [of blank] b reading_inside])
  then show ?thesis using two_readers [of blank] reading_inside by simp
qed

text \<open>The other buckets are not protected: with 256 buckets in 32 sections and eight
  semaphores, two workers reach the state where both are about to write the same bucket (the
  one of key 64) of the table.\<close>

theorem upper_buckets_unprotected:
  "\<exists>s. kv_reachable M s \<and> inside 8 (pcs s ! 0) = Some SET \<and> inside 8 (pcs s ! 1) = Some SET
     \<and> sem_id (inbox SET 64) = 8 \<and> \<not> 8 < length (sems s)"
proof (intro exI conjI)
  show "kv_reachable M \<lparr>sems = sem_init, shm = shared_memory_set M,
      pcs = [Holding (inbox SET 64), Holding (inbox SET 64), Receiving, Receiving], answers = []\<rparr>"
    by (rule two_inside [where semsA = sem_init])
      (simp_all add: sem_id_def hash_small sem_down_def sem_init_def NUM_SECTIONS_def)
qed (simp_all add: sem_id_def hash_small NUM_SECTIONS_def sem_init_def)

text \<open>C34: The workers do not deadlock: whenever one of them has a message, some worker that has
  one can make its next step.\<close>

theorem workers_progress:
  assumes "kv_reachable M s" "pc \<in> set (pcs s)" "pc_message pc \<noteq> None"
  shows "\<exists>w s'. w < length (pcs s) \<and> pc_message (pcs s ! w) \<noteq> None \<and> kv_step s s' \<and> pcs s' ! w \<noteq> pcs s ! w"
proof -
  from kv_reachable_inv [OF assms(1)] have inv: "kv_inv s" and nq: "\<forall>pc\<in>set (pcs s). no_quit pc" by auto
  show ?thesis
  proof (cases "\<exists>w<length (pcs s). \<exists>m. pcs s ! w = Holding m \<or> pcs s ! w = Releasing m")
    case True
    then obtain w m where w: "w < length (pcs s)" "pcs s ! w = Holding m \<or> pcs s ! w = Releasing m" by blast
    then consider "pcs s ! w = Holding m" | "pcs s ! w = Releasing m" by blast
    then show ?thesis
    proof cases
      case 1
      with nq w have "no_quit (Holding m)" by (metis nth_mem)
      then have "m_op m \<noteq> QUIT" by (simp add: no_quit_def)
      with inv obtain ans M' where "worker_apply m (shm s) = Some (ans, M')"
        unfolding kv_inv_def using worker_apply_spec [of "shm s" m] by metis
      from kv_step.work [OF w(1) 1 this] w(1) 1 show ?thesis by fastforce
    next
      case 2
      obtain sems' where "sem_up (sem_id m) (units (m_op m)) (sems s) = Some sems'"
        by (cases "sem_id m < length (sems s)") (simp_all add: sem_up_def)
      from kv_step.release [OF w(1) 2 this] w(1) 2 show ?thesis by fastforce
    qed
  next
    case False
    then have free: "held i pc = 0" if "pc \<in> set (pcs s)" for i pc
      using that by (cases pc) (auto simp: in_set_conv_nth)
    from assms(2) obtain w where w: "w < length (pcs s)" "pcs s ! w = pc" by (auto simp: in_set_conv_nth)
    with assms(3) False obtain m where m: "pcs s ! w = Locking m" by (cases pc) auto
    have "(\<Sum>pc\<leftarrow>pcs s. held i pc) = 0" for i
      using free by (simp add: sum_list_eq_0_iff)
    then have "sems s ! i = NUM_WORKERS" if "i < NUM_SECTIONS" for i
      using inv that unfolding kv_inv_def by (metis add_0_right)
    moreover have "units (m_op m) \<le> NUM_WORKERS" by (cases "m_op m") (simp_all add: NUM_WORKERS_def)
    ultimately obtain sems' where "sem_down (sem_id m) (units (m_op m)) (sems s) = Some sems'"
      using inv by (cases "sem_id m < NUM_SECTIONS") (simp_all add: sem_down_def kv_inv_def)
    from kv_step.lock [OF w(1) m this] w(1) m show ?thesis by fastforce
  qed
qed

theorem workers_progress_witness:
  "\<exists>w s'. kv_step reading s' \<and> w < 4 \<and> pcs s' ! w \<noteq> pcs reading ! w"
proof -
  have "\<exists>w s'. w < length (pcs reading) \<and> pc_message (pcs reading ! w) \<noteq> None \<and> kv_step reading s'
      \<and> pcs s' ! w \<noteq> pcs reading ! w"
    by (rule workers_progress [OF two_readers, of "Holding (inbox GET 0)"]) simp_all
  moreover have "length (pcs reading) = 4" by simp
  ultimately show ?thesis by metis
qed

section \<open>The protocol\<close>

text \<open>The lines of the README's commands.\<close>

definition command_line :: "op_type \<Rightarrow> int32 \<Rightarrow> int32 \<Rightarrow> string" where
  "command_line f k v = (case f of
      SET \<Rightarrow> ''set'' @ '' '' @ show_int (sint k) @ '' '' @ show_int (sint v) @ newline
    | GET \<Rightarrow> ''get'' @ '' '' @ show_int (sint k) @ newline
    | _ \<Rightarrow> ''del'' @ '' '' @ show_int (sint k) @ newline)"

lemma process_command:
  assumes "f \<noteq> QUIT"
  shows "process_message_from_client r jk jv msg0 fd (command_line f k v @ [CHR 0x00]) =
    Some (1, msg0\<lparr>m_key := k, m_value := (if f = SET then v else jv), m_from := fd,
      mtype := r mod NUM_WORKERS + 2, m_op := f\<rparr>, command_line f k v @ [CHR 0x00])"
proof -
  have "sscanf 2 (command_line f k v @ [CHR 0x00]) =
      Some (case f of SET \<Rightarrow> (''set'', [k, v]) | GET \<Rightarrow> (''get'', [k]) | _ \<Rightarrow> (''del'', [k]))"
    unfolding sscanf_nul
    by (cases f; simp only: command_line_def op_type.case;
        rule sscanf_show; simp add: isspace_def)
  then show ?thesis using assms
    by (cases f) (simp_all add: process_message_from_client_def)
qed

text \<open>A client's line with a set, get or del command and any 32-bit numbers, as printed in
  decimal, becomes exactly one message with that operation, key, value and sender, for one of
  the four workers; nothing is sent back yet.\<close>

theorem command_becomes_message:
  assumes "f \<noteq> QUIT"
  shows "\<exists>s' msg. process_client_event r msg0 fd (Data (command_line f k v)) False s = Some s'
     \<and> to_workers s' = to_workers s @ [msg] \<and> sent s' = sent s \<and> slave_sockets s' = slave_sockets s
     \<and> m_op msg = f \<and> m_key msg = k \<and> (f = SET \<longrightarrow> m_value msg = v) \<and> m_from msg = fd
     \<and> 2 \<le> mtype msg \<and> mtype msg < 2 + NUM_WORKERS"
  using process_command [OF assms]
  by (simp add: process_client_event_def recv_message_from_client_def send_message_to_worker_def Let_def
      NUM_WORKERS_def)

abbreviation server0 :: server where
  "server0 \<equiv> \<lparr>slave_sockets = {5, 6}, buffer = [], to_workers = [], sent = [], closed = []\<rparr>"

theorem command_becomes_message_witness:
  "\<exists>s' msg. process_client_event 7 (msg_of QUIT 0 0) 5 (Data (command_line SET (-3) 8)) False server0 = Some s'
     \<and> to_workers s' = [msg] \<and> m_op msg = SET \<and> m_key msg = -3 \<and> m_value msg = 8"
  using command_becomes_message [of SET 7 "msg_of QUIT 0 0" 5 "-3" 8 server0] by auto

text \<open>A line that is not one of the commands is answered with the failure text and reaches
  no worker; an empty one is ignored. (Words of 32 and more characters overrun \<open>cmd\<close>.)\<close>

theorem bad_command_rejected:
  assumes "case sscanf 2 d of None \<Rightarrow> False | Some (cmd, args) \<Rightarrow> length cmd < 32 \<and>
      \<not> (cmd = ''set'' \<and> length args = 2) \<and> \<not> (cmd = ''get'' \<and> length args = 1) \<and> \<not> (cmd = ''del'' \<and> length args = 1)"
  shows "process_client_event r msg0 fd (Data d) False s =
    Some (s\<lparr>buffer := wrong_command, sent := sent s @ [(fd, wrong_command @ [CHR 0x00])]\<rparr>)"
proof -
  obtain cmd args where c: "sscanf 2 d = Some (cmd, args)" "length cmd < 32"
    "\<not> (cmd = ''set'' \<and> length args = 2)" "\<not> (cmd = ''get'' \<and> length args = 1)" "\<not> (cmd = ''del'' \<and> length args = 1)"
    using assms by (auto split: option.splits)
  have w: "c_string wrong_command = wrong_command"
    by (rule c_string_id) (simp add: wrong_command_def newline_def)
  from c have "\<exists>m. process_message_from_client r (m_key msg0) (m_value msg0) msg0 fd (d @ [CHR 0x00]) = Some (-1, m, wrong_command)"
    by (auto simp: process_message_from_client_def sscanf_nul Let_def)
  then show ?thesis
    by (auto simp: process_client_event_def recv_message_from_client_def send_message_to_client_def w Let_def)
qed

theorem bad_command_rejected_witness:
  "process_client_event 0 (msg_of QUIT 0 0) 5 (Data ''get'') False server0 =
    Some (server0\<lparr>buffer := wrong_command, sent := [(5, wrong_command @ [CHR 0x00])]\<rparr>)"
proof -
  have "sscanf 2 ''get'' = Some (''get'', [])"
    by (simp add: sscanf_def c_string_def scan_word_def isspace_def scan_int_def numeral_2_eq_2 Let_def)
  then have "case sscanf 2 ''get'' of None \<Rightarrow> False | Some (cmd, args) \<Rightarrow> length cmd < 32 \<and>
      \<not> (cmd = ''set'' \<and> length args = 2) \<and> \<not> (cmd = ''get'' \<and> length args = 1) \<and> \<not> (cmd = ''del'' \<and> length args = 1)"
    by simp
  from bad_command_rejected [OF this, of 0 "msg_of QUIT 0 0" 5 server0] show ?thesis by simp
qed

text \<open>The server's part of a command, and its reply to the answer.\<close>

lemma command_sent:
  assumes "f \<noteq> QUIT" "process_event (Client fd (Data (command_line f k v)) False r msg0) s = Some s'" "to_workers s = []"
  obtains q where "to_workers s' = [q]" "sent s' = sent s" "mtype q = r mod NUM_WORKERS + 2"
    "m_op q = f" "m_key q = k" "f = SET \<longrightarrow> m_value q = v" "m_from q = fd"
  using assms(2,3) process_command [OF assms(1)] that
  by (auto simp: process_event_def process_client_event_def recv_message_from_client_def
      send_message_to_worker_def Let_def)

lemma done_reply:
  assumes "m_err a = 0"
  shows "m_op a \<noteq> GET \<Longrightarrow> sent (process_worker_message a s) = sent s @ [(m_from a, ''> DONE'' @ newline @ [CHR 0x00])]"
    and "m_op a = GET \<Longrightarrow> sent (process_worker_message a s) = sent s @
      [(m_from a, ''> DONE: ('' @ show_int (sint (m_key a)) @ '' , '' @ show_int (sint (m_value a)) @ '')'' @ newline @ [CHR 0x00])]"
proof -
  have "c_string (''> DONE'' @ newline) = ''> DONE'' @ newline"
    by (rule c_string_id) (simp add: newline_def)
  moreover have "c_string (''> DONE: ('' @ show_int (sint k) @ '' , '' @ show_int (sint v) @ '')'' @ newline)
      = ''> DONE: ('' @ show_int (sint k) @ '' , '' @ show_int (sint v) @ '')'' @ newline" for k v :: int32
    by (rule c_string_id) (use show_int_no_nul in \<open>simp add: newline_def\<close>)
  ultimately show "m_op a \<noteq> GET \<Longrightarrow> sent (process_worker_message a s) = sent s @ [(m_from a, ''> DONE'' @ newline @ [CHR 0x00])]"
    "m_op a = GET \<Longrightarrow> sent (process_worker_message a s) = sent s @
      [(m_from a, ''> DONE: ('' @ show_int (sint (m_key a)) @ '' , '' @ show_int (sint (m_value a)) @ '')'' @ newline @ [CHR 0x00])]"
    using assms by (simp_all add: process_worker_message_def process_message_from_worker_def send_message_to_client_def
        del: append.simps append_Cons)
qed

text \<open>C20: From text to text, for a client that waits for each reply. On a table with room, its set is sent to
  the worker \<open>rand\<close> chooses; that worker's answer makes the server reply DONE. If its get for the same
  key comes after that, and what any workers have done on the table in between was for other keys, then
  whichever worker gets it, the reply is the line with the key and the value. (A client that does not
  wait can be told that there is no such key: lemma get_overtakes_set of Kv_Queue_Props.)\<close>

theorem set_then_get_replies:
  assumes "pool_inv M" "lookup M k \<noteq> None \<or> card (dom (lookup M)) < BUFFER_SIZE"
    and "process_event (Client fd (Data (command_line SET k v)) False r1 msg1) s = Some s1" "to_workers s = []"
  shows "\<exists>q1 a1 M1. to_workers s1 = [q1] \<and> mtype q1 = r1 mod NUM_WORKERS + 2 \<and> worker_run [q1] M = Some ([a1], M1)
     \<and> sent (process_worker_message a1 s1) = sent s @ [(fd, ''> DONE'' @ newline @ [CHR 0x00])]
     \<and> (\<forall>others bs M2 r2 msg2 t t1. (\<forall>m\<in>set others. m_key m \<noteq> k) \<longrightarrow> worker_run others M1 = Some (bs, M2) \<longrightarrow>
          to_workers t = [] \<longrightarrow> process_event (Client fd (Data (command_line GET k 0)) False r2 msg2) t = Some t1 \<longrightarrow>
          (\<exists>q2 a2 M3. to_workers t1 = [q2] \<and> mtype q2 = r2 mod NUM_WORKERS + 2 \<and> worker_run [q2] M2 = Some ([a2], M3)
             \<and> sent (process_worker_message a2 t1) = sent t @
                 [(fd, ''> DONE: ('' @ show_int (sint k) @ '' , '' @ show_int (sint v) @ '')'' @ newline @ [CHR 0x00])]))"
proof -
  have f: "SET \<noteq> QUIT" "GET \<noteq> QUIT" by simp_all
  obtain q1 where q1: "to_workers s1 = [q1]" "sent s1 = sent s" "mtype q1 = r1 mod NUM_WORKERS + 2"
    "m_op q1 = SET" "m_key q1 = k" "m_value q1 = v" "m_from q1 = fd"
    using command_sent [OF f(1) assms(3,4)] by metis
  obtain M1 where M1: "pool_inv M1" "ht_set k v M = Some (Inr (), M1)" "lookup M1 = (lookup M)(k \<mapsto> v)"
    using ht_set_spec [OF assms(1), of k v] assms(2) by (auto split: if_splits)
  let ?a1 = "q1\<lparr>mtype := SERVER_MSGID, m_err := 0\<rparr>"
  have run1: "worker_run [q1] M = Some ([?a1], M1)" using q1 M1 by (simp add: worker_apply_def)
  have get: "\<exists>q2 a2 M3. to_workers t1 = [q2] \<and> mtype q2 = r2 mod NUM_WORKERS + 2 \<and> worker_run [q2] M2 = Some ([a2], M3)
      \<and> sent (process_worker_message a2 t1) = sent t @
          [(fd, ''> DONE: ('' @ show_int (sint k) @ '' , '' @ show_int (sint v) @ '')'' @ newline @ [CHR 0x00])]"
    if o: "\<forall>m\<in>set others. m_key m \<noteq> k" "worker_run others M1 = Some (bs, M2)" "to_workers t = []"
      "process_event (Client fd (Data (command_line GET k 0)) False r2 msg2) t = Some t1" for others bs M2 r2 msg2 t t1
  proof -
    obtain q2 where q2: "to_workers t1 = [q2]" "sent t1 = sent t" "mtype q2 = r2 mod NUM_WORKERS + 2"
      "m_op q2 = GET" "m_key q2 = k" "m_from q2 = fd"
      using command_sent [OF f(2) o(4,3)] by metis
    have "pool_inv M2" "lookup M2 k = Some v" using worker_run_other [OF M1(1) o(2,1)] M1(3) by simp_all
    then have "worker_run [q2] M2 = Some ([q2\<lparr>mtype := SERVER_MSGID, m_value := v, m_err := 0\<rparr>], M2)"
      using q2 ht_get_spec [of M2 k] by (simp add: worker_apply_def)
    then show ?thesis using q2 done_reply(2) [of "q2\<lparr>mtype := SERVER_MSGID, m_value := v, m_err := 0\<rparr>" t1]
      by (intro exI [of _ q2] exI conjI) simp_all
  qed
  have "sent (process_worker_message ?a1 s1) = sent s @ [(fd, ''> DONE'' @ newline @ [CHR 0x00])]"
    using q1 done_reply(1) [of ?a1 s1] by simp
  with q1 run1 get show ?thesis by (intro exI [of _ q1] exI [of _ ?a1] exI [of _ M1]) blast
qed

theorem set_then_get_replies_witness:
  "\<exists>s1 q1 a1 M1 t1 q2 a2 M3. process_event (Client 5 (Data (command_line SET 3 8)) False 7 (msg_of QUIT 0 0)) server0 = Some s1
     \<and> to_workers s1 = [q1] \<and> mtype q1 = 5 \<and> worker_run [q1] (shared_memory_set blank) = Some ([a1], M1)
     \<and> process_event (Client 5 (Data (command_line GET 3 0)) False 6 (msg_of QUIT 0 0)) server0 = Some t1
     \<and> to_workers t1 = [q2] \<and> mtype q2 = 4 \<and> worker_run [q2] M1 = Some ([a2], M3)
     \<and> sent (process_worker_message a2 t1) =
         [(5, ''> DONE: ('' @ show_int (sint (3 :: int32)) @ '' , '' @ show_int (sint (8 :: int32)) @ '')'' @ newline @ [CHR 0x00])]"
proof -
  let ?e = "Client 5 (Data (command_line SET 3 8)) False 7 (msg_of QUIT 0 0)"
    and ?g = "Client 5 (Data (command_line GET 3 0)) False 6 (msg_of QUIT 0 0)"
  obtain s1 t1 where s1: "process_event ?e server0 = Some s1" and t1: "process_event ?g server0 = Some t1"
    using process_command [of SET] process_command [of GET]
    by (simp add: process_event_def process_client_event_def recv_message_from_client_def Let_def)
  have room: "lookup (shared_memory_set blank) 3 \<noteq> None \<or> card (dom (lookup (shared_memory_set blank))) < BUFFER_SIZE"
    by (simp add: lookup_init BUFFER_SIZE_def)
  have e: "to_workers server0 = []" "sent server0 = []" by simp_all
  from set_then_get_replies [OF lookup_init(1) room s1 e(1)] obtain q1 a1 M1 where
    1: "to_workers s1 = [q1]" "mtype q1 = 7 mod NUM_WORKERS + 2" "worker_run [q1] (shared_memory_set blank) = Some ([a1], M1)"
    and rest: "\<And>others bs M2 r2 msg2 t t1. \<forall>m\<in>set others. m_key m \<noteq> 3 \<Longrightarrow> worker_run others M1 = Some (bs, M2) \<Longrightarrow>
        to_workers t = [] \<Longrightarrow> process_event (Client 5 (Data (command_line GET 3 0)) False r2 msg2) t = Some t1 \<Longrightarrow>
        \<exists>q2 a2 M3. to_workers t1 = [q2] \<and> mtype q2 = r2 mod NUM_WORKERS + 2 \<and> worker_run [q2] M2 = Some ([a2], M3)
           \<and> sent (process_worker_message a2 t1) = sent t @
              [(5, ''> DONE: ('' @ show_int (sint (3 :: int32)) @ '' , '' @ show_int (sint (8 :: int32)) @ '')'' @ newline @ [CHR 0x00])]"
    by blast
  have n: "7 mod NUM_WORKERS + 2 = 5" "6 mod NUM_WORKERS + 2 = 4" by (simp_all add: NUM_WORKERS_def)
  have "\<forall>m\<in>set []. m_key m \<noteq> 3" "worker_run [] M1 = Some ([], M1)" by simp_all
  from rest [OF this e(1) t1] 1 s1 t1 show ?thesis unfolding n e(2) append_Nil by blast
qed

text \<open>When \<open>recv\<close> fails, the server takes the old contents of its buffer for a new line:
  another client's set command is sent to a worker again, with the failing client as sender.\<close>

theorem recv_error_replays_command:
  "\<exists>s1 s2 m1 m2. process_client_event r1 msg1 5 (Data (command_line SET k v)) False server0 = Some s1
     \<and> process_client_event r2 msg2 6 Recv_Error False s1 = Some s2
     \<and> to_workers s2 = [m1, m2] \<and> m_op m2 = SET \<and> m_key m2 = k \<and> m_value m2 = v \<and> m_from m2 = 6"
  using process_command [of SET]
  by (simp add: process_client_event_def recv_message_from_client_def send_message_to_worker_def Let_def)

end
