(* ===== verification/Kv_Access.thy ===== *)
theory Kv_Access imports Hash_Table begin

text \<open>
  The operations of the table of p5 as sequences of accesses to the shared memory (p5/HashTable.cpp),
  so that several processes can work on it at once: one step is one load or store of an
  integer, in the order of the source, and the steps of the processes interleave. Each operation
  alone does what the function of Hash_Table does. The search for a key goes through at most
  as many nodes as there are; a search that would go on is \<open>Stuck\<close>.
\<close>

section \<open>Accesses\<close>

datatype cell = Head nat | Key nat | Value nat | Prev nat | Next nat

fun load :: "cell \<Rightarrow> 'a node_mem \<Rightarrow> int" where
  "load (Head i) M = p_table M ! i"
| "load (Key i) M = sint (node_key (p_data M ! i))"
| "load (Value i) M = sint (node_value (p_data M ! i))"
| "load (Prev i) M = n_prev (p_data M ! i)"
| "load (Next i) M = n_next (p_data M ! i)"

fun store :: "cell \<Rightarrow> int \<Rightarrow> 'a node_mem \<Rightarrow> 'a node_mem" where
  "store (Head i) v M = M\<lparr>p_table := (p_table M)[i := v]\<rparr>"
| "store (Key i) v M = M\<lparr>p_data := set_key (Some i) (word_of_int v) (p_data M)\<rparr>"
| "store (Value i) v M = M\<lparr>p_data := set_value (Some i) (word_of_int v) (p_data M)\<rparr>"
| "store (Prev i) v M = M\<lparr>p_data := set_prev (Some i) v (p_data M)\<rparr>"
| "store (Next i) v M = M\<lparr>p_data := set_next (Some i) v (p_data M)\<rparr>"

datatype prog = Done "hash_error + int" | Load cell "int \<Rightarrow> prog" | Store cell int prog | Stuck

text \<open>The setters and getters of \<open>NodePtr\<close>: nothing is accessed through NULL.\<close>

definition load_ptr :: "node_ptr \<Rightarrow> (nat \<Rightarrow> cell) \<Rightarrow> (node_ptr \<Rightarrow> prog) \<Rightarrow> prog" where
  "load_ptr p field k = (case p of None \<Rightarrow> k None | Some i \<Rightarrow> Load (field i) (\<lambda>n. k (to_ptr n)))"

definition store_ptr :: "node_ptr \<Rightarrow> (nat \<Rightarrow> cell) \<Rightarrow> int \<Rightarrow> prog \<Rightarrow> prog" where
  "store_ptr p field v k = (case p of None \<Rightarrow> k | Some i \<Rightarrow> Store (field i) v k)"

section \<open>The operations\<close>

fun find_prog :: "nat \<Rightarrow> int32 \<Rightarrow> node_ptr \<Rightarrow> (node_ptr \<Rightarrow> prog) \<Rightarrow> prog" where
  "find_prog fuel key None k = k None"
| "find_prog 0 key (Some i) k = Stuck"
| "find_prog (Suc fuel) key (Some i) k = Load (Key i) (\<lambda>v.
     if v \<noteq> sint key then Load (Next i) (\<lambda>n. find_prog fuel key (to_ptr n) k) else k (Some i))"

definition find_node_prog :: "int32 \<Rightarrow> (node_ptr \<Rightarrow> prog) \<Rightarrow> prog" where
  "find_node_prog key k = Load (Head (get_hash key)) (\<lambda>h. find_prog BUFFER_SIZE key (to_ptr h) k)"

definition get_prog :: "int32 \<Rightarrow> prog" where
  "get_prog key = find_node_prog key (\<lambda>p_node. case p_node of
      None \<Rightarrow> Done (Inl NoKey)
    | Some i \<Rightarrow> Load (Value i) (\<lambda>v. Done (Inr v)))"

definition get_node_free_prog :: "(node_ptr \<Rightarrow> prog) \<Rightarrow> prog" where
  "get_node_free_prog k = Load (Head HASH_TABLE_SIZE) (\<lambda>f. case to_ptr f of
      None \<Rightarrow> Done (Inl NoMemory)
    | p_node \<Rightarrow> load_ptr p_node Next (\<lambda>p_free.
        store_ptr p_free Prev (-1) (Store (Head HASH_TABLE_SIZE) (get_num p_free) (k p_node))))"

definition set_prog :: "int32 \<Rightarrow> int32 \<Rightarrow> prog" where
  "set_prog key value = find_node_prog key (\<lambda>p_node.
     if p_node \<noteq> None then store_ptr p_node Value (sint value) (Done (Inr 0))
     else get_node_free_prog (\<lambda>p_node.
       store_ptr p_node Key (sint key) (store_ptr p_node Value (sint value)
        (Load (Head (get_hash key)) (\<lambda>n. (let p_next = to_ptr n in
          store_ptr p_node Next (get_num p_next) (store_ptr p_next Prev (get_num p_node)
            (Store (Head (get_hash key)) (get_num p_node) (Done (Inr 0))))))))))"

fun unlink_prog :: "nat list \<Rightarrow> int \<Rightarrow> int \<Rightarrow> prog \<Rightarrow> prog" where
  "unlink_prog [] num nxt k = k"
| "unlink_prog (i # is) num nxt k = Load (Head i) (\<lambda>h. if h = num then Store (Head i) nxt k else unlink_prog is num nxt k)"

definition set_node_free_prog :: "node_ptr \<Rightarrow> prog \<Rightarrow> prog" where
  "set_node_free_prog p_node k =
     load_ptr p_node Prev (\<lambda>p_prev. load_ptr p_node Next (\<lambda>p_next.
       unlink_prog [0..<HASH_TABLE_SIZE] (get_num p_node) (get_num p_next)
        (store_ptr p_prev Next (get_num p_next) (store_ptr p_next Prev (get_num p_prev)
          (Load (Head HASH_TABLE_SIZE) (\<lambda>f. (let p_free = to_ptr f in
            store_ptr p_free Prev (get_num p_node) (store_ptr p_node Next (get_num p_free)
              (store_ptr p_node Prev (-1) (Store (Head HASH_TABLE_SIZE) (get_num p_node) k))))))))))"

definition del_prog :: "int32 \<Rightarrow> prog" where
  "del_prog key = find_node_prog key (\<lambda>p_node.
     if p_node \<noteq> None then set_node_free_prog p_node (Done (Inr 0)) else Done (Inl NoKey))"

section \<open>One process alone\<close>

primrec exec :: "prog \<Rightarrow> 'a node_mem \<Rightarrow> ((hash_error + int) \<times> 'a node_mem) option" where
  "exec (Done r) M = Some (r, M)"
| "exec (Load c k) M = exec (k (load c M)) M"
| "exec (Store c v k) M = exec k (store c v M)"
| "exec Stuck M = None"

lemma exec_load_ptr [simp]:
  "exec (load_ptr p Next k) M = exec (k (get_next (p_data M) p)) M"
  "exec (load_ptr p Prev k) M = exec (k (get_prev (p_data M) p)) M"
  by (auto simp: load_ptr_def get_next_def get_prev_def split: option.split)

lemma exec_store_ptr [simp]:
  "exec (store_ptr p Key v k) M = exec k (M\<lparr>p_data := set_key p (word_of_int v) (p_data M)\<rparr>)"
  "exec (store_ptr p Value v k) M = exec k (M\<lparr>p_data := set_value p (word_of_int v) (p_data M)\<rparr>)"
  "exec (store_ptr p Prev v k) M = exec k (M\<lparr>p_data := set_prev p v (p_data M)\<rparr>)"
  "exec (store_ptr p Next v k) M = exec k (M\<lparr>p_data := set_next p v (p_data M)\<rparr>)"
  by (auto simp: store_ptr_def set_key_def set_value_def set_prev_def set_next_def split: option.split)

lemma sint_eq [simp]: "sint a = sint b \<longleftrightarrow> a = b"
  for a b :: int32
  by (auto dest: signed_word_eqI)

lemma exec_find:
  "dls (p_data M) p h xs (-1) \<Longrightarrow> length xs \<le> fuel \<Longrightarrow>
     exec (find_prog fuel key (to_ptr h) k) M = exec (k (find (\<lambda>i. node_key (p_data M ! i) = key) xs)) M"
proof (induction xs arbitrary: p h fuel)
  case (Cons x xs)
  then obtain fuel' where "fuel = Suc fuel'" by (cases fuel) auto
  with Cons show ?case by auto
qed simp

lemma chain_length:
  assumes "layout M B F" "h < HASH_TABLE_SIZE"
  shows "length (B h) \<le> BUFFER_SIZE"
proof -
  have "set (B h) \<subseteq> {..<BUFFER_SIZE}" using assms by (auto simp: layout_but_def)
  with distinct_card [OF bucket_ok_distinct [OF layout_bucket [OF assms]]] show ?thesis
    using card_mono [of "{..<BUFFER_SIZE}" "set (B h)"] by simp
qed

lemma exec_find_node:
  assumes "layout M B F" "find_node M key = Some p"
  shows "exec (find_node_prog key k) M = exec (k p) M"
proof -
  have "dll (p_data M) (p_table M ! get_hash key) (B (get_hash key))"
    by (rule bucket_ok_dll [OF layout_bucket [OF assms(1) get_hash_less]])
  from exec_find [OF this chain_length [OF assms(1) get_hash_less]] assms(2) show ?thesis
    by (simp add: find_node_prog_def find_node_layout [OF assms(1)])
qed

lemma exec_unlink:
  "exec (unlink_prog [i..<HASH_TABLE_SIZE] num nxt k) M = exec k (M\<lparr>p_table := unlink_loop i num nxt (p_table M)\<rparr>)"
proof (induction "HASH_TABLE_SIZE - i" arbitrary: i)
  case 0
  then show ?case by (simp add: unlink_loop.simps)
next
  case (Suc n)
  then have "i < HASH_TABLE_SIZE" "n = HASH_TABLE_SIZE - Suc i" by auto
  with Suc.hyps(1) [of "Suc i"] show ?case
    by (subst unlink_loop.simps) (simp add: upt_conv_Cons)
qed

lemma exec_set_node_free:
  "exec (set_node_free_prog p k) M = exec k (set_node_free p M)"
  by (simp add: set_node_free_prog_def set_node_free_def exec_unlink get_num_free_node_def set_num_free_node_def Let_def)

definition op_result :: "hash_error + unit \<Rightarrow> hash_error + int" where
  "op_result r = (case r of Inl e \<Rightarrow> Inl e | Inr _ \<Rightarrow> Inr 0)"

theorem alone_as_function:
  assumes "pool_inv M"
  shows "exec (set_prog k v) M = map_option (map_prod op_result id) (ht_set k v M)"
    and "exec (del_prog k) M = map_option (map_prod op_result id) (ht_del k M)"
    and "exec (get_prog k) M = map_option (map_prod (map_sum id sint) id) (ht_get k M)"
proof -
  obtain B F where l: "layout M B F" using assms by (auto simp: pool_inv_def)
  obtain p where p: "find_node M k = Some p" using find_node_total [OF l] by blast
  note find = exec_find_node [OF l p]
  show "exec (set_prog k v) M = map_option (map_prod op_result id) (ht_set k v M)"
    by (cases "to_ptr (p_table M ! HASH_TABLE_SIZE)")
      (auto simp: set_prog_def find ht_set_def p op_result_def get_node_free_prog_def get_node_free_def
        get_num_free_node_def set_num_free_node_def link_front_def Let_def split: option.split)
  show "exec (del_prog k) M = map_option (map_prod op_result id) (ht_del k M)"
    by (cases p) (simp_all add: del_prog_def find ht_del_def p op_result_def exec_set_node_free)
  show "exec (get_prog k) M = map_option (map_prod (map_sum id sint) id) (ht_get k M)"
    by (cases p) (simp_all add: get_prog_def find ht_get_def p)
qed

end
