(* ===== verification/Kv_Interleave.thy ===== *)
theory Kv_Interleave imports Kv_Access begin

text \<open>
  Several processes on the table of p5 at once, their accesses interleaved one by one: a writer does not
  disturb the readers of other buckets, and two writers can ruin the table although their keys lie in
  different sections, because the free list belongs to no section.
\<close>

section \<open>Interleaving\<close>

type_synonym 'a accesses = "'a node_mem \<times> prog list"

inductive mem_step :: "'a accesses \<Rightarrow> 'a accesses \<Rightarrow> bool" where
  loads: "i < length ps \<Longrightarrow> ps ! i = Load c k \<Longrightarrow> mem_step (M, ps) (M, ps[i := k (load c M)])"
| stores: "i < length ps \<Longrightarrow> ps ! i = Store c v k \<Longrightarrow> mem_step (M, ps) (store c v M, ps[i := k])"

inductive_cases mem_stepE: "mem_step (M, ps) (M', ps')"

section \<open>Which cells a program touches\<close>

text \<open>Run alone, the program stores to no cell of \<open>C\<close>.\<close>

primrec spares :: "prog \<Rightarrow> cell set \<Rightarrow> 'a node_mem \<Rightarrow> bool" where
  "spares (Done r) C M \<longleftrightarrow> True"
| "spares (Load c k) C M \<longleftrightarrow> spares (k (load c M)) C M"
| "spares (Store c v k) C M \<longleftrightarrow> c \<notin> C \<and> spares k C (store c v M)"
| "spares Stuck C M \<longleftrightarrow> True"

text \<open>The program stores nothing and loads cells of \<open>C\<close> only.\<close>

primrec reads_in :: "prog \<Rightarrow> cell set \<Rightarrow> 'a node_mem \<Rightarrow> bool" where
  "reads_in (Done r) C M \<longleftrightarrow> True"
| "reads_in (Load c k) C M \<longleftrightarrow> c \<in> C \<and> reads_in (k (load c M)) C M"
| "reads_in (Store c v k) C M \<longleftrightarrow> False"
| "reads_in Stuck C M \<longleftrightarrow> True"

definition agree :: "cell set \<Rightarrow> 'a node_mem \<Rightarrow> 'a node_mem \<Rightarrow> bool" where
  "agree C M M' \<longleftrightarrow> (\<forall>c\<in>C. load c M = load c M')"

lemma load_store_other: "c \<noteq> c' \<Longrightarrow> load c (store c' v M) = load c M"
  by (cases c; cases c') (auto simp: set_key_def set_value_def set_prev_def set_next_def nth_list_update nth_update_if)

lemma reads_agree:
  "reads_in p C M \<Longrightarrow> agree C M M' \<Longrightarrow> reads_in p C M' \<and> map_option fst (exec p M') = map_option fst (exec p M)"
  by (induction p) (auto simp: agree_def)

section \<open>The cells of other buckets\<close>

definition chain_cells :: "nat \<Rightarrow> nat list \<Rightarrow> cell set" where
  "chain_cells h is = insert (Head h) (Key ` set is \<union> Value ` set is \<union> Next ` set is)"

definition others :: "nat \<Rightarrow> (nat \<Rightarrow> nat list) \<Rightarrow> cell set" where
  "others h B = (\<Union>b\<in>{..<HASH_TABLE_SIZE} - {h}. chain_cells b (B b))"

lemma spares_load_ptr [simp]:
  "spares (load_ptr p Next k) C M = spares (k (get_next (p_data M) p)) C M"
  "spares (load_ptr p Prev k) C M = spares (k (get_prev (p_data M) p)) C M"
  by (auto simp: load_ptr_def get_next_def get_prev_def split: option.split)

lemma spares_store_ptr:
  fixes M :: "'a node_mem"
  assumes "\<And>i. p = Some i \<Longrightarrow> field i \<notin> C" "\<And>M :: 'a node_mem. spares k C M"
  shows "spares (store_ptr p field v k) C M"
  using assms by (auto simp: store_ptr_def split: option.split)

lemma others_simps [simp]:
  "Prev i \<notin> others h B" "Head HASH_TABLE_SIZE \<notin> others h B" "Head h \<notin> others h B"
  by (auto simp: others_def chain_cells_def)

lemma spares_find:
  "dls (p_data M) p h xs (-1) \<Longrightarrow> spares (k (find (\<lambda>i. node_key (p_data M ! i) = key) xs)) C M \<Longrightarrow>
     spares (find_prog fuel key (to_ptr h) k) C M"
proof (induction xs arbitrary: p h fuel)
  case (Cons x xs)
  then show ?case by (cases fuel) (auto split: if_splits)
qed simp

lemma reads_find:
  "dls (p_data M) p h xs (-1) \<Longrightarrow> Key ` set xs \<union> Next ` set xs \<subseteq> C \<Longrightarrow>
   reads_in (k (find (\<lambda>i. node_key (p_data M ! i) = key) xs)) C M \<Longrightarrow>
     reads_in (find_prog fuel key (to_ptr h) k) C M"
proof (induction xs arbitrary: p h fuel)
  case (Cons x xs)
  then show ?case by (cases fuel) (auto split: if_splits)
qed simp

lemma not_others:
  assumes "layout M B F" "h < HASH_TABLE_SIZE" "i \<in> set (B h) \<union> set F"
  shows "Key i \<notin> others h B" "Value i \<notin> others h B" "Next i \<notin> others h B"
proof -
  have "i \<notin> set (B b)" if "b < HASH_TABLE_SIZE" "b \<noteq> h" for b
    using layout_buckets_disjoint [OF assms(1,2), of i b] layout_disjoint [OF assms(1) that(1), of i] that assms(3) by auto
  then show "Key i \<notin> others h B" "Value i \<notin> others h B" "Next i \<notin> others h B"
    by (auto simp: others_def chain_cells_def)
qed

lemma spares_find_node:
  assumes l: "layout M B F" and "find_node M key = Some p" "spares (k p) C M"
  shows "spares (find_node_prog key k) C M"
proof -
  have "dll (p_data M) (p_table M ! get_hash key) (B (get_hash key))"
    by (rule bucket_ok_dll [OF layout_bucket [OF l get_hash_less]])
  from spares_find [OF this] assms(2,3) show ?thesis
    by (simp add: find_node_prog_def find_node_layout [OF l])
qed

section \<open>What the operations touch\<close>

lemma spares_get_node_free:
  fixes M :: "'a node_mem"
  assumes l: "layout M B F" and k: "\<And>f M'. f \<in> set F \<Longrightarrow> spares (k (Some f)) (others h B) (M' :: 'a node_mem)"
  shows "spares (get_node_free_prog k) (others h B) M"
proof (cases F)
  case Nil
  then show ?thesis using layout_free [OF l] by (simp add: get_node_free_prog_def)
next
  case (Cons f F')
  then have f: "to_ptr (p_table M ! HASH_TABLE_SIZE) = Some f" using layout_free [OF l] by simp
  have "spares (store_ptr p Prev (-1) (Store (Head HASH_TABLE_SIZE) (get_num p) (k (Some f)))) (others h B) M" for p
    by (rule spares_store_ptr) (simp_all add: k Cons)
  then show ?thesis by (simp add: get_node_free_prog_def f)
qed

lemma spares_set:
  fixes M :: "'a node_mem"
  assumes l: "layout M B F"
  shows "spares (set_prog key value) (others (get_hash key) B) M"
proof -
  let ?h = "get_hash key"
  obtain p where p: "find_node M key = Some p" using find_node_total [OF l] by blast
  note cells = not_others [OF l get_hash_less, of _ key]
  have link: "spares (Load (Head ?h) (\<lambda>n. (let p_next = to_ptr n in
          store_ptr (Some f) Next (get_num p_next) (store_ptr p_next Prev (get_num (Some f))
            (Store (Head ?h) (get_num (Some f)) (Done (Inr 0))))))) (others ?h B) M'" if "f \<in> set F" for f and M' :: "'a node_mem"
    using cells [of f] that by (auto simp: Let_def intro!: spares_store_ptr)
  have "spares (if p \<noteq> None then store_ptr p Value (sint value) (Done (Inr 0))
     else get_node_free_prog (\<lambda>p_node.
       store_ptr p_node Key (sint key) (store_ptr p_node Value (sint value)
        (Load (Head ?h) (\<lambda>n. (let p_next = to_ptr n in
          store_ptr p_node Next (get_num p_next) (store_ptr p_next Prev (get_num p_node)
            (Store (Head ?h) (get_num p_node) (Done (Inr 0)))))))))) (others ?h B) M"
  proof (cases p)
    case None
    show ?thesis
      unfolding None using cells link
      by (auto intro!: spares_get_node_free [OF l] spares_store_ptr)
  next
    case (Some i)
    then have "i \<in> set (B ?h)" using find_node_SomeD [OF l] p by simp
    then show ?thesis using cells [of i] Some by (auto intro!: spares_store_ptr)
  qed
  then show ?thesis unfolding set_prog_def by (rule spares_find_node [OF l p])
qed

lemma spares_unlink:
  fixes M :: "'a node_mem"
  assumes "\<And>i. i \<in> set is \<Longrightarrow> p_table M ! i = num \<Longrightarrow> Head i \<notin> C" "\<And>M :: 'a node_mem. spares k C M"
  shows "spares (unlink_prog is num nxt k) C M"
  using assms by (induction "is") auto

lemma spares_del:
  fixes M :: "'a node_mem"
  assumes l: "layout M B F"
  shows "spares (del_prog key) (others (get_hash key) B) M"
proof -
  let ?h = "get_hash key"
  obtain p where p: "find_node M key = Some p" using find_node_total [OF l] by blast
  note cells = not_others [OF l get_hash_less, of _ key]
  have "spares (if p \<noteq> None then set_node_free_prog p (Done (Inr 0)) else Done (Inl NoKey)) (others ?h B) M"
  proof (cases p)
    case (Some i)
    then have i: "i \<in> set (B ?h)" using find_node_SomeD [OF l] p by simp
    then obtain ys zs where B: "B ?h = ys @ i # zs" by (auto dest: split_list)
    have d: "dll (p_data M) (p_table M ! ?h) (ys @ i # zs)"
      using bucket_ok_dll [OF layout_bucket [OF l get_hash_less, of key]] by (simp add: B)
    then have "n_prev (p_data M ! i) = last_num (-1) ys" by (simp add: dls_append)
    then have prev: "get_prev (p_data M) (Some i) = (if ys = [] then None else Some (last ys))"
      by (simp add: get_prev_def)
    have "Next j \<notin> others ?h B" if "get_prev (p_data M) (Some i) = Some j" for j
      using cells(3) [of j] that prev B by (auto split: if_splits)
    moreover have "Head j \<notin> others ?h B" if "j \<in> set [0..<HASH_TABLE_SIZE]" "p_table M ! j = int i" for j
    proof -
      have "j < HASH_TABLE_SIZE" using that(1) by simp
      moreover from layout_bucket [OF l this] have "p_table M ! j = head_num (B j) (-1)"
        using dls_head bucket_ok_dll by blast
      with that(2) have "i \<in> set (B j)" by (cases "B j") auto
      ultimately have "j = ?h" using layout_buckets_disjoint [OF l get_hash_less i] by simp
      then show ?thesis by simp
    qed
    ultimately show ?thesis using cells(3) [of i] i
      by (auto simp: Some set_node_free_prog_def Let_def intro!: spares_unlink spares_store_ptr)
  qed simp
  then show ?thesis unfolding del_prog_def by (rule spares_find_node [OF l p])
qed

lemma reads_get:
  assumes l: "layout M B F" and h: "get_hash key \<noteq> h"
  shows "reads_in (get_prog key) (others h B) M"
proof -
  let ?b = "get_hash key"
  have "chain_cells ?b (B ?b) \<subseteq> others h B"
    using h get_hash_less [of key] unfolding others_def by (intro UN_upper) simp
  then have C: "Head ?b \<in> others h B" "Key ` set (B ?b) \<union> Next ` set (B ?b) \<subseteq> others h B" "Value ` set (B ?b) \<subseteq> others h B"
    by (auto simp: chain_cells_def)
  have "dll (p_data M) (p_table M ! ?b) (B ?b)" by (rule bucket_ok_dll [OF layout_bucket [OF l get_hash_less]])
  note find = reads_find [OF this C(2)]
  let ?k = "\<lambda>p_node. case p_node of None \<Rightarrow> Done (Inl NoKey) | Some i \<Rightarrow> Load (Value i) (\<lambda>v. Done (Inr v))"
  have "i \<in> set (B ?b)" if "find (\<lambda>i. node_key (p_data M ! i) = key) (B ?b) = Some i" for i
    using that by (auto simp: find_Some_iff)
  then have "reads_in (?k (find (\<lambda>i. node_key (p_data M ! i) = key) (B ?b))) (others h B) M"
    using C(3) by (auto split: option.split)
  from find [where k = ?k, OF this] C(1) show ?thesis by (simp add: get_prog_def find_node_prog_def)
qed

section \<open>One writer and readers\<close>

datatype change = W_Set int32 int32 | W_Del int32

fun change_key :: "change \<Rightarrow> int32" where
  "change_key (W_Set k v) = k"
| "change_key (W_Del k) = k"

fun change_prog :: "change \<Rightarrow> prog" where
  "change_prog (W_Set k v) = set_prog k v"
| "change_prog (W_Del k) = del_prog k"

fun change_fun :: "change \<Rightarrow> 'a node_mem \<Rightarrow> (hash_error, unit, 'a node_mem) outcome option" where
  "change_fun (W_Set k v) M = ht_set k v M"
| "change_fun (W_Del k) M = ht_del k M"

definition undisturbed :: "cell set \<Rightarrow> 'a node_mem \<Rightarrow> prog \<Rightarrow> prog list \<Rightarrow> 'a accesses \<Rightarrow> bool" where
  "undisturbed C M w rs s \<longleftrightarrow> (case s of (M', ps) \<Rightarrow> length ps = Suc (length rs)
     \<and> exec (ps ! 0) M' = exec w M \<and> spares (ps ! 0) C M' \<and> agree C M M'
     \<and> (\<forall>j<length rs. reads_in (ps ! Suc j) C M' \<and> map_option fst (exec (ps ! Suc j) M') = map_option fst (exec (rs ! j) M)))"

lemma undisturbed_step:
  assumes "mem_step s s'" "undisturbed C M w rs s"
  shows "undisturbed C M w rs s'"
  using assms(1)
proof cases
  case (loads i ps c k M')
  with assms(2) show ?thesis
    by (cases i) (auto simp: undisturbed_def nth_list_update)
next
  case (stores i ps c v k M')
  have u: "length ps = Suc (length rs)" "exec (ps ! 0) M' = exec w M" "spares (ps ! 0) C M'" "agree C M M'"
    "\<And>j. j < length rs \<Longrightarrow> reads_in (ps ! Suc j) C M' \<and> map_option fst (exec (ps ! Suc j) M') = map_option fst (exec (rs ! j) M)"
    using assms(2) by (auto simp: undisturbed_def stores(1))
  have i: "i = 0"
  proof (rule ccontr)
    assume "i \<noteq> 0"
    then obtain j where "i = Suc j" by (cases i) auto
    with u(5) [of j] u(1) stores(3,4) show False by simp
  qed
  have a: "agree C M' (store c v M')"
    using u(3) stores(4) by (auto simp: i agree_def intro!: load_store_other [symmetric])
  have "reads_in (ps ! Suc j) C (store c v M') \<and> map_option fst (exec (ps ! Suc j) (store c v M')) = map_option fst (exec (rs ! j) M)"
    if "j < length rs" for j
    using reads_agree [OF _ a] u(5) [OF that] by metis
  moreover have "agree C M (store c v M')" using u(4) a by (simp add: agree_def)
  ultimately show ?thesis using u(1-3) stores(4) by (simp add: undisturbed_def stores(2) i)
qed

lemma undisturbed_reachable:
  "mem_step\<^sup>*\<^sup>* s s' \<Longrightarrow> undisturbed C M w rs s \<Longrightarrow> undisturbed C M w rs s'"
  by (induction rule: rtranclp_induct) (auto intro: undisturbed_step)

definition get_result :: "'a node_mem \<Rightarrow> int32 \<Rightarrow> hash_error + int" where
  "get_result M k = (case lookup M k of None \<Rightarrow> Inl NoKey | Some v \<Rightarrow> Inr (sint v))"

lemma exec_get:
  assumes "pool_inv M"
  shows "exec (get_prog k) M = Some (get_result M k, M)"
  using alone_as_function(3) [OF assms, of k] ht_get_spec [OF assms, of k]
  by (simp add: get_result_def split: option.split)

lemma exec_change:
  assumes "pool_inv M"
  shows "exec (change_prog w) M = map_option (map_prod op_result id) (change_fun w M)" "change_fun w M \<noteq> None"
  using alone_as_function(1,2) [OF assms] ht_set_spec [OF assms] ht_del_spec [OF assms]
  by (cases w; simp; metis option.distinct(1))+

lemma one_writer:
  assumes inv: "pool_inv M" and keys: "\<forall>k\<in>set ks. get_hash k \<noteq> get_hash (change_key w)"
    and run: "mem_step\<^sup>*\<^sup>* (M, change_prog w # map get_prog ks) (M', ps)"
  shows "\<exists>C. undisturbed C M (change_prog w) (map get_prog ks) (M', ps)"
proof -
  obtain B F where l: "layout M B F" using inv by (auto simp: pool_inv_def)
  let ?C = "others (get_hash (change_key w)) B"
  have "spares (change_prog w) ?C M" using spares_set [OF l] spares_del [OF l] by (cases w) simp_all
  then have "undisturbed ?C M (change_prog w) (map get_prog ks) (M, change_prog w # map get_prog ks)"
    using reads_get [OF l] keys by (auto simp: undisturbed_def agree_def)
  from undisturbed_reachable [OF run this] show ?thesis by blast
qed

section \<open>Every run can be ended\<close>

lemma run_alone:
  "i < length ps \<Longrightarrow> ps ! i = p \<Longrightarrow> exec p M = Some (r, M1) \<Longrightarrow> mem_step\<^sup>*\<^sup>* (M, ps) (M1, ps[i := Done r])"
proof (induction p arbitrary: M ps)
  case (Done x)
  then have "x = r" "M1 = M" "ps[i := Done r] = ps" using list_update_id [of ps i] by auto
  then show ?case by simp
next
  case (Load c k)
  let ?ps = "ps[i := k (load c M)]"
  have "mem_step (M, ps) (M, ?ps)" by (rule mem_step.loads) (use Load.prems in simp_all)
  moreover have "mem_step\<^sup>*\<^sup>* (M, ?ps) (M1, ?ps[i := Done r])"
    by (rule Load.IH [of "k (load c M)"]) (use Load.prems in simp_all)
  ultimately show ?case by (simp add: converse_rtranclp_into_rtranclp)
next
  case (Store c v k)
  let ?ps = "ps[i := k]"
  have "mem_step (M, ps) (store c v M, ?ps)" by (rule mem_step.stores) (use Store.prems in simp_all)
  moreover have "mem_step\<^sup>*\<^sup>* (store c v M, ?ps) (M1, ?ps[i := Done r])"
    by (rule Store.IH) (use Store.prems in simp_all)
  ultimately show ?case by (simp add: converse_rtranclp_into_rtranclp)
qed simp

lemma reads_keep: "reads_in p C M \<Longrightarrow> exec p M = Some (r, M1) \<Longrightarrow> M1 = M"
  by (induction p) auto

lemma readers_finish:
  assumes "undisturbed C M w rs (M1, ps)" "length xs = length rs"
    and "\<And>j. j < length rs \<Longrightarrow> map_option fst (exec (rs ! j) M) = Some (xs ! j)" "n \<le> length rs"
  shows "mem_step\<^sup>*\<^sup>* (M1, ps) (M1, ps ! 0 # map Done (take n xs) @ drop (Suc n) ps)"
  using assms(4)
proof (induction n)
  case 0
  have "ps ! 0 # drop 1 ps = ps" using assms(1) by (cases ps) (auto simp: undisturbed_def)
  then show ?case by simp
next
  case (Suc n)
  let ?ps = "ps ! 0 # map Done (take n xs) @ drop (Suc n) ps"
  have run: "mem_step\<^sup>*\<^sup>* (M1, ps) (M1, ?ps)" using Suc by simp
  note u = undisturbed_reachable [OF run assms(1)]
  have len: "length ps = Suc (length rs)" using assms(1) by (simp add: undisturbed_def)
  have n: "n < length rs" using Suc.prems by simp
  have d: "drop (Suc n) ps = ps ! Suc n # drop (Suc (Suc n)) ps" using n len by (simp add: Cons_nth_drop_Suc)
  have p: "?ps ! Suc n = ps ! Suc n" using n assms(2) len by (simp add: nth_append)
  have "reads_in (ps ! Suc n) C M1" "map_option fst (exec (ps ! Suc n) M1) = Some (xs ! n)"
    using u n p assms(3) [OF n] by (auto simp: undisturbed_def)
  then obtain M2 where M2: "exec (ps ! Suc n) M1 = Some (xs ! n, M2)" "M2 = M1"
    using reads_keep by fastforce
  have "Suc n < length ?ps" using n assms(2) len by simp
  from run_alone [OF this p, of M1 "xs ! n" M1] M2
  have "mem_step\<^sup>*\<^sup>* (M1, ?ps) (M1, ?ps[Suc n := Done (xs ! n)])" by simp
  moreover have "?ps[Suc n := Done (xs ! n)] = ps ! 0 # map Done (take (Suc n) xs) @ drop (Suc (Suc n)) ps"
    using n assms(2) by (simp add: d list_update_append take_Suc_conv_app_nth)
  ultimately show ?case using run by (metis (no_types, lifting) rtranclp_trans)
qed

lemma all_finish:
  assumes u: "undisturbed C M w rs (M', ps)" and w: "exec w M = Some (r, M1)" and xs: "length xs = length rs"
    "\<And>j. j < length rs \<Longrightarrow> map_option fst (exec (rs ! j) M) = Some (xs ! j)"
  shows "mem_step\<^sup>*\<^sup>* (M', ps) (M1, Done r # map Done xs)"
proof -
  have len: "length ps = Suc (length rs)" and "exec (ps ! 0) M' = Some (r, M1)"
    using u w by (simp_all add: undisturbed_def)
  then have run: "mem_step\<^sup>*\<^sup>* (M', ps) (M1, ps[0 := Done r])" by (intro run_alone) auto
  from readers_finish [OF undisturbed_reachable [OF run u] xs order_refl]
  have "mem_step\<^sup>*\<^sup>* (M1, ps[0 := Done r]) (M1, Done r # map Done xs)" using len xs(1) by simp
  with run show ?thesis by simp
qed

section \<open>Schedules\<close>

text \<open>The run in which the processes take their steps in the order of a list.\<close>

fun run_schedule :: "nat list \<Rightarrow> 'a accesses \<Rightarrow> 'a accesses" where
  "run_schedule [] s = s"
| "run_schedule (i # is) (M, ps) = (case ps ! i of
      Load c k \<Rightarrow> run_schedule is (M, ps[i := k (load c M)])
    | Store c v k \<Rightarrow> run_schedule is (store c v M, ps[i := k])
    | _ \<Rightarrow> run_schedule is (M, ps))"

lemma run_schedule_steps: "\<forall>i\<in>set is. i < length (snd s) \<Longrightarrow> mem_step\<^sup>*\<^sup>* s (run_schedule is s)"
proof (induction "is" s rule: run_schedule.induct)
  case (2 i "is" M ps)
  then have i: "i < length ps" by simp
  show ?case
  proof (cases "ps ! i")
    case (Load c k)
    with 2 mem_step.loads [OF i Load, of M] show ?thesis by (simp add: converse_rtranclp_into_rtranclp)
  next
    case (Store c v k)
    with 2 mem_step.stores [OF i Store, of M] show ?thesis by (simp add: converse_rtranclp_into_rtranclp)
  qed (use 2 in simp_all)
qed simp

end
