(* ===== verification/Kv_Race_Props.thy ===== *)
theory Kv_Race_Props imports Kv_Interleave begin

text \<open>
  The properties of the table of p5 when several processes access it at once: gets see a whole table
  beside one set or del in another bucket; two sets at once can lose a key and the free list.
\<close>

text \<open>C11: One set or del and any number of gets of keys in other buckets, every access to the memory
  interleaved: whatever has been done so far, no search is lost, the process that writes returns
  what it returns alone and leaves the memory it leaves alone, each get returns what the table
  held, and the processes can be run to their ends.\<close>

theorem readers_undisturbed:
  assumes "pool_inv M" "\<forall>k\<in>set ks. get_hash k \<noteq> get_hash (change_key w)"
    and "mem_step\<^sup>*\<^sup>* (M, change_prog w # map get_prog ks) (M', ps)"
  shows "\<exists>r M1. change_fun w M = Some (r, M1)
    \<and> mem_step\<^sup>*\<^sup>* (M', ps) (M1, Done (op_result r) # map (\<lambda>k. Done (get_result M k)) ks)
    \<and> Stuck \<notin> set ps
    \<and> (\<forall>x. ps ! 0 = Done x \<longrightarrow> x = op_result r \<and> M' = M1)
    \<and> (\<forall>j<length ks. \<forall>x. ps ! Suc j = Done x \<longrightarrow> x = get_result M (ks ! j))"
proof -
  obtain r M1 where w: "change_fun w M = Some (r, M1)" using exec_change(2) [OF assms(1)] by fastforce
  then have ew: "exec (change_prog w) M = Some (op_result r, M1)" using exec_change(1) [OF assms(1)] by simp
  obtain C where u: "undisturbed C M (change_prog w) (map get_prog ks) (M', ps)" using one_writer [OF assms] by blast
  then have len: "length ps = Suc (length ks)" and e0: "exec (ps ! 0) M' = Some (op_result r, M1)"
    and ej: "\<And>j. j < length ks \<Longrightarrow> map_option fst (exec (ps ! Suc j) M') = Some (get_result M (ks ! j))"
    by (simp_all add: undisturbed_def ew exec_get [OF assms(1)])
  have "mem_step\<^sup>*\<^sup>* (M', ps) (M1, Done (op_result r) # map Done (map (get_result M) ks))"
    by (rule all_finish [OF u ew]) (simp_all add: exec_get [OF assms(1)])
  moreover have "Stuck \<notin> set ps"
  proof
    assume "Stuck \<in> set ps"
    then obtain i where i: "i < length ps" "ps ! i = Stuck" by (auto simp: in_set_conv_nth)
    show False
    proof (cases i)
      case 0
      with e0 i show False by simp
    next
      case (Suc j)
      with ej [of j] i len show False by simp
    qed
  qed
  moreover have "x = get_result M (ks ! j)" if "j < length ks" "ps ! Suc j = Done x" for j x
    using ej [OF that(1)] that(2) by simp
  ultimately show ?thesis using w e0 by (intro exI [of _ r] exI [of _ M1]) (auto simp: comp_def)
qed

lemma hash_examples: "get_hash 0 = 0" "get_hash 8 = 8"
  by code_simp+

theorem readers_undisturbed_witness:
  "\<forall>M. \<exists>M1. mem_step\<^sup>*\<^sup>* (shared_memory_set M, [set_prog 0 5, get_prog 8]) (M1, [Done (Inr 0), Done (Inl NoKey)])
     \<and> ht_set 0 5 (shared_memory_set M) = Some (Inr (), M1)"
proof
  fix M
  let ?M = "shared_memory_set M"
  have "ht_set 0 5 ?M = Some (r, M1) \<Longrightarrow> r = Inr ()" for r M1
    using ht_set_spec [OF lookup_init(1), of M 0 5] by (auto simp: lookup_init BUFFER_SIZE_def)
  moreover have "\<forall>k\<in>set [8]. get_hash k \<noteq> get_hash (change_key (W_Set 0 5))" by (simp add: hash_examples)
  note readers_undisturbed [OF lookup_init(1), of "[8]" "W_Set 0 5" M ?M, OF this, of "[set_prog 0 5, get_prog 8]"]
  ultimately show "\<exists>M1. mem_step\<^sup>*\<^sup>* (?M, [set_prog 0 5, get_prog 8]) (M1, [Done (Inr 0), Done (Inl NoKey)])
      \<and> ht_set 0 5 ?M = Some (Inr (), M1)"
    by (fastforce simp: op_result_def get_result_def lookup_init)
qed

text \<open>Two sets of keys in different sections can both report success although the second key is
  then not in the table and all nodes that are still free are lost: both take the same node.\<close>

theorem two_writers_race:
  "\<exists>M'. mem_step\<^sup>*\<^sup>* (shared_memory_set M, [set_prog 0 5, set_prog 8 7]) (M', [Done (Inr 0), Done (Inr 0)])
     \<and> get_hash 0 div NUM_SECTIONS \<noteq> get_hash 8 div NUM_SECTIONS
     \<and> ht_get 8 M' = Some (Inl NoKey, M') \<and> get_num_free_node M' = -1"
proof -
  let ?s = "(shared_memory_set M, [set_prog 0 5, set_prog 8 7])"
  let ?is = "[0, 0, 1, 1, 1, 1, 1, 1, 1, 1, 1, 1, 0, 0, 0, 0, 0, 0, 0 :: nat]"
  have "\<forall>i\<in>set ?is. i < length (snd ?s)" by simp
  note run = run_schedule_steps [OF this]
  let ?d0 = "p_data (shared_memory_set M)"
  have d0: "n_next (?d0 ! 0) = 1" "length ?d0 = 2048"
    by (simp_all add: shared_memory_set_def BUFFER_SIZE_def)
  have t0: "p_table (shared_memory_set M) ! 0 = -1" "p_table (shared_memory_set M) ! 8 = -1"
    "p_table (shared_memory_set M) ! 256 = 0" "length (p_table (shared_memory_set M)) = 257"
    by (simp_all add: shared_memory_set_def HASH_TABLE_SIZE_def nth_append)
  let ?d1 = "set_prev (Some 1) (-1) ?d0"
  let ?d2 = "set_next (Some 0) (-1) (set_value (Some 0) 7 (set_key (Some 0) 8 ?d1))"
  let ?d3 = "set_next (Some 0) (-1) (set_value (Some 0) 5 (set_key (Some 0) 0 ?d2))"
  let ?M' = "\<lparr>p_table = (p_table (shared_memory_set M))[256 := 1, 8 := 0, 256 := -1, 0 := 0], p_data = ?d3\<rparr>"
  have ptr: "to_ptr 0 = Some 0" "to_ptr 1 = Some 1" by (simp_all add: to_ptr_def)
  have d2: "n_next (set_next (Some 0) (-1) xs ! 0) = -1" if "0 < length xs" for xs :: "'a node_scheme list"
    using that by (simp add: set_next_def)
  have len: "length (set_key p k xs) = length xs" "length (set_value p k xs) = length xs" for p k and xs :: "'a node_scheme list"
    by (simp_all add: set_key_def set_value_def split: option.split)
  have result: "run_schedule ?is ?s = (?M', [Done (Inr 0), Done (Inr 0)])"
    by (simp add: set_prog_def find_node_prog_def hash_examples t0 d0 get_node_free_prog_def load_ptr_def store_ptr_def
        HASH_TABLE_SIZE_def Let_def ptr d2 len)
  have node: "node_key (?d3 ! 0) = 0" "n_next (?d3 ! 0) = -1"
    by (simp_all add: set_next_def set_value_def set_key_def set_prev_def d0)
  have "find_node \<lparr>p_table = t, p_data = d\<rparr> 8 = Some None"
    if "t ! 8 = 0" "node_key (d ! 0) = 0" "n_next (d ! 0) = -1" for t and d :: "'a node_scheme list"
    using that by (simp add: find_node_def hash_examples ptr find_loop.simps [of _ _ "Some 0"] find_loop.simps [of _ _ None])
  from this [OF _ node] have "find_node ?M' 8 = Some None" by (simp add: t0)
  then have "ht_get 8 ?M' = Some (Inl NoKey, ?M')" by (simp add: ht_get_def)
  moreover have "get_num_free_node ?M' = -1" by (simp add: get_num_free_node_def HASH_TABLE_SIZE_def t0)
  moreover have "get_hash 0 div NUM_SECTIONS \<noteq> get_hash 8 div NUM_SECTIONS" by (simp add: hash_examples NUM_SECTIONS_def)
  ultimately show ?thesis using run unfolding result by blast
qed

end
