(* ===== verification/Kv_Queue.thy ===== *)
theory Kv_Queue imports Kv_Server begin

text \<open>
  The message queue between the server and the workers of p5 and the life of both around it
  (p5/Server.cpp, main_worker.cpp): setting up the System V objects and the processes, sending,
  receiving, and the end. The queue is bounded: \<open>msgsnd\<close> with the flags 0 blocks while it is full.
  A worker's work on the table is one step; Kv_Worker has its semaphores. Clients are left out
  here: the server's requests of a turn are arbitrary.
\<close>

section \<open>Setting up\<close>

text \<open>The System V objects of the program's key, if they exist, with their contents.\<close>

record ipc =
  msg_obj :: "message list option"
  sem_obj :: "nat list option"
  shm_obj :: "node table_mem option"

text \<open>
  \<open>msgget\<close>, \<open>semget\<close> and \<open>shmget\<close> with IPC_CREAT yield what there is, or a new object (\<open>fresh\<close>: the
  zeros of a new segment). The semaphores and the table are then initialised, the queue is not.
  The second result are the arguments of the workers' processes.
\<close>

definition init_worker_resources :: "node table_mem \<Rightarrow> ipc \<Rightarrow> ipc \<times> string list" where
  "init_worker_resources fresh k =
     (let msgid = (case msg_obj k of None \<Rightarrow> [] | Some q \<Rightarrow> q);
          shmaddr = (case shm_obj k of None \<Rightarrow> fresh | Some M \<Rightarrow> M);
          init_sem = replicate NUM_SECTIONS NUM_WORKERS
      in (\<lparr>msg_obj = Some msgid, sem_obj = Some init_sem, shm_obj = Some (shared_memory_set shmaddr)\<rparr>,
          map (\<lambda>i. show_int (int (i + 2))) [0..<NUM_WORKERS]))"

text \<open>\<open>worker_id\<close> of a worker: \<open>atoi\<close> of its argument.\<close>

definition atoi :: "string \<Rightarrow> int32" where
  "atoi s = (case scan_int (c_string s) of None \<Rightarrow> 0 | Some (v, _) \<Rightarrow> v)"

section \<open>The queue\<close>

definition MAX_EVENTS :: nat where "MAX_EVENTS = 256"

definition msgsnd :: "nat \<Rightarrow> message \<Rightarrow> message list \<Rightarrow> message list option" where
  "msgsnd cap m q = (if length q < cap then Some (q @ [m]) else None)"

text \<open>The first message of a type; \<open>None\<close> when there is none.\<close>

fun msgrcv :: "nat \<Rightarrow> message list \<Rightarrow> (message \<times> message list) option" where
  "msgrcv t [] = None"
| "msgrcv t (m # q) = (if mtype m = t then Some (m, q) else map_option (\<lambda>(x, q'). (x, m # q')) (msgrcv t q))"

section \<open>Server and workers\<close>

text \<open>The server is in a turn and has these requests still to send, or it stops and has these QUITs
  still to send, or all is removed. A worker waits for a message, has an answer to send, or is gone.\<close>

datatype srv_pc = Turn "message list" | Stop "message list" | Removed

datatype worker_pc = Ready | Answering message | Ended

text \<open>A worker's process up to its loop: its number and the objects it has found. Without the queue the first
  \<open>msgrcv\<close> fails and the process returns; without the table the first message makes it use the
  address \<open>shmat\<close> fails with, which is undefined.\<close>

definition worker_attach :: "string \<Rightarrow> ipc \<Rightarrow> int32 \<times> message list option \<times> node table_mem option \<times> nat list option" where
  "worker_attach arg k = (atoi arg, msg_obj k, shm_obj k, sem_obj k)"

definition worker_begin :: "string \<Rightarrow> ipc \<Rightarrow> (int32 \<times> worker_pc) option" where
  "worker_begin arg k = (case worker_attach arg k of
      (worker_id, None, _, _) \<Rightarrow> Some (worker_id, Ended)
    | (worker_id, Some _, Some _, _) \<Rightarrow> Some (worker_id, Ready)
    | (worker_id, Some _, None, _) \<Rightarrow> None)"

text \<open>\<open>requests\<close> and \<open>taken\<close> are not in the source: what the server has sent and the workers have taken,
  in order. \<open>delivered\<close> are the answers the server has got.\<close>

record mq_sys =
  queue :: "message list"
  table :: "node table_mem"
  srv :: srv_pc
  wst :: "worker_pc list"
  requests :: "message list"
  taken :: "message list"
  delivered :: "message list"

definition quit_messages :: "message \<Rightarrow> message list" where
  "quit_messages msg0 = map (\<lambda>i. msg0\<lparr>m_op := QUIT, mtype := i + 2\<rparr>) [0..<NUM_WORKERS]"

text \<open>What a client's line becomes (\<open>process_message_from_client\<close>).\<close>

definition is_request :: "message \<Rightarrow> bool" where
  "is_request m \<longleftrightarrow> m_op m \<noteq> QUIT \<and> 2 \<le> mtype m \<and> mtype m < NUM_WORKERS + 2"

definition poll_answer :: "mq_sys \<Rightarrow> mq_sys" where
  "poll_answer s = (case msgrcv SERVER_MSGID (queue s) of None \<Rightarrow> s
     | Some (a, q') \<Rightarrow> s\<lparr>queue := q', delivered := delivered s @ [a]\<rparr>)"

inductive mq_step :: "nat \<Rightarrow> mq_sys \<Rightarrow> mq_sys \<Rightarrow> bool" for cap where
  send: "srv s = Turn (m # ms) \<Longrightarrow> msgsnd cap m (queue s) = Some q' \<Longrightarrow>
     mq_step cap s (s\<lparr>queue := q', requests := requests s @ [m], srv := Turn ms\<rparr>)"
| poll: "srv s = Turn [] \<Longrightarrow> length ms \<le> MAX_EVENTS \<Longrightarrow> \<forall>m\<in>set ms. is_request m \<Longrightarrow>
     mq_step cap s ((poll_answer s)\<lparr>srv := Turn ms\<rparr>)"
| signal: "srv s = Turn ms \<Longrightarrow> mq_step cap s (s\<lparr>srv := Stop (quit_messages msg0)\<rparr>)"
| send_quit: "srv s = Stop (m # ms) \<Longrightarrow> msgsnd cap m (queue s) = Some q' \<Longrightarrow>
     mq_step cap s (s\<lparr>queue := q', requests := requests s @ [m], srv := Stop ms\<rparr>)"
| remove: "srv s = Stop [] \<Longrightarrow> \<forall>p\<in>set (wst s). p = Ended \<Longrightarrow> mq_step cap s (s\<lparr>srv := Removed\<rparr>)"
| quit: "w < length (wst s) \<Longrightarrow> wst s ! w = Ready \<Longrightarrow> msgrcv (w + 2) (queue s) = Some (m, q') \<Longrightarrow> m_op m = QUIT \<Longrightarrow>
     mq_step cap s (s\<lparr>queue := q', taken := taken s @ [m], wst := (wst s)[w := Ended]\<rparr>)"
| work: "w < length (wst s) \<Longrightarrow> wst s ! w = Ready \<Longrightarrow> msgrcv (w + 2) (queue s) = Some (m, q') \<Longrightarrow> m_op m \<noteq> QUIT \<Longrightarrow>
     worker_apply (m\<lparr>mtype := SERVER_MSGID\<rparr>) (table s) = Some (ans, M') \<Longrightarrow>
     mq_step cap s (s\<lparr>queue := q', taken := taken s @ [m], table := M', wst := (wst s)[w := Answering ans]\<rparr>)"
| answer: "w < length (wst s) \<Longrightarrow> wst s ! w = Answering ans \<Longrightarrow> msgsnd cap ans (queue s) = Some q' \<Longrightarrow>
     mq_step cap s (s\<lparr>queue := q', wst := (wst s)[w := Ready]\<rparr>)"

text \<open>The start of the program on objects \<open>k\<close>.\<close>

definition mq_start :: "node table_mem \<Rightarrow> ipc \<Rightarrow> mq_sys" where
  "mq_start fresh k = (let (k', args) = init_worker_resources fresh k in
     \<lparr>queue = the (msg_obj k'), table = the (shm_obj k'), srv = Turn [],
      wst = map (\<lambda>_. Ready) args, requests = [], taken = [], delivered = []\<rparr>)"

definition mq_reachable :: "nat \<Rightarrow> node table_mem \<Rightarrow> ipc \<Rightarrow> mq_sys \<Rightarrow> bool" where
  "mq_reachable cap fresh k s \<longleftrightarrow> (mq_step cap)\<^sup>*\<^sup>* (mq_start fresh k) s"

section \<open>Facts on the queue\<close>

lemma msgrcv_None: "msgrcv t q = None \<longleftrightarrow> (\<forall>m\<in>set q. mtype m \<noteq> t)"
  by (induction q) auto

lemma msgrcv_Some:
  "msgrcv t q = Some (m, q') \<Longrightarrow> mtype m = t \<and> mset q = add_mset m (mset q')
     \<and> filter (\<lambda>x. mtype x = t) q = m # filter (\<lambda>x. mtype x = t) q'
     \<and> (\<forall>u. u \<noteq> t \<longrightarrow> filter (\<lambda>x. mtype x = u) q = filter (\<lambda>x. mtype x = u) q')"
proof (induction q arbitrary: q')
  case (Cons x q)
  then show ?case by (cases "mtype x = t") auto
qed simp

lemma msgsnd_Some [simp]: "msgsnd cap m q = Some q' \<longleftrightarrow> length q < cap \<and> q' = q @ [m]"
  by (auto simp: msgsnd_def)

lemma atoi_show_int: "atoi (show_int (sint v)) = v"
  using scan_int_show [of "[]" "[]" v] by (simp add: atoi_def c_string_id show_int_no_nul)

lemma worker_arguments:
  "snd (init_worker_resources fresh k) = map (\<lambda>i. show_int (sint (word_of_nat (i + 2) :: int32))) [0..<NUM_WORKERS]"
  by (simp add: init_worker_resources_def NUM_WORKERS_def upt_rec)

text \<open>The workers that are started find the objects and have the numbers 2 to 5; one that comes too late,
  when the objects are removed, returns at once.\<close>

lemma workers_begin:
  "map (\<lambda>arg. worker_begin arg (fst (init_worker_resources fresh k))) (snd (init_worker_resources fresh k))
     = map (\<lambda>i. Some (word_of_nat (i + 2), Ready)) [0..<NUM_WORKERS]"
  "wst (mq_start fresh k) = map (\<lambda>arg. snd (the (worker_begin arg (fst (init_worker_resources fresh k))))) (snd (init_worker_resources fresh k))"
  "msg_obj k = None \<Longrightarrow> worker_begin arg k = Some (atoi arg, Ended)"
proof -
  show "map (\<lambda>arg. worker_begin arg (fst (init_worker_resources fresh k))) (snd (init_worker_resources fresh k))
     = map (\<lambda>i. Some (word_of_nat (i + 2), Ready)) [0..<NUM_WORKERS]"
    unfolding worker_arguments
    by (simp add: worker_begin_def worker_attach_def atoi_show_int init_worker_resources_def Let_def comp_def)
  show "wst (mq_start fresh k) = map (\<lambda>arg. snd (the (worker_begin arg (fst (init_worker_resources fresh k))))) (snd (init_worker_resources fresh k))"
    by (simp add: mq_start_def worker_begin_def worker_attach_def init_worker_resources_def Let_def comp_def)
qed (simp add: worker_begin_def worker_attach_def)

section \<open>What is sent is taken and answered\<close>

text \<open>What an answer keeps of its request.\<close>

definition tag :: "message \<Rightarrow> op_type \<times> int32 \<times> int" where
  "tag m = (m_op m, m_key m, m_from m)"

fun busy :: "worker_pc \<Rightarrow> (op_type \<times> int32 \<times> int) multiset" where
  "busy (Answering ans) = {#tag ans#}"
| "busy _ = {#}"

definition tags_of :: "(message \<Rightarrow> bool) \<Rightarrow> message list \<Rightarrow> (op_type \<times> int32 \<times> int) multiset" where
  "tags_of P ms = image_mset tag (filter_mset P (mset ms))"

lemma tags_of_simps [simp]:
  "tags_of P [] = {#}" "tags_of P (m # ms) = (if P m then {#tag m#} else {#}) + tags_of P ms"
  "tags_of P (xs @ ys) = tags_of P xs + tags_of P ys"
  by (simp_all add: tags_of_def)

abbreviation is_answer :: "message \<Rightarrow> bool" where
  "is_answer m \<equiv> mtype m = SERVER_MSGID"

fun to_send :: "srv_pc \<Rightarrow> message list" where
  "to_send (Turn ms) = ms"
| "to_send (Stop ms) = ms"
| "to_send Removed = []"

definition mq_inv :: "message list \<Rightarrow> mq_sys \<Rightarrow> bool" where
  "mq_inv q0 s \<longleftrightarrow> length (wst s) = NUM_WORKERS \<and> pool_inv (table s)
     \<and> (\<forall>ans. Answering ans \<in> set (wst s) \<longrightarrow> is_answer ans)
     \<and> (\<forall>m\<in>set (to_send (srv s)). \<not> is_answer m)
     \<and> (\<forall>t. t \<noteq> SERVER_MSGID \<longrightarrow> filter (\<lambda>m. mtype m = t) (q0 @ requests s) = filter (\<lambda>m. mtype m = t) (taken s @ queue s))
     \<and> tags_of (\<lambda>m. m_op m \<noteq> QUIT) (taken s) + tags_of is_answer q0
        = tags_of (\<lambda>_. True) (delivered s) + tags_of is_answer (queue s) + (\<Sum>p\<leftarrow>wst s. busy p)"

lemma tags_of_msgrcv:
  "msgrcv t q = Some (m, q') \<Longrightarrow> tags_of P q = (if P m then {#tag m#} else {#}) + tags_of P q'"
  using msgrcv_Some [of t q m q'] by (simp add: tags_of_def)

lemma mq_inv_start: "mq_inv (queue (mq_start fresh k)) (mq_start fresh k)"
  by (auto simp: mq_inv_def mq_start_def init_worker_resources_def lookup_init Let_def NUM_WORKERS_def
      sum_list_replicate comp_def numeral_eq_Suc)

lemma mq_step_inv:
  assumes "mq_step cap s s'" "mq_inv q0 s"
  shows "mq_inv q0 s'"
  using assms
proof (induction rule: mq_step.induct)
  case (send s m ms q')
  then show ?case by (simp add: mq_inv_def)
next
  case (poll s ms)
  then show ?case
  proof (cases "msgrcv SERVER_MSGID (queue s)")
    case (Some r)
    obtain a q' where r: "r = (a, q')" by (cases r)
    with msgrcv_Some Some have m: "is_answer a" "\<And>t. t \<noteq> SERVER_MSGID \<Longrightarrow> filter (\<lambda>x. mtype x = t) (queue s) = filter (\<lambda>x. mtype x = t) q'"
      by fastforce+
    with r Some poll tags_of_msgrcv [of SERVER_MSGID "queue s" a q' is_answer] show ?thesis
      by (auto simp: poll_answer_def mq_inv_def is_request_def SERVER_MSGID_def)
  qed (auto simp: poll_answer_def mq_inv_def is_request_def SERVER_MSGID_def)
next
  case (signal s ms msg0)
  then show ?case by (auto simp: mq_inv_def quit_messages_def SERVER_MSGID_def)
next
  case (send_quit s m ms q')
  then show ?case by (simp add: mq_inv_def)
next
  case (remove s)
  then show ?case by (simp add: mq_inv_def)
next
  case (quit w s m q')
  note m = msgrcv_Some [OF quit.hyps(3)]
  have t: "tags_of is_answer (queue s) = tags_of is_answer q'"
    using tags_of_msgrcv [OF quit.hyps(3), of is_answer] m by (simp add: SERVER_MSGID_def)
  show ?case using quit m t sum_list_held [OF quit.hyps(1), of busy Ended]
    by (auto simp: mq_inv_def dest: set_update_subset_insert [THEN subsetD])
next
  case (work w s m q' ans M')
  note m = msgrcv_Some [OF work.hyps(3)]
  from worker_apply_spec [of "table s" "m\<lparr>mtype := SERVER_MSGID\<rparr>"] work
  have a: "pool_inv M'" "header ans = header (m\<lparr>mtype := SERVER_MSGID\<rparr>)" by (auto simp: mq_inv_def)
  then have a': "tag ans = tag m" "is_answer ans" by (simp_all add: header_def tag_def)
  have t: "tags_of is_answer (queue s) = tags_of is_answer q'"
    using tags_of_msgrcv [OF work.hyps(3), of is_answer] m by (simp add: SERVER_MSGID_def)
  show ?case using work m t a a' sum_list_held [OF work.hyps(1), of busy "Answering ans"]
    by (auto simp: mq_inv_def dest: set_update_subset_insert [THEN subsetD])
next
  case (answer w s ans q')
  then have "is_answer ans" by (metis mq_inv_def nth_mem)
  then show ?case using answer sum_list_held [OF answer.hyps(1), of busy Ready]
    by (auto simp: mq_inv_def dest: set_update_subset_insert [THEN subsetD])
qed

section \<open>Stopping\<close>

definition answering :: "mq_sys \<Rightarrow> nat" where
  "answering s = size (\<Sum>p\<leftarrow>wst s. busy p)"

definition stop_ok :: "nat \<Rightarrow> message list \<Rightarrow> mq_sys \<Rightarrow> bool" where
  "stop_ok cap q0 s \<longleftrightarrow> mq_inv q0 s \<and> (\<forall>ms. srv s \<noteq> Turn ms)
     \<and> length (queue s) + length (to_send (srv s)) + answering s \<le> cap
     \<and> (\<forall>w<length (wst s). wst s ! w \<noteq> Ended \<longrightarrow>
          (\<exists>m\<in>set (to_send (srv s)) \<union> set (queue s). mtype m = w + 2 \<and> m_op m = QUIT))"

definition stop_work :: "mq_sys \<Rightarrow> nat" where
  "stop_work s = 3 * length (to_send (srv s)) + 2 * length (filter (\<lambda>m. \<not> is_answer m) (queue s))
     + answering s + (if srv s = Removed then 0 else 1)"

lemma answering_update:
  "w < length (wst s) \<Longrightarrow> size (\<Sum>p\<leftarrow>(wst s)[w := p]. busy p) + size (busy (wst s ! w)) = answering s + size (busy p)"
  using sum_list_held [of w "wst s" busy p] unfolding answering_def by (metis size_union)

lemma msgrcv_lengths:
  assumes "msgrcv t q = Some (m, q')"
  shows "length q = Suc (length q')"
    and "length (filter P q) = (if P m then Suc (length (filter P q')) else length (filter P q'))"
proof -
  from msgrcv_Some [OF assms] have m: "mset q = add_mset m (mset q')" by simp
  from arg_cong [OF m, of size] show "length q = Suc (length q')" by simp
  from arg_cong [OF m, of "\<lambda>M. size (filter_mset P M)"]
  show "length (filter P q) = (if P m then Suc (length (filter P q')) else length (filter P q'))"
    by (simp flip: mset_filter split: if_splits)
qed

lemma stop_step:
  assumes "mq_step cap s s'" "stop_ok cap q0 s"
  shows "stop_ok cap q0 s' \<and> stop_work s' < stop_work s"
proof -
  have "mq_inv q0 s'" using assms mq_step_inv by (simp add: stop_ok_def)
  from assms this show ?thesis
  proof (induction rule: mq_step.induct)
    case (quit w s m q')
    note m = msgrcv_Some [OF quit.hyps(3)] and l = msgrcv_lengths [OF quit.hyps(3)]
    have "set (queue s) = insert m (set q')" using m by (metis set_mset_mset set_mset_add_mset_insert)
    with quit m l show ?case using answering_update [OF quit.hyps(1), of Ended]
      by (fastforce simp: stop_ok_def stop_work_def answering_def nth_list_update SERVER_MSGID_def)
  next
    case (work w s m q' ans M')
    note m = msgrcv_Some [OF work.hyps(3)] and l = msgrcv_lengths [OF work.hyps(3)]
    have "set (queue s) = insert m (set q')" using m by (metis set_mset_mset set_mset_add_mset_insert)
    with work m l show ?case using answering_update [OF work.hyps(1), of "Answering ans"]
      by (fastforce simp: stop_ok_def stop_work_def answering_def nth_list_update SERVER_MSGID_def)
  next
    case (answer w s ans q')
    then have "is_answer ans" by (metis mq_inv_def nth_mem stop_ok_def)
    with answer show ?case using answering_update [OF answer.hyps(1), of Ready]
      by (fastforce simp: stop_ok_def stop_work_def answering_def nth_list_update)
  qed (auto simp: stop_ok_def stop_work_def answering_def)
qed

lemma worker_apply_total:
  "pool_inv M \<Longrightarrow> m_op msg \<noteq> QUIT \<Longrightarrow> \<exists>ans M'. worker_apply msg M = Some (ans, M')"
  by (erule (1) worker_apply_spec) blast

lemma stop_progress:
  assumes "stop_ok cap q0 s" "srv s \<noteq> Removed"
  shows "\<exists>s'. mq_step cap s s'"
proof -
  from assms obtain ms where ms: "srv s = Stop ms" by (cases "srv s") (auto simp: stop_ok_def)
  show ?thesis
  proof (cases ms)
    case (Cons m ms')
    with ms assms have "msgsnd cap m (queue s) = Some (queue s @ [m])" by (simp add: stop_ok_def)
    with mq_step.send_quit ms Cons show ?thesis by blast
  next
    case Nil
    show ?thesis
    proof (cases "\<forall>p\<in>set (wst s). p = Ended")
      case True
      with mq_step.remove ms Nil show ?thesis by blast
    next
      case False
      then obtain w where w: "w < length (wst s)" "wst s ! w \<noteq> Ended" by (auto simp: in_set_conv_nth)
      show ?thesis
      proof (cases "wst s ! w")
        case Ready
        obtain m q' where r: "msgrcv (w + 2) (queue s) = Some (m, q')"
          using assms(1) w ms Nil msgrcv_None [of "w + 2" "queue s"]
          by (cases "msgrcv (w + 2) (queue s)") (auto simp: stop_ok_def)
        show ?thesis
        proof (cases "m_op m = QUIT")
          case True
          with mq_step.quit [OF w(1) Ready r] show ?thesis by blast
        next
          case False
          then obtain ans M' where "worker_apply (m\<lparr>mtype := SERVER_MSGID\<rparr>) (table s) = Some (ans, M')"
            using assms(1) worker_apply_total [of "table s" "m\<lparr>mtype := SERVER_MSGID\<rparr>"]
            by (auto simp: stop_ok_def mq_inv_def)
          with mq_step.work [OF w(1) Ready r False] show ?thesis by blast
        qed
      next
        case (Answering ans)
        then have "1 \<le> answering s" using answering_update [OF w(1), of Ready] by simp
        then have "msgsnd cap ans (queue s) = Some (queue s @ [ans])" using assms(1) by (simp add: stop_ok_def)
        with mq_step.answer [OF w(1) Answering] show ?thesis by blast
      qed (use w in simp)
    qed
  qed
qed

interpretation stopping: descending "mq_step cap" "stop_ok cap q0" stop_work "\<lambda>s. srv s = Removed"
  by unfold_locales (use stop_step stop_progress in blast)+

text \<open>The server begins to stop.\<close>

lemma stop_begins:
  assumes "mq_inv q0 s" "length (queue s) + answering s + NUM_WORKERS \<le> cap"
  shows "stop_ok cap q0 (s\<lparr>srv := Stop (quit_messages msg0)\<rparr>)"
proof -
  have "\<exists>m\<in>set (quit_messages msg0) \<union> set (queue s). mtype m = w + 2 \<and> m_op m = QUIT" if "w < length (wst s)" for w
    using that assms(1) by (intro bexI [of _ "msg0\<lparr>m_op := QUIT, mtype := w + 2\<rparr>"])
      (auto simp: quit_messages_def mq_inv_def)
  moreover have "mq_inv q0 (s\<lparr>srv := Stop (quit_messages msg0)\<rparr>)"
    using assms(1) by (auto simp: mq_inv_def quit_messages_def SERVER_MSGID_def)
  moreover have "length (quit_messages msg0) = NUM_WORKERS" by (simp add: quit_messages_def)
  ultimately show ?thesis using assms(2) by (simp add: stop_ok_def answering_def)
qed

lemma mq_reachable_inv:
  assumes "mq_reachable cap fresh k s"
  shows "mq_inv (queue (mq_start fresh k)) s"
  using assms unfolding mq_reachable_def
proof (induction rule: rtranclp_induct)
  case base
  show ?case by (rule mq_inv_start)
next
  case (step s t)
  then show ?case by (blast intro: mq_step_inv)
qed

end
