(* ===== verification/Kv_Queue_Props.thy ===== *)
theory Kv_Queue_Props imports Kv_Queue begin

text \<open>
  The properties of the bounded queue between server and workers of p5: no message is lost or taken
  twice; with room in the queue stopping ends; without, server and workers can wait for each other
  for ever.
\<close>

abbreviation no_objects :: ipc where
  "no_objects \<equiv> \<lparr>msg_obj = None, sem_obj = None, shm_obj = None\<rparr>"

text \<open>C21: Whatever the interleaving, each worker takes the messages of its type exactly once and in
  the order they were sent, those left from an earlier run first; and every request taken has one
  answer, with its operation, key and client, that is with the worker, in the queue or delivered.\<close>

theorem messages_conserved:
  assumes "mq_reachable cap fresh k s"
  shows "(\<forall>w<NUM_WORKERS. filter (\<lambda>m. mtype m = w + 2) (queue (mq_start fresh k) @ requests s)
            = filter (\<lambda>m. mtype m = w + 2) (taken s) @ filter (\<lambda>m. mtype m = w + 2) (queue s))
     \<and> tags_of (\<lambda>m. m_op m \<noteq> QUIT) (taken s) + tags_of is_answer (queue (mq_start fresh k))
        = tags_of (\<lambda>_. True) (delivered s) + tags_of is_answer (queue s) + (\<Sum>p\<leftarrow>wst s. busy p)"
  using mq_reachable_inv [OF assms] by (simp add: mq_inv_def SERVER_MSGID_def)

text \<open>C30: When the queue has room for the answers under way and the four QUITs, the server's end is
  reached: no run of the stopping program is longer than a bound, and every one can be continued
  until all workers have ended and the objects are removed.\<close>

theorem shutdown_ends:
  assumes "mq_reachable cap fresh k s" "length (queue s) + answering s + NUM_WORKERS \<le> cap"
    and "(mq_step cap ^^ n) (s\<lparr>srv := Stop (quit_messages msg0)\<rparr>) s'"
  shows "n \<le> 4 * NUM_WORKERS + 2 * length (queue s) + answering s + 1
     \<and> (\<exists>t. (mq_step cap)\<^sup>*\<^sup>* s' t \<and> srv t = Removed)"
proof -
  let ?t = "s\<lparr>srv := Stop (quit_messages msg0)\<rparr>"
  have ok: "stop_ok cap (queue (mq_start fresh k)) ?t"
    by (rule stop_begins [OF mq_reachable_inv [OF assms(1)] assms(2)])
  from stopping.run_bound [OF assms(3) ok] have r: "stop_ok cap (queue (mq_start fresh k)) s'" "n \<le> stop_work ?t"
    by simp_all
  have "stop_work ?t = 3 * NUM_WORKERS + 2 * length (filter (\<lambda>m. \<not> is_answer m) (queue s)) + answering s + 1"
    by (simp add: stop_work_def answering_def quit_messages_def)
  moreover have "length (filter (\<lambda>m. \<not> is_answer m) (queue s)) \<le> length (queue s)" by (rule length_filter_le)
  ultimately have "n \<le> 4 * NUM_WORKERS + 2 * length (queue s) + answering s + 1" using r(2) by linarith
  with stopping.run_ends [OF r(1)] show ?thesis by blast
qed

section \<open>A full queue\<close>

definition get0 :: message where
  "get0 = \<lparr>mtype = 2, m_op = GET, m_key = 0, m_value = 0, m_err = 0, m_from = 5\<rparr>"

definition no_key0 :: message where
  "no_key0 = get0\<lparr>mtype := SERVER_MSGID, m_err := 1\<rparr>"

lemma get0_simps [simp]: "mtype get0 = 2" "m_op get0 = GET" "mtype no_key0 = Suc 0"
  by (simp_all add: get0_def no_key0_def SERVER_MSGID_def)

definition calm :: "node table_mem \<Rightarrow> nat \<Rightarrow> message list \<Rightarrow> mq_sys \<Rightarrow> bool" where
  "calm fresh n ms s \<longleftrightarrow> queue s = replicate n no_key0 \<and> table s = shared_memory_set fresh
     \<and> srv s = Turn ms \<and> wst s = [Ready, Ready, Ready, Ready]"

lemma get0_answer:
  "worker_apply (get0\<lparr>mtype := SERVER_MSGID\<rparr>) (shared_memory_set fresh) = Some (no_key0, shared_memory_set fresh)"
  by (simp add: worker_apply_def ht_get_spec lookup_init err_code_def no_key0_def get0_def)

lemma msgrcv_get0: "msgrcv (Suc (Suc 0)) (replicate n no_key0 @ [get0]) = Some (get0, replicate n no_key0)"
  by (induction n) (simp_all add: SERVER_MSGID_def)

lemma send_and_work:
  assumes "calm fresh n (get0 # ms) s" "n < cap"
  obtains s' where "(mq_step cap)\<^sup>*\<^sup>* s s'" "queue s' = replicate n no_key0" "table s' = shared_memory_set fresh"
    "srv s' = Turn ms" "wst s' = [Answering no_key0, Ready, Ready, Ready]"
proof -
  let ?s1 = "s\<lparr>queue := replicate n no_key0 @ [get0], requests := requests s @ [get0], srv := Turn ms\<rparr>"
  let ?s2 = "?s1\<lparr>queue := replicate n no_key0, taken := taken ?s1 @ [get0], table := shared_memory_set fresh,
    wst := (wst ?s1)[0 := Answering no_key0]\<rparr>"
  have "mq_step cap s ?s1"
    using assms mq_step.send [of s get0 ms cap "replicate n no_key0 @ [get0]"] by (simp add: calm_def)
  moreover have "mq_step cap ?s1 ?s2"
    by (rule mq_step.work) (use assms(1) in \<open>simp_all add: calm_def get0_answer msgrcv_get0\<close>)
  ultimately have "(mq_step cap)\<^sup>*\<^sup>* s ?s2" by (rule converse_rtranclp_into_rtranclp [OF _ r_into_rtranclp])
  then show ?thesis by (rule that) (use assms(1) in \<open>simp_all add: calm_def\<close>)
qed

lemma serve_one:
  assumes "calm fresh n (get0 # ms) s" "n < cap"
  obtains s' where "(mq_step cap)\<^sup>*\<^sup>* s s'" "calm fresh (Suc n) ms s'"
proof -
  obtain s1 where s1: "(mq_step cap)\<^sup>*\<^sup>* s s1" "queue s1 = replicate n no_key0" "table s1 = shared_memory_set fresh"
    "srv s1 = Turn ms" "wst s1 = [Answering no_key0, Ready, Ready, Ready]"
    using send_and_work [OF assms] .
  let ?s2 = "s1\<lparr>queue := replicate n no_key0 @ [no_key0], wst := (wst s1)[0 := Ready]\<rparr>"
  have "mq_step cap s1 ?s2"
    using s1 assms(2) mq_step.answer [of 0 s1 no_key0 cap] by simp
  with s1(1) have "(mq_step cap)\<^sup>*\<^sup>* s ?s2" by (rule rtranclp.rtrancl_into_rtrancl)
  then show ?thesis by (rule that) (use s1 in \<open>simp add: calm_def replicate_append_same\<close>)
qed

lemma turn_ends:
  assumes "calm fresh n [] s" "length ms \<le> MAX_EVENTS" "\<forall>m\<in>set ms. is_request m"
  obtains s' where "mq_step cap s s'" "calm fresh (n - 1) ms s'"
proof -
  have "calm fresh (n - 1) ms ((poll_answer s)\<lparr>srv := Turn ms\<rparr>)"
    using assms(1) by (cases n) (auto simp: calm_def poll_answer_def SERVER_MSGID_def)
  with assms mq_step.poll [of s ms cap] show ?thesis using that by (auto simp: calm_def)
qed

lemma is_request_get0: "is_request get0"
  by (simp add: is_request_def NUM_WORKERS_def)

lemma queue_fills:
  assumes "n < cap" "length ms \<le> MAX_EVENTS" "\<forall>m\<in>set ms. is_request m"
  shows "\<exists>s. mq_reachable cap fresh no_objects s \<and> calm fresh n ms s"
  using assms
proof (induction n arbitrary: ms)
  case 0
  have "calm fresh 0 [] (mq_start fresh no_objects)"
    by (simp add: calm_def mq_start_def init_worker_resources_def NUM_WORKERS_def upt_rec)
  from turn_ends [OF this 0(2,3)] show ?case unfolding mq_reachable_def by (metis diff_0_eq_0 r_into_rtranclp)
next
  case (Suc n)
  have "\<exists>s. mq_reachable cap fresh no_objects s \<and> calm fresh n [get0, get0] s"
    using Suc by (intro Suc.IH) (auto simp: MAX_EVENTS_def is_request_get0)
  then obtain s where s: "mq_reachable cap fresh no_objects s" "calm fresh n [get0, get0] s" by blast
  obtain s1 where s1: "(mq_step cap)\<^sup>*\<^sup>* s s1" "calm fresh (Suc n) [get0] s1"
    using serve_one [OF s(2), of cap] Suc.prems(1) by (metis Suc_lessD)
  obtain s2 where s2: "(mq_step cap)\<^sup>*\<^sup>* s1 s2" "calm fresh (Suc (Suc n)) [] s2"
    using serve_one [OF s1(2) Suc.prems(1)] .
  obtain s3 where "mq_step cap s2 s3" "calm fresh (Suc n) ms s3"
    using turn_ends [OF s2(2) Suc.prems(2,3)] by (metis diff_Suc_1)
  with s(1) s1(1) s2(1) show ?case unfolding mq_reachable_def by (meson rtranclp.rtrancl_into_rtrancl rtranclp_trans)
qed

text \<open>C27: However large the queue, requests that arrive faster than one in a turn fill it with answers
  until the server cannot send a request, the worker with a request cannot send its answer and
  nobody takes a message: nothing but a signal can happen, and after a signal nothing at all.\<close>

theorem queue_deadlock:
  assumes "0 < cap"
  shows "\<exists>s. mq_reachable cap fresh no_objects s
     \<and> (\<forall>s'. mq_step cap s s' \<longrightarrow> (\<exists>msg0. s' = s\<lparr>srv := Stop (quit_messages msg0)\<rparr>))
     \<and> (\<forall>msg0 s'. \<not> mq_step cap (s\<lparr>srv := Stop (quit_messages msg0)\<rparr>) s')"
proof -
  obtain c where c: "cap = Suc c" using assms by (cases cap) simp_all
  obtain s where s: "mq_reachable cap fresh no_objects s" "calm fresh c [get0, get0, get0] s"
    using queue_fills [of c cap "[get0, get0, get0]" fresh] c is_request_get0 by (auto simp: MAX_EVENTS_def)
  obtain s1 where s1: "(mq_step cap)\<^sup>*\<^sup>* s s1" "queue s1 = replicate c no_key0" "srv s1 = Turn [get0, get0]"
    "wst s1 = [Answering no_key0, Ready, Ready, Ready]"
    using send_and_work [OF s(2)] c by auto
  let ?q = "replicate c no_key0 @ [get0]"
  let ?s2 = "s1\<lparr>queue := ?q, requests := requests s1 @ [get0], srv := Turn [get0]\<rparr>"
  have "mq_step cap s1 ?s2" using s1 c mq_step.send [of s1 get0 "[get0]" cap ?q] by simp
  with s(1) s1(1) have "mq_reachable cap fresh no_objects ?s2"
    unfolding mq_reachable_def by (meson rtranclp.rtrancl_into_rtrancl rtranclp_trans)
  moreover have none: "msgrcv (Suc (Suc w)) ?q = None" if "w \<noteq> 0" for w
    using that by (auto simp: msgrcv_None SERVER_MSGID_def)
  have idle: "\<not> (w < length (wst s1) \<and> wst s1 ! w = Ready \<and> msgrcv (Suc (Suc w)) ?q = Some r)" for w r
    using s1(4) none [of w] by (cases w) auto
  moreover have "\<exists>msg0. s' = ?s2\<lparr>srv := Stop (quit_messages msg0)\<rparr>" if "mq_step cap ?s2 s'" for s'
    using that by cases (use c idle in auto)
  moreover have "\<not> mq_step cap (?s2\<lparr>srv := Stop (quit_messages msg0)\<rparr>) s'" for msg0 s'
    by (rule notI, erule mq_step.cases) (use c idle in \<open>auto simp: quit_messages_def NUM_WORKERS_def upt_rec\<close>)
  ultimately show ?thesis by blast
qed

theorem queue_deadlock_witness:
  "\<forall>fresh. \<exists>s. mq_reachable 512 fresh no_objects s
     \<and> (\<forall>msg0 s'. \<not> mq_step 512 (s\<lparr>srv := Stop (quit_messages msg0)\<rparr>) s')"
proof
  fix fresh
  have "(0::nat) < 512" by simp
  from queue_deadlock [OF this, of fresh] show "\<exists>s. mq_reachable 512 fresh no_objects s
     \<and> (\<forall>msg0 s'. \<not> mq_step 512 (s\<lparr>srv := Stop (quit_messages msg0)\<rparr>) s')"
    by blast
qed

section \<open>Instances\<close>

theorem messages_conserved_witness:
  "\<forall>fresh. \<exists>s. mq_reachable 512 fresh no_objects s \<and> 3 \<le> size (tags_of (\<lambda>m. m_op m \<noteq> QUIT) (taken s))"
proof
  fix fresh
  obtain s where s: "mq_reachable 512 fresh no_objects s" "calm fresh 3 [] s"
    using queue_fills [of 3 512 "[]" fresh] by auto
  have "queue (mq_start fresh no_objects) = []"
    by (simp add: mq_start_def init_worker_resources_def)
  with messages_conserved [OF s(1)] have "tags_of (\<lambda>m. m_op m \<noteq> QUIT) (taken s)
      = tags_of (\<lambda>_. True) (delivered s) + tags_of is_answer (queue s) + (\<Sum>p\<leftarrow>wst s. busy p)" by simp
  moreover have "size (tags_of is_answer (queue s)) = 3"
    using s(2) by (simp add: calm_def tags_of_def SERVER_MSGID_def numeral_3_eq_3)
  ultimately have "3 \<le> size (tags_of (\<lambda>m. m_op m \<noteq> QUIT) (taken s))" by simp
  with s(1) show "\<exists>s. mq_reachable 512 fresh no_objects s \<and> 3 \<le> size (tags_of (\<lambda>m. m_op m \<noteq> QUIT) (taken s))"
    by blast
qed

theorem shutdown_ends_witness:
  "\<forall>fresh msg0. \<exists>t. (mq_step 512)\<^sup>*\<^sup>* ((mq_start fresh no_objects)\<lparr>srv := Stop (quit_messages msg0)\<rparr>) t \<and> srv t = Removed"
proof (intro allI)
  fix fresh msg0
  have r: "mq_reachable 512 fresh no_objects (mq_start fresh no_objects)" by (simp add: mq_reachable_def)
  have l: "length (queue (mq_start fresh no_objects)) + answering (mq_start fresh no_objects) + NUM_WORKERS \<le> 512"
    by (simp add: mq_start_def init_worker_resources_def answering_def NUM_WORKERS_def upt_rec)
  from shutdown_ends [OF r l, of 0] show "\<exists>t. (mq_step 512)\<^sup>*\<^sup>* ((mq_start fresh no_objects)\<lparr>srv := Stop (quit_messages msg0)\<rparr>) t \<and> srv t = Removed"
    by simp
qed

text \<open>What was left in the queue by a run that did not end properly is there for the next one.\<close>

lemma leftover_messages_served:
  "queue (mq_start fresh (k\<lparr>msg_obj := Some q\<rparr>)) = q"
  by (simp add: mq_start_def init_worker_resources_def Let_def)

text \<open>A set and a get of one client for different workers: the get can be taken first, and its answer is that
  there is no such key.\<close>

lemma get_overtakes_set:
  fixes k v :: int32
  defines "q1 \<equiv> \<lparr>mtype = 2, m_op = SET, m_key = k, m_value = v, m_err = 0, m_from = 5\<rparr>"
    and "q2 \<equiv> \<lparr>mtype = 3, m_op = GET, m_key = k, m_value = 0, m_err = 0, m_from = 5\<rparr>"
  assumes "2 \<le> cap"
  shows "\<exists>s. mq_reachable cap fresh \<lparr>msg_obj = None, sem_obj = None, shm_obj = None\<rparr> s \<and> requests s = [q1, q2]
     \<and> queue s = [q1] \<and> taken s = [q2] \<and> wst s ! 1 = Answering (q2\<lparr>mtype := SERVER_MSGID, m_err := 1\<rparr>)"
proof -
  let ?M = "shared_memory_set fresh"
  let ?s = "\<lambda>q p w r t. \<lparr>queue = q, table = ?M, srv = Turn p, wst = w, requests = r, taken = t, delivered = []\<rparr>"
  let ?w = "[Ready, Ready, Ready, Ready]" and ?a = "q2\<lparr>mtype := SERVER_MSGID, m_err := 1\<rparr>"
  have start: "mq_start fresh \<lparr>msg_obj = None, sem_obj = None, shm_obj = None\<rparr> = ?s [] [] ?w [] []"
    by (simp add: mq_start_def init_worker_resources_def NUM_WORKERS_def numeral_eq_Suc)
  have 1: "mq_step cap (?s [] [] ?w [] []) (?s [] [q1, q2] ?w [] [])"
    using mq_step.poll [of "?s [] [] ?w [] []" "[q1, q2]" cap]
    by (simp add: poll_answer_def is_request_def q1_def q2_def MAX_EVENTS_def NUM_WORKERS_def)
  have 2: "mq_step cap (?s [] [q1, q2] ?w [] []) (?s [q1] [q2] ?w [q1] [])"
    using mq_step.send [of "?s [] [q1, q2] ?w [] []" q1 "[q2]" cap "[q1]"] assms(3) by simp
  have 3: "mq_step cap (?s [q1] [q2] ?w [q1] []) (?s [q1, q2] [] ?w [q1, q2] [])"
    using mq_step.send [of "?s [q1] [q2] ?w [q1] []" q2 "[]" cap "[q1, q2]"] assms(3) by simp
  have r: "msgrcv (1 + 2) [q1, q2] = Some (q2, [q1])" by (simp add: q1_def q2_def)
  have "worker_apply (q2\<lparr>mtype := SERVER_MSGID\<rparr>) ?M = Some (?a, ?M)"
    using ht_get_spec [OF lookup_init(1), of k fresh] by (simp add: worker_apply_def q2_def lookup_init err_code_def)
  then have 4: "mq_step cap (?s [q1, q2] [] ?w [q1, q2] []) (?s [q1] [] [Ready, Answering ?a, Ready, Ready] [q1, q2] [q2])"
    using mq_step.work [of 1 "?s [q1, q2] [] ?w [q1, q2] []" q2 "[q1]" ?a ?M cap] r by (simp add: q2_def)
  have run: "mq_reachable cap fresh \<lparr>msg_obj = None, sem_obj = None, shm_obj = None\<rparr>
      (?s [q1] [] [Ready, Answering ?a, Ready, Ready] [q1, q2] [q2])"
    unfolding mq_reachable_def start using 1 2 3 4 by (meson converse_rtranclp_into_rtranclp rtranclp.rtrancl_refl)
  show ?thesis
    by (rule exI [of _ "?s [q1] [] [Ready, Answering ?a, Ready, Ready] [q1, q2] [q2]"]) (use run in simp)
qed

end
