(* ===== verification/Server_Life.thy ===== *)
theory Server_Life imports Sockets begin

text \<open>
  The life of a server object: the constructors, destructors and main functions of p2, p5, p6 and p7
  (Server.cpp, p6/Worker.cpp, main.cpp, main_server.cpp), which set up and take down the same things
  with the same text. What the system calls return is an input. The state is what the process has
  from the system: open descriptors, listening sockets, descriptors watched by an epoll descriptor,
  and the arrays allocated for the events.

  Leaving a destructor by an exception terminates a C++ program. The destructors go over the set of
  the clients and let \<open>disconnect_client\<close> erase the element the iterator is at, after which moving
  the iterator on is undefined: \<open>None\<close> if there is a client.
\<close>

record sys =
  open_fds :: "int set"
  listening :: "int set"
  watched :: "(int \<times> int) set"
  arrays :: nat

text \<open>What the calls of a constructor return; \<open>r_calloc\<close> says if it is not NULL.\<close>

record results =
  r_socket :: int
  r_bind :: int
  r_listen :: int
  r_epoll :: int
  r_ctl :: int
  r_calloc :: bool

datatype 'e thrown = System_Error | Text | Other 'e

text \<open>\<open>master_socket\<close> (in p6 the worker's end of its socket pair) and \<open>master_fd\<close>.\<close>

record sockets =
  master_socket :: int
  master_fd :: int

section \<open>Constructors\<close>

text \<open>The part after the socket listens: the epoll descriptor and the array of events.\<close>

definition open_events :: "results \<Rightarrow> int \<Rightarrow> (int \<Rightarrow> bool) \<Rightarrow> 'm sys_scheme \<Rightarrow> ('e thrown, sockets, 'm sys_scheme) outcome" where
  "open_events r fd failed n =
     (if r_epoll r = -1 then (Inl System_Error, n)
      else (let n1 = n\<lparr>open_fds := insert (r_epoll r) (open_fds n)\<rparr>;
                n2 = (if r_ctl r = -1 then n1 else n1\<lparr>watched := insert (r_epoll r, fd) (watched n1)\<rparr>)
            in if failed (r_ctl r) then (Inl System_Error, n2)
               else if \<not> r_calloc r then (Inl Text, n2)
               else (Inr \<lparr>master_socket = fd, master_fd = r_epoll r\<rparr>, n2\<lparr>arrays := Suc (arrays n2)\<rparr>)))"

definition open_server :: "results \<Rightarrow> 'm sys_scheme \<Rightarrow> ('e thrown, sockets, 'm sys_scheme) outcome" where
  "open_server r n =
     (if r_socket r = -1 then (Inl System_Error, n)
      else (let n1 = n\<lparr>open_fds := insert (r_socket r) (open_fds n)\<rparr>
            in if r_bind r = -1 then (Inl System_Error, n1)
               else if r_listen r = -1 then (Inl System_Error, n1)
               else open_events r (r_socket r) (\<lambda>c. c = -1) (n1\<lparr>listening := insert (r_socket r) (listening n1)\<rparr>)))"

text \<open>The worker of p6 compares the result of \<open>epoll_ctl\<close> with 50 instead of -1.\<close>

definition open_worker :: "results \<Rightarrow> int \<Rightarrow> 'm sys_scheme \<Rightarrow> ('e thrown, sockets, 'm sys_scheme) outcome" where
  "open_worker r fd_passing n = open_events r fd_passing (\<lambda>c. c = 50) n"

text \<open>The server of p6 also keeps its ends of the socket pairs.\<close>

definition passing_construct :: "results \<Rightarrow> int list \<Rightarrow> 'm sys_scheme \<Rightarrow> ('e thrown, sockets \<times> int list, 'm sys_scheme) outcome" where
  "passing_construct r fd_passing n = (case open_server r n of
      (Inl e, n1) \<Rightarrow> (Inl e, n1) | (Inr p, n1) \<Rightarrow> (Inr (p, fd_passing), n1))"

section \<open>Destructors\<close>

text \<open>The end of a program or of a part of it: it returns, or the program is terminated.\<close>

datatype 'r ended = Returns 'r | Terminated

text \<open>\<open>r_del\<close> is the result of the \<open>epoll_ctl\<close> that takes the master socket from the epoll descriptor.\<close>

definition close_server :: "int \<Rightarrow> int set \<Rightarrow> sockets \<Rightarrow> 'm sys_scheme \<Rightarrow> 'm sys_scheme ended option" where
  "close_server r_del slave_sockets p n =
     (if slave_sockets \<noteq> {} then None
      else if r_del = -1 then Some Terminated
      else Some (Returns (n\<lparr>arrays := arrays n - 1,
        open_fds := open_fds n - {master_fd p} - {master_socket p}, listening := listening n - {master_socket p},
        watched := {w \<in> watched n. fst w \<noteq> master_fd p \<and> snd w \<noteq> master_socket p}\<rparr>)))"

text \<open>A worker of p6 closes its end of the socket pair in place of the master socket.\<close>

definition close_worker :: "int \<Rightarrow> int set \<Rightarrow> sockets \<Rightarrow> 'm sys_scheme \<Rightarrow> 'm sys_scheme ended option" where
  "close_worker r_del slave_sockets p n =
     (if slave_sockets \<noteq> {} then None
      else if r_del = -1 then Some Terminated
      else Some (Returns (n\<lparr>arrays := arrays n - 1,
        open_fds := open_fds n - {master_fd p} - {master_socket p},
        watched := {w \<in> watched n. fst w \<noteq> master_fd p \<and> snd w \<noteq> master_socket p}\<rparr>)))"

text \<open>The server of p6 has no clients; it closes its ends of the socket pairs.\<close>

definition close_passing_server :: "int \<Rightarrow> int list \<Rightarrow> sockets \<Rightarrow> 'm sys_scheme \<Rightarrow> 'm sys_scheme ended option" where
  "close_passing_server r_del fd_passing_writers p n =
     (case close_server r_del {} p n of
        Some (Returns n1) \<Rightarrow> Some (Returns (n1\<lparr>open_fds := open_fds n1 - set fd_passing_writers\<rparr>))
      | e \<Rightarrow> e)"

section \<open>Main functions\<close>

text \<open>
  \<open>main\<close> of p2, p5 and p7: it makes the server, calls \<open>start\<close>, which is left by an exception only,
  and deletes the server. The two catch clauses do the same for the exceptions they catch; an
  exception of another type terminates the program. A constructor that throws leaves \<open>server\<close> NULL.
\<close>

definition server_main ::
    "('s \<Rightarrow> ('e thrown, 'o, 's) outcome) \<Rightarrow> ('o \<Rightarrow> 's \<Rightarrow> ('e thrown \<times> 'o \<times> 's) option) \<Rightarrow>
     ('o \<Rightarrow> 's \<Rightarrow> 's ended option) \<Rightarrow> 's \<Rightarrow> 's ended option" where
  "server_main construct start destroy n =
     (case construct n of
        (Inl (Other e), n1) \<Rightarrow> Some Terminated
      | (Inl _, n1) \<Rightarrow> Some (Returns n1)
      | (Inr server, n1) \<Rightarrow>
         (case start server n1 of
            None \<Rightarrow> None
          | Some (Other e, server', n2) \<Rightarrow> Some Terminated
          | Some (_, server', n2) \<Rightarrow> destroy server' n2))"

text \<open>The signal handler of p5 and p7, which exits after the destructor; \<open>None\<close> is NULL.\<close>

definition signal_handler :: "('o \<Rightarrow> 's \<Rightarrow> 's ended option) \<Rightarrow> 'o option \<Rightarrow> 's \<Rightarrow> 's ended option" where
  "signal_handler destroy server n = (case server of None \<Rightarrow> Some (Returns n) | Some p \<Rightarrow> destroy p n)"

text \<open>The clients connected have a descriptor each, which is watched; a socket that was accepted and
  could not be watched (\<open>stray\<close>) is open only.\<close>

definition with_clients :: "int \<Rightarrow> int set \<Rightarrow> int set \<Rightarrow> 'm sys_scheme \<Rightarrow> 'm sys_scheme" where
  "with_clients mfd clients stray n =
     n\<lparr>open_fds := open_fds n \<union> clients \<union> stray, watched := watched n \<union> Pair mfd ` clients\<rparr>"

text \<open>The results of \<open>epoll_ctl\<close> while one event is handled, for each descriptor: there is one call for
  a client that is accepted, and one when a client is disconnected.\<close>

type_synonym ctl = "int \<Rightarrow> int"

section \<open>What they leave\<close>

text \<open>The system yields new descriptors.\<close>

definition fresh_fds :: "results \<Rightarrow> 'm sys_scheme \<Rightarrow> bool" where
  "fresh_fds r n \<longleftrightarrow> r_socket r \<notin> open_fds n \<and> r_epoll r \<notin> open_fds n \<and> r_socket r \<noteq> r_epoll r
     \<and> listening n \<subseteq> open_fds n \<and> (\<forall>(e, fd)\<in>watched n. e \<in> open_fds n \<and> fd \<in> open_fds n)"

text \<open>The descriptors a constructor has opened when it throws.\<close>

definition left_open :: "results \<Rightarrow> int set" where
  "left_open r = (if r_socket r = -1 then {} else if r_bind r = -1 \<or> r_listen r = -1 \<or> r_epoll r = -1 then {r_socket r}
     else {r_socket r, r_epoll r})"

definition opens :: "results \<Rightarrow> bool" where
  "opens r \<longleftrightarrow> r_socket r \<noteq> -1 \<and> r_bind r \<noteq> -1 \<and> r_listen r \<noteq> -1 \<and> r_epoll r \<noteq> -1 \<and> r_ctl r \<noteq> -1 \<and> r_calloc r"

lemma open_server_opens:
  "opens r \<Longrightarrow> open_server r n = (Inr \<lparr>master_socket = r_socket r, master_fd = r_epoll r\<rparr>,
     n\<lparr>open_fds := insert (r_epoll r) (insert (r_socket r) (open_fds n)), listening := insert (r_socket r) (listening n),
       watched := insert (r_epoll r, r_socket r) (watched n), arrays := Suc (arrays n)\<rparr>)"
  by (simp add: open_server_def open_events_def opens_def Let_def)

lemma open_server_throws:
  "\<not> opens r \<Longrightarrow> fst (open_server r n) = Inl Text \<or> fst (open_server r n) = Inl System_Error"
  by (auto simp: open_server_def open_events_def opens_def Let_def)

lemma open_server_leaves:
  "\<not> opens r \<Longrightarrow> open_fds (snd (open_server r n)) = open_fds n \<union> left_open r \<and> arrays (snd (open_server r n)) = arrays n"
  by (auto simp: open_server_def open_events_def opens_def left_open_def Let_def)

lemma close_after_open:
  assumes "opens r" "fresh_fds r n"
  obtains p n1 where "open_server r n = (Inr p, n1)"
    "close_server r_del {} p n1 = Some (if r_del = -1 then Terminated else Returns n)"
proof -
  let ?s = "r_socket r" and ?e = "r_epoll r"
  have "insert ?e (insert ?s (open_fds n)) - {?e} - {?s} = open_fds n"
    "insert ?s (listening n) - {?s} = listening n"
    "{w \<in> insert (?e, ?s) (watched n). fst w \<noteq> ?e \<and> snd w \<noteq> ?s} = watched n"
    using assms(2) by (auto simp: fresh_fds_def)
  with assms(1) show ?thesis by (cases n) (simp add: open_server_opens close_server_def that)
qed

lemma close_with_stray:
  assumes "close_server r_del {} p n1 = Some (if r_del = -1 then Terminated else Returns n)"
  shows "close_server r_del {} p (with_clients mfd {} stray n1) = Some (if r_del = -1 then Terminated
    else Returns (n\<lparr>open_fds := open_fds n \<union> (stray - {master_fd p, master_socket p})\<rparr>))"
  using assms by (cases n; cases n1) (auto simp: close_server_def with_clients_def split: if_splits)

text \<open>A worker of p6 whose end of the socket pair could not be watched goes on as if it were.\<close>

lemma worker_ignores_failure:
  assumes "r_epoll r \<noteq> -1" "r_ctl r = -1" "r_calloc r"
  shows "fst (open_worker r fd n) = Inr \<lparr>master_socket = fd, master_fd = r_epoll r\<rparr>
     \<and> watched (snd (open_worker r fd n)) = watched n"
  using assms by (simp add: open_worker_def open_events_def Let_def)

text \<open>The server of p6 gives back what it had and its ends of the socket pairs.\<close>

lemma passing_server_life:
  assumes "opens r" "fresh_fds r n" "r_del \<noteq> -1"
  shows "\<exists>p n1. passing_construct r fds n = (Inr (p, fds) :: 'e thrown + sockets \<times> int list, n1)
    \<and> close_passing_server r_del fds p n1 = Some (Returns (n\<lparr>open_fds := open_fds n - set fds\<rparr>))"
proof -
  obtain p n1 where "open_server r n = (Inr p :: 'e thrown + sockets, n1)" "close_server r_del {} p n1 = Some (Returns n)"
    using close_after_open [OF assms(1,2), of r_del] assms(3) by auto
  then show ?thesis by (auto simp: close_passing_server_def passing_construct_def)
qed

lemma open_server_more: "sys.more (snd (open_server r n)) = sys.more n"
  by (simp add: open_server_def open_events_def Let_def)

text \<open>What a server's process still has after it was deleted, if a socket could not be watched.\<close>

definition still_open :: "results \<Rightarrow> int set \<Rightarrow> 'm sys_scheme \<Rightarrow> 'm sys_scheme" where
  "still_open r stray n = n\<lparr>open_fds := open_fds n \<union> (stray - {r_epoll r, r_socket r})\<rparr>"

lemma still_open_none [simp]: "still_open r {} n = n"
  by (simp add: still_open_def)

section \<open>The contract of a server object\<close>

text \<open>
  What p2, p5 and p7 have in common: the constructor makes the object's own part (\<open>made\<close>), which may
  throw, does what the process needs besides (\<open>prepare\<close>) and opens the sockets; \<open>start\<close> runs the loop
  and leaves a descriptor per client, and those of sockets it could not watch; the destructor closes
  the sockets and does the rest (\<open>finish\<close>).
\<close>

locale server_life =
  fixes made :: "'e + 'a" and prepare :: "'m sys_scheme \<Rightarrow> 'm sys_scheme"
    and run :: "'a \<Rightarrow> ('e thrown \<times> 'a \<times> int set) option" and clients :: "'a \<Rightarrow> int set"
    and finish :: "'a \<Rightarrow> 'm sys_scheme \<Rightarrow> 'm sys_scheme ended option"
    and construct :: "results \<Rightarrow> 'm sys_scheme \<Rightarrow> ('e thrown, sockets \<times> 'a, 'm sys_scheme) outcome"
    and start :: "sockets \<times> 'a \<Rightarrow> 'm sys_scheme \<Rightarrow> ('e thrown \<times> (sockets \<times> 'a) \<times> 'm sys_scheme) option"
    and destroy :: "int \<Rightarrow> sockets \<times> 'a \<Rightarrow> 'm sys_scheme \<Rightarrow> 'm sys_scheme ended option"
  assumes construct: "construct r n = (case made of
      Inl e \<Rightarrow> (Inl (Other e), n)
    | Inr a \<Rightarrow> (case open_server r (prepare n) of (Inl e, n1) \<Rightarrow> (Inl e, n1) | (Inr p, n1) \<Rightarrow> (Inr (p, a), n1)))"
  and start: "start obj n = map_option (\<lambda>(e, a, stray).
      (e, (fst obj, a), with_clients (master_fd (fst obj)) (clients a) stray n)) (run (snd obj))"
  and destroy: "destroy r_del obj n = (case close_server r_del (clients (snd obj)) (fst obj) n of
      Some (Returns n1) \<Rightarrow> finish (snd obj) n1 | e \<Rightarrow> e)"
  and prepare: "fresh_fds r n \<Longrightarrow> fresh_fds r (prepare n)"
begin

lemma main_throws: "made = Inl e \<Longrightarrow> server_main (construct r) start (destroy r_del) n = Some Terminated"
  by (simp add: server_main_def construct)

lemma main_fails:
  assumes "made = Inr a" "\<not> opens r"
  shows "\<exists>n1. server_main (construct r) start (destroy r_del) n = Some (Returns n1)
    \<and> open_fds n1 = open_fds (prepare n) \<union> left_open r \<and> sys.more n1 = sys.more (prepare n)"
proof -
  obtain e n1 where o: "open_server r (prepare n) = (Inl e, n1)" "e = Text \<or> e = (System_Error :: 'e thrown)"
    using open_server_throws [OF assms(2)] by (metis prod.collapse)
  moreover have "open_fds n1 = open_fds (prepare n) \<union> left_open r" "sys.more n1 = sys.more (prepare n)"
    using open_server_leaves [OF assms(2), of "prepare n"] open_server_more [of r "prepare n"] o(1) by (metis snd_conv)+
  ultimately show ?thesis using assms(1) by (auto simp: server_main_def construct)
qed

lemma main_runs:
  assumes "made = Inr a" "opens r" "fresh_fds r n"
  shows "server_main (construct r) start (destroy r_del) n = (case run a of
      None \<Rightarrow> None
    | Some (Other e, a', stray) \<Rightarrow> Some Terminated
    | Some (_, a', stray) \<Rightarrow> (if clients a' \<noteq> {} then None else if r_del = -1 then Some Terminated
        else finish a' (still_open r stray (prepare n))))"
proof -
  let ?p = "\<lparr>master_socket = r_socket r, master_fd = r_epoll r\<rparr>"
  obtain p n1 where p: "open_server r (prepare n) = (Inr p :: 'e thrown + sockets, n1)" "p = ?p"
    "close_server r_del {} p n1 = Some (if r_del = -1 then Terminated else Returns (prepare n))"
    using close_after_open [OF assms(2) prepare [OF assms(3)]] open_server_opens [OF assms(2)] by (metis Inr_inject prod.inject)
  have d: "destroy r_del (p, a') (with_clients (master_fd p) (clients a') stray n1) =
      (if clients a' \<noteq> {} then None else if r_del = -1 then Some Terminated
       else finish a' (still_open r stray (prepare n)))" for a' stray
  proof (cases "clients a' = {}")
    case True
    with close_with_stray [OF p(3)] p(2) show ?thesis by (simp add: destroy still_open_def)
  next
    case False
    then show ?thesis by (simp add: destroy close_server_def)
  qed
  show ?thesis
  proof (cases "run a")
    case None
    then show ?thesis by (simp add: server_main_def construct start p(1) assms(1))
  next
    case (Some ea)
    obtain e a' stray where "ea = (e, a', stray)" by (cases ea)
    with Some show ?thesis by (cases e) (simp_all add: server_main_def construct start p(1) assms(1) d)
  qed
qed

end

end
