(* ===== verification/Kv_Life.thy ===== *)
theory Kv_Life imports Kv_Queue Server_Life begin

text \<open>
  The main function of the server of p5 (p5/Server.cpp, Server.h, main_server.cpp): the constructor
  makes the System V objects and the worker processes first and opens the socket then; the
  destructor closes the sockets and stops the workers. That stopping them returns is an input
  (\<open>stops\<close>); Kv_Queue_Props says when it does.
\<close>

record kv_world = sys +
  objects :: ipc
  children :: "string list"

type_synonym kv_object = "sockets \<times> server"

definition new_server :: server where
  "new_server = \<lparr>slave_sockets = {}, buffer = [], to_workers = [], sent = [], closed = []\<rparr>"

definition init_client_resources :: "results \<Rightarrow> kv_world \<Rightarrow> (unit thrown, sockets, kv_world) outcome" where
  "init_client_resources r w = open_server r w"

definition free_client_resources :: "int \<Rightarrow> int set \<Rightarrow> sockets \<Rightarrow> kv_world \<Rightarrow> kv_world ended option" where
  "free_client_resources r_del clients p w = close_server r_del clients p w"

definition kv_construct :: "node table_mem \<Rightarrow> results \<Rightarrow> kv_world \<Rightarrow> (unit thrown, kv_object, kv_world) outcome" where
  "kv_construct fresh r w =
     (let (k, args) = init_worker_resources fresh (objects w);
          w1 = w\<lparr>objects := k, children := args\<rparr>
      in case init_client_resources r w1 of (Inl e, w2) \<Rightarrow> (Inl e, w2) | (Inr p, w2) \<Rightarrow> (Inr (p, new_server), w2))"

text \<open>The handlers of Kv_Server with the results of \<open>epoll_ctl\<close>; the set holds the socket that was
  accepted and not watched. An exception leaves \<open>start\<close> at once.\<close>

definition disconnect_client_ctl :: "ctl \<Rightarrow> int \<Rightarrow> server \<Rightarrow> (unit thrown, unit, server) outcome" where
  "disconnect_client_ctl ctl fd s = (if ctl fd = -1 then (Inl System_Error, s) else (Inr (), disconnect_client fd s))"

definition recv_message_ctl :: "ctl \<Rightarrow> int \<Rightarrow> recv_result \<Rightarrow> server \<Rightarrow> (unit thrown, bool, server) outcome" where
  "recv_message_ctl ctl fd res s = (case res of
      Data d \<Rightarrow> (Inr True, s\<lparr>buffer := d @ [CHR 0x00]\<rparr>)
    | Closed \<Rightarrow> (case disconnect_client_ctl ctl fd s of (Inl e, s1) \<Rightarrow> (Inl e, s1) | (Inr _, s1) \<Rightarrow> (Inr False, s1))
    | Recv_Error \<Rightarrow> (Inr True, s))"

definition process_client_event_ctl ::
    "ctl \<Rightarrow> nat \<Rightarrow> message \<Rightarrow> int \<Rightarrow> recv_result \<Rightarrow> bool \<Rightarrow> server \<Rightarrow> (unit thrown, unit, server) outcome option" where
  "process_client_event_ctl ctl r msg0 fd res hup s =
     (case recv_message_ctl ctl fd res s of
        (Inl e, s1) \<Rightarrow> Some (Inl e, s1)
      | (Inr False, s1) \<Rightarrow> Some (Inr (), s1)
      | (Inr True, s1) \<Rightarrow>
         (case process_message_from_client r (m_key msg0) (m_value msg0) msg0 fd (buffer s1) of
            None \<Rightarrow> None
          | Some (q, msg, buf) \<Rightarrow>
             (let s2 = s1\<lparr>buffer := buf\<rparr>;
                  s3 = (if q > 0 then send_message_to_worker msg s2
                        else if q < 0 then send_message_to_client fd s2 else s2)
              in Some (if hup then disconnect_client_ctl ctl fd s3 else (Inr (), s3)))))"

fun process_master_event_ctl :: "ctl \<Rightarrow> int list \<Rightarrow> server \<Rightarrow> (unit thrown, unit, server \<times> int set) outcome" where
  "process_master_event_ctl ctl [] s = (Inr (), s, {})"
| "process_master_event_ctl ctl (fd # fds) s =
     (if fd > 0 \<and> ctl fd = -1 then (Inl System_Error, s, {fd})
      else process_master_event_ctl ctl fds
        (if fd > 0 then s\<lparr>slave_sockets := insert fd (slave_sockets s),
                         sent := sent s @ [(fd, ''Welcome!'' @ newline)]\<rparr> else s))"

definition process_event_ctl :: "event \<times> ctl \<Rightarrow> server \<Rightarrow> (unit thrown, unit, server \<times> int set) outcome option" where
  "process_event_ctl e s = (case e of
      (Master fds, ctl) \<Rightarrow> Some (process_master_event_ctl ctl fds s)
    | (Client fd res hup r msg0, ctl) \<Rightarrow>
        map_option (\<lambda>(x, s'). (x, s', {})) (process_client_event_ctl ctl r msg0 fd res hup s))"

fun process_events_ctl :: "(event \<times> ctl) list \<Rightarrow> server \<Rightarrow> (unit thrown, unit, server \<times> int set) outcome option" where
  "process_events_ctl [] s = Some (Inr (), s, {})"
| "process_events_ctl (e # es) s = (case process_event_ctl e s of
      Some (Inr _, s', _) \<Rightarrow> process_events_ctl es s' | x \<Rightarrow> x)"

fun server_turns_ctl :: "((event \<times> ctl) list \<times> message option) list \<Rightarrow> server
    \<Rightarrow> (unit thrown, unit, server \<times> int set) outcome option" where
  "server_turns_ctl [] s = Some (Inr (), s, {})"
| "server_turns_ctl ((es, ans) # ts) s = (case process_events_ctl es s of
      Some (Inr _, s', _) \<Rightarrow> server_turns_ctl ts (case ans of None \<Rightarrow> s' | Some msg \<Rightarrow> process_worker_message msg s')
    | x \<Rightarrow> x)"

fun server_turns :: "(event list \<times> message option) list \<Rightarrow> server \<Rightarrow> server option" where
  "server_turns [] s = Some s"
| "server_turns ((es, ans) # ts) s = (case server_turn es ans s of None \<Rightarrow> None | Some s' \<Rightarrow> server_turns ts s')"

text \<open>Turns that throw nothing are those of Kv_Server.\<close>

lemma kv_client_event_ctl_ok:
  "process_client_event_ctl ctl r msg0 fd res hup s = Some (Inr (), s') \<Longrightarrow> process_client_event r msg0 fd res hup s = Some s'"
  by (cases res) (auto simp: process_client_event_ctl_def process_client_event_def recv_message_ctl_def
      recv_message_from_client_def disconnect_client_ctl_def Let_def split: option.splits if_splits)

lemma kv_master_event_ctl_ok:
  "process_master_event_ctl ctl fds s = (Inr (), s', stray) \<Longrightarrow> s' = process_master_event fds s \<and> stray = {}"
  by (induction ctl fds s rule: process_master_event_ctl.induct) (auto split: if_splits)

lemma kv_process_events_ctl_ok:
  "process_events_ctl es s = Some (Inr (), s', stray) \<Longrightarrow> process_events (map fst es) s = Some s' \<and> stray = {}"
proof (induction es s rule: process_events_ctl.induct)
  case (2 e es s)
  then show ?case
    by (auto simp: process_event_ctl_def process_event_def dest!: kv_client_event_ctl_ok dest: kv_master_event_ctl_ok
        split: option.splits sum.splits prod.splits event.splits)
qed simp

lemma server_turns_ctl_ok:
  "server_turns_ctl ts s = Some (Inr (), s', stray) \<Longrightarrow>
     server_turns (map (\<lambda>(es, ans). (map fst es, ans)) ts) s = Some s' \<and> stray = {}"
  by (induction ts s rule: server_turns_ctl.induct)
    (auto simp: server_turn_def dest!: kv_process_events_ctl_ok split: option.splits sum.splits)

text \<open>An \<open>epoll_ctl\<close> that fails leaves a socket open that is no client, or a client that cannot be
  disconnected among the clients.\<close>

lemma kv_client_event_ctl_thrown:
  "process_client_event_ctl ctl r msg0 fd res hup s = Some (Inl e, s') \<Longrightarrow> slave_sockets s' = slave_sockets s \<and> ctl fd = -1"
  by (cases res) (auto simp: process_client_event_ctl_def recv_message_ctl_def disconnect_client_ctl_def
      send_message_to_worker_def Kv_Server.send_message_to_client_def Let_def split: option.splits if_splits)

lemma kv_master_event_ctl_thrown:
  "process_master_event_ctl ctl fds s = (Inl e, s', stray) \<Longrightarrow>
     \<exists>fd\<in>set fds. stray = {fd} \<and> 0 < fd \<and> ctl fd = -1 \<and> slave_sockets s \<subseteq> slave_sockets s'"
  by (induction ctl fds s rule: process_master_event_ctl.induct) (auto split: if_splits)

definition kv_start ::
    "((event \<times> ctl) list \<times> message option) list \<Rightarrow> kv_object \<Rightarrow> kv_world \<Rightarrow> (unit thrown \<times> kv_object \<times> kv_world) option" where
  "kv_start ts obj w = (case server_turns_ctl ts (snd obj) of
      None \<Rightarrow> None
    | Some (_, s, stray) \<Rightarrow> Some (System_Error, (fst obj, s), with_clients (master_fd (fst obj)) (slave_sockets s) stray w))"

definition kv_destroy :: "int \<Rightarrow> bool \<Rightarrow> kv_object \<Rightarrow> kv_world \<Rightarrow> kv_world ended option" where
  "kv_destroy r_del stops obj w = (case free_client_resources r_del (slave_sockets (snd obj)) (fst obj) w of
      Some (Returns w1) \<Rightarrow>
        (if stops then Some (Returns (w1\<lparr>objects := \<lparr>msg_obj = None, sem_obj = None, shm_obj = None\<rparr>, children := []\<rparr>))
         else None)
    | e \<Rightarrow> e)"

definition kv_main :: "node table_mem \<Rightarrow> results \<Rightarrow> ((event \<times> ctl) list \<times> message option) list \<Rightarrow> int \<Rightarrow> bool \<Rightarrow> kv_world
    \<Rightarrow> kv_world ended option" where
  "kv_main fresh r ts r_del stops = server_main (kv_construct fresh r) (kv_start ts) (kv_destroy r_del stops)"

definition kv_run :: "((event \<times> ctl) list \<times> message option) list \<Rightarrow> server \<Rightarrow> (unit thrown \<times> server \<times> int set) option" where
  "kv_run ts s = map_option (\<lambda>(_, s', stray). (System_Error, s', stray)) (server_turns_ctl ts s)"

definition kv_prepare :: "node table_mem \<Rightarrow> kv_world \<Rightarrow> kv_world" where
  "kv_prepare fresh w = w\<lparr>objects := fst (init_worker_resources fresh (objects w)),
     children := snd (init_worker_resources fresh (objects w))\<rparr>"

definition kv_finish :: "bool \<Rightarrow> server \<Rightarrow> kv_world \<Rightarrow> kv_world ended option" where
  "kv_finish stops s w = (if stops
     then Some (Returns (w\<lparr>objects := \<lparr>msg_obj = None, sem_obj = None, shm_obj = None\<rparr>, children := []\<rparr>)) else None)"

interpretation kv: server_life "Inr new_server :: unit + server" "kv_prepare fresh" "kv_run ts" slave_sockets "kv_finish stops"
    "kv_construct fresh" "kv_start ts" "\<lambda>r_del. kv_destroy r_del stops"
  by unfold_locales (simp_all add: kv_construct_def kv_start_def kv_run_def kv_destroy_def kv_finish_def kv_prepare_def
      init_client_resources_def free_client_resources_def fresh_fds_def option.map_comp prod.case_eq_if Let_def
      split: option.split ended.split)

text \<open>A worker that waits and has no message waits until the server sends one.\<close>

lemma worker_waits:
  assumes "mq_step cap s s'" "\<forall>m\<in>set (queue s). is_answer m" "\<forall>p\<in>set (wst s). p = Ready"
  shows "wst s' = wst s"
  using assms
proof cases
  case (quit w m q')
  with assms(2) msgrcv_None [of "w + 2" "queue s"] show ?thesis by (auto simp: SERVER_MSGID_def)
next
  case (work w m q' ans M')
  with assms(2) msgrcv_None [of "w + 2" "queue s"] show ?thesis by (auto simp: SERVER_MSGID_def)
next
  case (answer w ans q')
  with assms(3) nth_mem [of w "wst s"] show ?thesis by auto
qed (auto simp: poll_answer_def split: option.split)

lemma more_fields: "sys.more w = sys.more w' \<Longrightarrow> objects w = objects w' \<and> children w = children w'"
  by (cases w; cases w') simp

lemma digits: "char_of (50 :: nat) = CHR ''2''" "char_of (51 :: nat) = CHR ''3''"
    "char_of (52 :: nat) = CHR ''4''" "char_of (53 :: nat) = CHR ''5''"
  by code_simp+

lemma init_objects:
  "init_worker_resources fresh k = (\<lparr>msg_obj = Some (queue (mq_start fresh k)), sem_obj = Some sem_init,
     shm_obj = Some (table (mq_start fresh k))\<rparr>, [''2'', ''3'', ''4'', ''5''])"
  by (simp add: mq_start_def init_worker_resources_def sem_init_def NUM_WORKERS_def upt_rec show_int_def show_nat.simps digits Let_def)

text \<open>How the key-value server's \<open>main\<close> ends. If the constructor fails, because the port is in use
  for one, it returns although the four workers are running and the semaphores, the table and the
  queue exist; with an empty queue every worker waits for ever, since only a server sends. If it
  succeeds and no client is connected when the loop fails, everything is given back but a socket that
  was accepted and could not be watched; with a client connected the end is undefined.\<close>

theorem kv_main_ends:
  assumes "fresh_fds r w"
  shows "if opens r
    then kv_main fresh r ts r_del stops w = (case server_turns_ctl ts new_server of
        None \<Rightarrow> None
      | Some (_, s, stray) \<Rightarrow> (if slave_sockets s \<noteq> {} then None
          else if r_del = -1 then Some Terminated
          else if stops then Some (Returns ((still_open r stray w)\<lparr>objects := \<lparr>msg_obj = None, sem_obj = None, shm_obj = None\<rparr>, children := []\<rparr>))
          else None))
    else \<exists>w1. kv_main fresh r ts r_del stops w = Some (Returns w1)
      \<and> open_fds w1 = open_fds w \<union> left_open r \<and> children w1 = [''2'', ''3'', ''4'', ''5'']
      \<and> objects w1 = fst (init_worker_resources fresh (objects w))
      \<and> (msg_obj (objects w) = None \<longrightarrow>
          (\<forall>cap s'. mq_step cap (mq_start fresh (objects w)) s' \<longrightarrow> wst s' = wst (mq_start fresh (objects w))))"
proof (cases "opens r")
  case False
  have "wst s' = wst (mq_start fresh (objects w))"
    if "mq_step cap (mq_start fresh (objects w)) s'" "msg_obj (objects w) = None" for cap s'
    using worker_waits [OF that(1)] that(2) by (simp add: mq_start_def init_worker_resources_def)
  with False kv.main_fails [OF refl False, of fresh ts r_del stops w] show ?thesis
    by (auto simp: kv_main_def kv_prepare_def init_objects dest: more_fields)
next
  case True
  from kv.main_runs [OF refl True assms, of fresh ts r_del stops] True show ?thesis
    by (auto simp: kv_main_def kv_run_def kv_finish_def kv_prepare_def still_open_def split: option.split)
qed

theorem kv_main_ends_witness:
  "\<forall>fresh. \<exists>w1. kv_main fresh \<lparr>r_socket = 3, r_bind = -1, r_listen = 0, r_epoll = 4, r_ctl = 0, r_calloc = True\<rparr> [] 0 True
       \<lparr>open_fds = {0, 1, 2}, listening = {}, watched = {}, arrays = 0,
         objects = \<lparr>msg_obj = None, sem_obj = None, shm_obj = None\<rparr>, children = []\<rparr> = Some (Returns w1)
     \<and> open_fds w1 = {0, 1, 2, 3} \<and> children w1 = [''2'', ''3'', ''4'', ''5'']"
proof
  fix fresh
  let ?r = "\<lparr>r_socket = 3, r_bind = -1, r_listen = 0, r_epoll = 4, r_ctl = 0, r_calloc = True\<rparr>"
  let ?w = "\<lparr>open_fds = {0, 1, 2}, listening = {}, watched = {}, arrays = 0,
     objects = \<lparr>msg_obj = None, sem_obj = None, shm_obj = None\<rparr>, children = []\<rparr>"
  have f: "fresh_fds ?r ?w" and o: "\<not> opens ?r" by (simp_all add: fresh_fds_def opens_def)
  from kv_main_ends [OF f, of fresh "[]" 0 True] obtain w1 where
    "kv_main fresh ?r [] 0 True ?w = Some (Returns w1)" "open_fds w1 = {0, 1, 2} \<union> left_open ?r"
    "children w1 = [''2'', ''3'', ''4'', ''5'']"
    using o by auto
  then show "\<exists>w1. kv_main fresh ?r [] 0 True ?w = Some (Returns w1)
     \<and> open_fds w1 = {0, 1, 2, 3} \<and> children w1 = [''2'', ''3'', ''4'', ''5'']"
    by (auto simp: left_open_def)
qed

end
