(* ===== verification/Ttl_Worker.thy ===== *)
theory Ttl_Worker imports Kv_Interface Scan begin

text \<open>
  A worker of p6 (p6/Worker.cpp): it reads the clients' lines itself, works on the shared
  table and replies. Its semaphore calls are \<open>sem_down\<close> before and \<open>sem_up\<close> after the work;
  as written, the first posts and the second waits. The array of semaphores has eight
  elements and is indexed by the hash divided by eight; an index beyond it is undefined
  behaviour, \<open>None\<close> here. The other sharer is the cleaner process of p6/main.cpp.
\<close>

section \<open>From a line to a query\<close>

datatype op_type = GET | SET | DEL

record query =
  q_key :: int32
  q_value :: int32
  q_from :: int
  q_ttl :: int32
  q_op :: op_type

text \<open>\<open>process_query\<close>; \<open>q0\<close> holds what the uninitialised variables hold. \<open>None\<close>: the word
  does not fit \<open>cmd[32]\<close>.\<close>

definition process_query :: "query \<Rightarrow> int \<Rightarrow> string \<Rightarrow> (int \<times> query \<times> string) option" where
  "process_query q0 client_fd buf =
     (case sscanf 3 buf of
        None \<Rightarrow> Some (0, q0, buf)
      | Some (cmd, args) \<Rightarrow>
         (if 32 \<le> length cmd then None
          else (let n_args = 1 + length args;
                    q = q0\<lparr>q_key := (if 2 \<le> n_args then args ! 0 else q_key q0),
                           q_value := (if 4 \<le> n_args then args ! 2 else q_value q0),
                           q_from := client_fd,
                           q_ttl := (if 3 \<le> n_args then args ! 1 else q_ttl q0)\<rparr>
                in if cmd = ''set'' \<and> n_args = 4 then Some (1, q\<lparr>q_op := SET\<rparr>, buf)
                   else if cmd = ''get'' \<and> n_args = 2 then Some (1, q\<lparr>q_op := GET\<rparr>, buf)
                   else if cmd = ''del'' \<and> n_args = 2 then Some (1, q\<lparr>q_op := DEL\<rparr>, buf)
                   else Some (-1, q, wrong_command))))"

section \<open>From a query to a reply\<close>

definition done_text :: "query \<Rightarrow> string" where
  "done_text q = (if q_op q = GET
     then ''> DONE: ('' @ show_int (sint (q_key q)) @ '' , '' @ show_int (sint (q_value q)) @ '')'' @ newline
     else ''> DONE'' @ newline)"

definition fail_text :: "query \<Rightarrow> hash_error \<Rightarrow> string" where
  "fail_text q e = (case e of
      NoKey \<Rightarrow> ''> FAIL: There is no key '' @ show_int (sint (q_key q)) @ newline
    | NoMemory \<Rightarrow> ''> FAIL: There is no more free memory left'' @ newline
    | NotExists \<Rightarrow> ''> FAIL: Element with key '' @ show_int (sint (q_key q)) @ '' is expired'' @ newline)"

text \<open>The body of \<open>execute_query\<close> between the semaphore calls; \<open>t0\<close> and \<open>t1\<close> are the
  times the table's operation reads.\<close>

definition query_apply :: "int \<Rightarrow> int \<Rightarrow> query \<Rightarrow> ttl_mem \<Rightarrow> (string \<times> ttl_mem) option" where
  "query_apply t0 t1 q M = (case q_op q of
      SET \<Rightarrow> (case ttl_set t0 (q_key q) (q_ttl q) (q_value q) M of None \<Rightarrow> None
        | Some (Inr _, M') \<Rightarrow> Some (done_text q, M')
        | Some (Inl e, M') \<Rightarrow> Some (fail_text q e, M'))
    | GET \<Rightarrow> (case ttl_get t0 t1 (q_key q) M of None \<Rightarrow> None
        | Some (Inr v, M') \<Rightarrow> Some (done_text (q\<lparr>q_value := v\<rparr>), M')
        | Some (Inl e, M') \<Rightarrow> Some (fail_text q e, M'))
    | DEL \<Rightarrow> (case ttl_del t0 (q_key q) M of None \<Rightarrow> None
        | Some (Inr _, M') \<Rightarrow> Some (done_text q, M')
        | Some (Inl e, M') \<Rightarrow> Some (fail_text q e, M')))"

section \<open>Semaphores\<close>

definition query_sem :: "query \<Rightarrow> nat" where
  "query_sem q = get_hash (q_key q) div NUM_SECTIONS"

text \<open>POSIX semaphores: \<open>sem_post\<close> adds one, \<open>sem_wait\<close> takes one or blocks (\<open>None\<close>).\<close>

definition sem_post :: "nat \<Rightarrow> nat list \<Rightarrow> nat list option" where
  "sem_post i sems = (if i < length sems then Some (sems[i := Suc (sems ! i)]) else None)"

definition sem_wait :: "nat \<Rightarrow> nat list \<Rightarrow> nat list option" where
  "sem_wait i sems = (if i < length sems \<and> 0 < sems ! i then Some (sems[i := sems ! i - 1]) else None)"

definition worker_sem_up :: "nat \<Rightarrow> nat list \<Rightarrow> nat list option" where
  "worker_sem_up i sems = sem_wait i sems"

definition worker_sem_down :: "nat \<Rightarrow> nat list \<Rightarrow> nat list option" where
  "worker_sem_down i sems = sem_post i sems"

definition posix_sem_init :: "nat list" where
  "posix_sem_init = replicate NUM_SECTIONS 1"

section \<open>One query of one client\<close>

definition execute_query :: "int \<Rightarrow> int \<Rightarrow> query \<Rightarrow> nat list \<times> ttl_mem \<Rightarrow> (string \<times> nat list \<times> ttl_mem) option" where
  "execute_query t0 t1 q s =
     (case worker_sem_down (query_sem q) (fst s) of None \<Rightarrow> None
      | Some sems1 \<Rightarrow> (case query_apply t0 t1 q (snd s) of None \<Rightarrow> None
        | Some (reply, M') \<Rightarrow> (case worker_sem_up (query_sem q) sems1 of None \<Rightarrow> None
          | Some sems2 \<Rightarrow> Some (reply, sems2, M'))))"

text \<open>\<open>process_client_event\<close> on received data: the reply sent, if any.\<close>

definition client_line :: "int \<Rightarrow> int \<Rightarrow> query \<Rightarrow> int \<Rightarrow> string \<Rightarrow> nat list \<times> ttl_mem
    \<Rightarrow> (string option \<times> nat list \<times> ttl_mem) option" where
  "client_line t0 t1 q0 fd buf s = (case process_query q0 fd buf of
      None \<Rightarrow> None
    | Some (res, q, buf') \<Rightarrow>
       (if res > 0 then map_option (\<lambda>(reply, s'). (Some (c_string reply @ [CHR 0x00]), s')) (execute_query t0 t1 q s)
        else if res < 0 then Some (Some (c_string buf' @ [CHR 0x00]), s)
        else Some (None, s)))"

section \<open>Workers and the cleaner together\<close>

datatype tpc = Idle | Started query | Inside query

datatype cpc = Sleeping | Waiting nat nat | Cleaning nat nat

record ttl_sys =
  sems :: "nat list"
  shm :: ttl_mem
  tpcs :: "tpc list"
  cpc :: cpc

text \<open>
  \<open>clean\<close> waits for section \<open>j\<close> (\<open>Waiting j i\<close>, \<open>i\<close> the index of its inner loop), cleans
  the buckets of that loop (\<open>Cleaning j i\<close>), posts, and goes to the next section.
\<close>

inductive ttl_step :: "ttl_sys \<Rightarrow> ttl_sys \<Rightarrow> bool" where
  accept: "w < length (tpcs s) \<Longrightarrow> tpcs s ! w = Idle \<Longrightarrow> ttl_step s (s\<lparr>tpcs := (tpcs s)[w := Started q]\<rparr>)"
| w_enter: "w < length (tpcs s) \<Longrightarrow> tpcs s ! w = Started q \<Longrightarrow> worker_sem_down (query_sem q) (sems s) = Some sems' \<Longrightarrow>
     ttl_step s (s\<lparr>sems := sems', tpcs := (tpcs s)[w := Inside q]\<rparr>)"
| w_leave: "w < length (tpcs s) \<Longrightarrow> tpcs s ! w = Inside q \<Longrightarrow> query_apply t0 t1 q (shm s) = Some (reply, M') \<Longrightarrow>
     worker_sem_up (query_sem q) (sems s) = Some sems' \<Longrightarrow>
     ttl_step s (s\<lparr>sems := sems', shm := M', tpcs := (tpcs s)[w := Idle]\<rparr>)"
| c_start: "cpc s = Sleeping \<Longrightarrow> ttl_step s (s\<lparr>cpc := Waiting 0 0\<rparr>)"
| c_wait: "cpc s = Waiting j i \<Longrightarrow> sem_wait j (sems s) = Some sems' \<Longrightarrow>
     ttl_step s (s\<lparr>sems := sems', cpc := Cleaning j i\<rparr>)"
| c_clean: "cpc s = Cleaning j i \<Longrightarrow> clean_section now j i (shm s) = Some (i', M') \<Longrightarrow>
     sem_post j (sems s) = Some sems' \<Longrightarrow>
     ttl_step s (s\<lparr>sems := sems', shm := M',
       cpc := (if Suc j < NUM_SECTIONS then Waiting (Suc j) i' else Sleeping)\<rparr>)"

definition ttl_init :: "ttl_mem \<Rightarrow> nat \<Rightarrow> ttl_sys" where
  "ttl_init M n = \<lparr>sems = posix_sem_init, shm = shared_memory_set M, tpcs = replicate n Idle, cpc = Sleeping\<rparr>"

definition ttl_reachable :: "ttl_mem \<Rightarrow> nat \<Rightarrow> ttl_sys \<Rightarrow> bool" where
  "ttl_reachable M n s \<longleftrightarrow> ttl_step\<^sup>*\<^sup>* (ttl_init M n) s"

definition users :: "nat \<Rightarrow> tpc list \<Rightarrow> nat" where
  "users i ps = length (filter (\<lambda>pc. case pc of Inside q \<Rightarrow> query_sem q = i | _ \<Rightarrow> False) ps)"

definition cleaning :: "nat \<Rightarrow> cpc \<Rightarrow> nat" where
  "cleaning i c = (case c of Cleaning j _ \<Rightarrow> if j = i then 1 else 0 | _ \<Rightarrow> 0)"

text \<open>What the semaphores count: a worker inside adds one, the cleaner inside takes one.\<close>

definition ttl_sem_inv :: "ttl_sys \<Rightarrow> bool" where
  "ttl_sem_inv s \<longleftrightarrow> length (sems s) = NUM_SECTIONS
     \<and> (\<forall>i<NUM_SECTIONS. sems s ! i + cleaning i (cpc s) = 1 + users i (tpcs s))
     \<and> (\<forall>q. Inside q \<in> set (tpcs s) \<longrightarrow> query_sem q < NUM_SECTIONS)
     \<and> (case cpc s of Sleeping \<Rightarrow> True | Waiting j _ \<Rightarrow> j < NUM_SECTIONS | Cleaning j _ \<Rightarrow> j < NUM_SECTIONS)"

lemma users_update:
  "w < length ps \<Longrightarrow> users i (ps[w := p]) + users i [ps ! w] = users i ps + users i [p]"
proof (induction ps arbitrary: w)
  case (Cons q ps)
  then show ?case by (cases w) (auto simp: users_def)
qed simp

lemma users_at: "w < length ps \<Longrightarrow> ps ! w = Inside q \<Longrightarrow> 1 \<le> users (query_sem q) ps"
proof (induction ps arbitrary: w)
  case (Cons p ps)
  then show ?case by (cases w) (auto simp: users_def)
qed simp

lemma users_simps [simp]:
  "users i [Idle] = 0" "users i [Started q] = 0" "users i [Inside q] = (if query_sem q = i then 1 else 0)"
  by (simp_all add: users_def)

lemma in_set_update: "x \<in> set (xs[i := y]) \<Longrightarrow> x = y \<or> x \<in> set xs"
  using set_update_subset_insert [of xs i y] by auto

lemma ttl_sem_inv_init: "ttl_sem_inv (ttl_init M n)"
  by (auto simp: ttl_sem_inv_def ttl_init_def posix_sem_init_def cleaning_def users_def filter_replicate)

lemma ttl_step_inv:
  assumes "ttl_step s s'" "ttl_sem_inv s"
  shows "ttl_sem_inv s'"
  using assms
proof (induction rule: ttl_step.induct)
  case (accept w s q)
  then show ?case using users_update [of w "tpcs s" _ "Started q"]
    by (auto simp: ttl_sem_inv_def dest!: in_set_update)
next
  case (w_enter w s q sems')
  have "users i ((tpcs s)[w := Inside q]) = users i (tpcs s) + (if query_sem q = i then 1 else 0)" for i
    using users_update [OF w_enter.hyps(1), of i "Inside q"] w_enter.hyps(2) by simp
  with w_enter show ?case
    by (auto simp: ttl_sem_inv_def worker_sem_down_def sem_post_def nth_list_update split: if_splits dest!: in_set_update)
next
  case (w_leave w s q t0 t1 reply M' sems')
  have "users i ((tpcs s)[w := Idle]) + (if query_sem q = i then 1 else 0) = users i (tpcs s)" for i
    using users_update [OF w_leave.hyps(1), of i Idle] w_leave.hyps(2) by simp
  note u = this [symmetric]
  from w_leave.hyps(4) have sems': "query_sem q < length (sems s)" "0 < sems s ! query_sem q"
    "sems' = (sems s)[query_sem q := sems s ! query_sem q - 1]"
    by (auto simp: worker_sem_up_def sem_wait_def split: if_splits)
  have "sems' ! i + cleaning i (cpc s) = 1 + users i ((tpcs s)[w := Idle])" if "i < NUM_SECTIONS" for i
  proof -
    have "sems s ! i + cleaning i (cpc s) = 1 + users i (tpcs s)"
      using w_leave.prems that by (simp add: ttl_sem_inv_def)
    with sems' u [of i] w_leave.prems that show ?thesis
      by (auto simp: ttl_sem_inv_def nth_list_update split: if_splits)
  qed
  with w_leave.prems sems' show ?case
    by (auto simp: ttl_sem_inv_def dest!: in_set_update)
next
  case (c_wait s j i sems')
  then show ?case
    by (auto simp: ttl_sem_inv_def cleaning_def sem_wait_def nth_list_update split: if_splits)
next
  case (c_clean s j i now i' M' sems')
  then show ?case
    by (auto simp: ttl_sem_inv_def cleaning_def sem_post_def nth_list_update split: if_splits)
qed (auto simp: ttl_sem_inv_def cleaning_def NUM_SECTIONS_def)

lemma ttl_reachable_inv: "ttl_reachable M n s \<Longrightarrow> ttl_sem_inv s"
  unfolding ttl_reachable_def
  by (induction rule: rtranclp_induct) (auto intro: ttl_sem_inv_init ttl_step_inv)

end
