(* ===== verification/Ttl_Server.thy ===== *)
theory Ttl_Server imports Ttl_Worker Sockets begin

text \<open>
  The processes of p6 around the table (p6/Server.cpp, Routine.cpp, the rest of Worker.cpp): the
  server accepts clients and passes each, as a file descriptor, to a random worker over a
  socket pair; the worker greets the client and serves it. Inputs are what \<open>accept\<close> and
  \<open>recv\<close> deliver and \<open>rand()\<close>; a descriptor stands for the socket it refers to, in whichever
  process; what is read from uninitialised memory is undefined, \<open>None\<close>.
\<close>

section \<open>Passing descriptors\<close>

text \<open>A direction of a socket pair: pieces of bytes, the first one of a message with its
  descriptor.\<close>

type_synonym fd_channel = "(string \<times> int option) list"

definition sock_fd_write :: "string \<Rightarrow> int \<Rightarrow> fd_channel \<Rightarrow> fd_channel" where
  "sock_fd_write buf fd ch = ch @ [(buf, if fd \<noteq> -1 then Some fd else None)]"

text \<open>The bytes read and the descriptor, -1 for none. With nothing to read \<open>recvmsg\<close> fails with
  EAGAIN, and the code looks for a descriptor in a control buffer nobody wrote.\<close>

fun sock_fd_read :: "nat \<Rightarrow> fd_channel \<Rightarrow> (string \<times> int \<times> fd_channel) option" where
  "sock_fd_read bufsize [] = None"
| "sock_fd_read bufsize ((d, fd) # ch) =
     Some (take bufsize d, case fd of None \<Rightarrow> -1 | Some fd' \<Rightarrow> fd',
           if length d \<le> bufsize then ch else (drop bufsize d, None) # ch)"

section \<open>The server\<close>

definition NUM_WORKERS :: nat where "NUM_WORKERS = 4"

text \<open>One accepted socket per event; a value that is not positive is a failure.\<close>

definition process_master_event :: "int \<Rightarrow> nat \<Rightarrow> fd_channel list \<Rightarrow> fd_channel list" where
  "process_master_event slave_socket r chans =
     (if slave_socket > 0
      then chans[r mod NUM_WORKERS := sock_fd_write ''1'' slave_socket (chans ! (r mod NUM_WORKERS))]
      else chans)"

section \<open>A worker's sockets\<close>

definition MAX_BUF_SIZE :: nat where "MAX_BUF_SIZE = 1024"

record ttl_worker =
  slave_sockets :: "int set"
  buffer :: string
  sent :: "(int \<times> string) list"
  closed :: "int list"

definition new_worker :: ttl_worker where
  "new_worker = \<lparr>slave_sockets = {}, buffer = [], sent = [], closed = []\<rparr>"

text \<open>A new client. \<open>epoll_ctl\<close> throws on the descriptor -1.\<close>

definition worker_master_event :: "fd_channel \<Rightarrow> ttl_worker \<Rightarrow> (string, unit, fd_channel \<times> ttl_worker) outcome option" where
  "worker_master_event ch s = (case sock_fd_read 1 ch of
      None \<Rightarrow> None
    | Some (c, fd, ch') \<Rightarrow>
       (if fd = -1 then Some (Inl ''system_error'', ch', s)
        else Some (Inr (), ch', s\<lparr>slave_sockets := insert fd (slave_sockets s), sent := sent s @ [(fd, ''Welcome!'' @ newline)]\<rparr>)))"

definition disconnect_client :: "int \<Rightarrow> ttl_worker \<Rightarrow> ttl_worker" where
  "disconnect_client fd s = s\<lparr>slave_sockets := slave_sockets s - {fd}, closed := closed s @ [fd]\<rparr>"

text \<open>The buffer has a byte more than \<open>recv\<close> may fill.\<close>

definition recv_message_from_client :: "int \<Rightarrow> recv_result \<Rightarrow> ttl_worker \<Rightarrow> (string, bool, ttl_worker) outcome" where
  "recv_message_from_client fd res s = (case res of
      Data d \<Rightarrow> (Inr True, s\<lparr>buffer := d @ [CHR 0x00]\<rparr>)
    | Closed \<Rightarrow> (Inr False, disconnect_client fd s)
    | Recv_Error \<Rightarrow> (Inl ''system_error'', s))"

text \<open>An event of a client; \<open>client_line\<close> is the work between receiving and sending, and what it
  leaves in the buffer is what it sends.\<close>

definition worker_client_event ::
    "int \<Rightarrow> int \<Rightarrow> query \<Rightarrow> int \<Rightarrow> recv_result \<Rightarrow> bool \<Rightarrow> ttl_worker \<times> nat list \<times> ttl_mem
      \<Rightarrow> (string, unit, ttl_worker \<times> nat list \<times> ttl_mem) outcome option" where
  "worker_client_event t0 t1 q0 fd res hup st =
     (case recv_message_from_client fd res (fst st) of
        (Inl e, s1) \<Rightarrow> Some (Inl e, s1, snd st)
      | (Inr False, s1) \<Rightarrow> Some (Inr (), s1, snd st)
      | (Inr True, s1) \<Rightarrow>
         (case client_line t0 t1 q0 fd (buffer s1) (snd st) of
            None \<Rightarrow> None
          | Some (reply, mem') \<Rightarrow>
             (let s2 = (case reply of None \<Rightarrow> s1
                   | Some r \<Rightarrow> s1\<lparr>buffer := r, sent := sent s1 @ [(fd, r)]\<rparr>)
              in Some (Inr (), if hup then disconnect_client fd s2 else s2, mem'))))"

section \<open>Server and workers\<close>

text \<open>\<open>accepted\<close> is not in the source: the sockets accepted, each with its worker.\<close>

record p6_system =
  chans :: "fd_channel list"
  workers :: "ttl_worker list"
  accepted :: "(nat \<times> int) list"

definition p6_init :: p6_system where
  "p6_init = \<lparr>chans = replicate NUM_WORKERS [], workers = replicate NUM_WORKERS new_worker, accepted = []\<rparr>"

inductive p6_step :: "p6_system \<Rightarrow> p6_system \<Rightarrow> bool" where
  accepts: "fd > 0 \<Longrightarrow>
     p6_step s (s\<lparr>chans := process_master_event fd r (chans s), accepted := accepted s @ [(r mod NUM_WORKERS, fd)]\<rparr>)"
| takes: "w < NUM_WORKERS \<Longrightarrow> worker_master_event (chans s ! w) (workers s ! w) = Some (Inr (), ch', wk') \<Longrightarrow>
     p6_step s (s\<lparr>chans := (chans s)[w := ch'], workers := (workers s)[w := wk']\<rparr>)"
| serves: "w < NUM_WORKERS \<Longrightarrow> fd \<in> slave_sockets (workers s ! w) \<Longrightarrow>
     worker_client_event t0 t1 q0 fd res hup (workers s ! w, sm, M) = Some (Inr (), wk', sm', M') \<Longrightarrow>
     p6_step s (s\<lparr>workers := (workers s)[w := wk']\<rparr>)"

definition p6_reachable :: "p6_system \<Rightarrow> bool" where
  "p6_reachable s \<longleftrightarrow> p6_step\<^sup>*\<^sup>* p6_init s"

text \<open>The clients a worker has greeted.\<close>

definition greeting :: "int \<times> string \<Rightarrow> bool" where
  "greeting m \<longleftrightarrow> snd m = ''Welcome!'' @ newline"

definition greeted :: "ttl_worker \<Rightarrow> int list" where
  "greeted wk = map fst (filter greeting (sent wk))"

definition accepted_for :: "nat \<Rightarrow> p6_system \<Rightarrow> int list" where
  "accepted_for w s = map snd (filter (\<lambda>a. fst a = w) (accepted s))"

definition p6_inv :: "p6_system \<Rightarrow> bool" where
  "p6_inv s \<longleftrightarrow> length (chans s) = NUM_WORKERS \<and> length (workers s) = NUM_WORKERS
     \<and> (\<forall>w<NUM_WORKERS. (\<exists>fds. chans s ! w = map (\<lambda>fd. (''1'', Some fd)) fds \<and> (\<forall>fd\<in>set fds. fd > 0)
          \<and> accepted_for w s = greeted (workers s ! w) @ fds)
        \<and> slave_sockets (workers s ! w) \<subseteq> set (greeted (workers s ! w)))"

lemma p6_inv_init: "p6_inv p6_init"
  by (simp add: p6_inv_def p6_init_def accepted_for_def greeted_def new_worker_def)

lemma last_greeting: "greeting (fd, ''Welcome!'' @ newline)" "\<not> greeting (fd, r @ [CHR 0x00])"
  by (simp_all add: greeting_def newline_def)

lemma client_line_reply:
  "client_line t0 t1 q0 fd buf st = Some (Some r, st') \<Longrightarrow> \<exists>r'. r = r' @ [CHR 0x00]"
  by (auto simp: client_line_def split: option.splits if_splits prod.splits)

lemma worker_event_greeted:
  assumes "worker_client_event t0 t1 q0 fd res hup (wk, mem) = Some (Inr (), wk', mem')"
  shows "greeted wk' = greeted wk \<and> slave_sockets wk' \<subseteq> slave_sockets wk"
proof (cases res)
  case (Data d)
  let ?s = "wk\<lparr>buffer := d @ [CHR 0x00]\<rparr>"
  from assms Data obtain reply where r: "client_line t0 t1 q0 fd (d @ [CHR 0x00]) mem = Some (reply, mem')"
    "wk' = (let s2 = (case reply of None \<Rightarrow> ?s | Some r \<Rightarrow> ?s\<lparr>buffer := r, sent := sent ?s @ [(fd, r)]\<rparr>)
       in if hup then disconnect_client fd s2 else s2)"
    by (auto simp: worker_client_event_def recv_message_from_client_def Let_def split: option.splits)
  show ?thesis
  proof (cases reply)
    case None
    with r(2) show ?thesis by (auto simp: greeted_def disconnect_client_def Let_def)
  next
    case (Some x)
    with client_line_reply r(1) obtain r' where "x = r' @ [CHR 0x00]" by blast
    with Some r(2) show ?thesis by (auto simp: greeted_def disconnect_client_def Let_def last_greeting)
  qed
next
  case Closed
  with assms show ?thesis
    by (auto simp: worker_client_event_def recv_message_from_client_def greeted_def disconnect_client_def)
next
  case Recv_Error
  with assms show ?thesis by (simp add: worker_client_event_def recv_message_from_client_def)
qed

lemma p6_step_inv:
  assumes "p6_step s s'" "p6_inv s"
  shows "p6_inv s'"
  using assms
proof (induction rule: p6_step.induct)
  case (accepts fd s r)
  let ?w = "r mod NUM_WORKERS"
  let ?s = "s\<lparr>chans := process_master_event fd r (chans s), accepted := accepted s @ [(?w, fd)]\<rparr>"
  have "?w < NUM_WORKERS" by (simp add: NUM_WORKERS_def)
  have "\<exists>fds. chans ?s ! w = map (\<lambda>fd. (''1'', Some fd)) fds \<and> (\<forall>fd\<in>set fds. fd > 0) \<and> accepted_for w ?s = greeted (workers s ! w) @ fds"
    if w: "w < NUM_WORKERS" for w
  proof -
    from accepts.prems w obtain fds where f: "chans s ! w = map (\<lambda>fd. (''1'', Some fd)) fds" "\<forall>fd\<in>set fds. fd > 0"
      "accepted_for w s = greeted (workers s ! w) @ fds" unfolding p6_inv_def by blast
    show ?thesis
    proof (cases "w = ?w")
      case True
      with f accepts w show ?thesis
        by (intro exI [of _ "fds @ [fd]"])
          (simp add: process_master_event_def sock_fd_write_def accepted_for_def p6_inv_def)
    next
      case False
      with f accepts show ?thesis
        by (intro exI [of _ fds]) (simp add: process_master_event_def accepted_for_def)
    qed
  qed
  moreover have "length (chans ?s) = NUM_WORKERS"
    using accepts.prems by (simp add: process_master_event_def p6_inv_def)
  ultimately show ?case using accepts.prems by (simp add: p6_inv_def)
next
  case (takes w s ch' wk')
  from takes.prems takes.hyps(1) obtain fds where f: "chans s ! w = map (\<lambda>fd. (''1'', Some fd)) fds" "\<forall>fd\<in>set fds. fd > 0"
    "accepted_for w s = greeted (workers s ! w) @ fds" "slave_sockets (workers s ! w) \<subseteq> set (greeted (workers s ! w))"
    unfolding p6_inv_def by blast
  obtain fd fds' where fds: "fds = fd # fds'"
    using takes.hyps(2) f(1) by (cases fds) (auto simp: worker_master_event_def)
  then have "fd \<noteq> -1" using f(2) by auto
  then have "ch' = map (\<lambda>fd. (''1'', Some fd)) fds'"
    "wk' = (workers s ! w)\<lparr>slave_sockets := insert fd (slave_sockets (workers s ! w)), sent := sent (workers s ! w) @ [(fd, ''Welcome!'' @ newline)]\<rparr>"
    using takes.hyps(2) f(1) fds by (simp_all add: worker_master_event_def)
  moreover then have "greeted wk' = greeted (workers s ! w) @ [fd]" by (simp add: greeted_def last_greeting del: append.simps)
  ultimately show ?case using takes.prems takes.hyps(1) f fds
    by (auto simp: p6_inv_def nth_list_update accepted_for_def)
next
  case (serves w fd s t0 t1 q0 res hup sm M wk' sm' M')
  note g = worker_event_greeted [OF serves.hyps(3)]
  show ?case using serves.prems serves.hyps(1) g
    by (fastforce simp: p6_inv_def nth_list_update accepted_for_def)
qed

lemma p6_reachable_inv: "p6_reachable s \<Longrightarrow> p6_inv s"
  unfolding p6_reachable_def
  by (induction rule: rtranclp_induct) (auto intro: p6_inv_init p6_step_inv)

end
