(* ===== verification/Ttl_Props.thy ===== *)
theory Ttl_Props imports Ttl_Server begin

text \<open>
  The properties of the key-value store of p6: every run of queries refines an abstract map
  whose entries expire, what a life time means, what the cleaner removes, how lines are read,
  and what the semaphores, called the wrong way round, amount to.
\<close>

section \<open>The expiring map\<close>

text \<open>The abstract store: for a key its value, its time to live and the time of its death.\<close>

type_synonym ttl_map = "int32 \<Rightarrow> (int32 \<times> int32 \<times> int) option"

definition spec_apply :: "int \<Rightarrow> int \<Rightarrow> query \<Rightarrow> ttl_map \<Rightarrow> string \<times> ttl_map" where
  "spec_apply t0 t1 q m = (case q_op q of
      SET \<Rightarrow> if m (q_key q) = None \<and> card (dom m) = BUFFER_SIZE then (fail_text q NoMemory, m)
             else (done_text q, m(q_key q \<mapsto> (q_value q, q_ttl q, t0 + sint (q_ttl q))))
    | GET \<Rightarrow> (case m (q_key q) of None \<Rightarrow> (fail_text q NoKey, m)
        | Some (v, life, d) \<Rightarrow> if d < t0 then (fail_text q NotExists, m(q_key q := None))
            else (done_text (q\<lparr>q_value := v\<rparr>), m(q_key q \<mapsto> (v, life, t1 + sint life))))
    | DEL \<Rightarrow> (case m (q_key q) of None \<Rightarrow> (fail_text q NoKey, m)
        | Some (v, life, d) \<Rightarrow> (if d < t0 then fail_text q NotExists else done_text q, m(q_key q := None))))"

fun spec_run :: "(int \<times> int \<times> query) list \<Rightarrow> ttl_map \<Rightarrow> string list \<times> ttl_map" where
  "spec_run [] m = ([], m)"
| "spec_run ((t0, t1, q) # qs) m = (let (r, m') = spec_apply t0 t1 q m; (rs, m'') = spec_run qs m' in (r # rs, m''))"

text \<open>The table's run: the queries of a worker, one after the other.\<close>

fun query_run :: "(int \<times> int \<times> query) list \<Rightarrow> ttl_mem \<Rightarrow> (string list \<times> ttl_mem) option" where
  "query_run [] M = Some ([], M)"
| "query_run ((t0, t1, q) # qs) M = (case query_apply t0 t1 q M of None \<Rightarrow> None
     | Some (r, M') \<Rightarrow> map_option (\<lambda>(rs, M''). (r # rs, M'')) (query_run qs M'))"

lemma query_apply_refines:
  assumes "pool_inv M"
  shows "\<exists>M'. query_apply t0 t1 q M = Some (fst (spec_apply t0 t1 q (view M)), M') \<and> pool_inv M'
     \<and> view M' = snd (spec_apply t0 t1 q (view M))"
proof (cases "q_op q")
  case SET
  from ttl_set_spec [OF assms, of "q_key q" t0 "q_ttl q" "q_value q"] SET show ?thesis
    by (auto simp: query_apply_def spec_apply_def split: if_splits)
next
  case GET
  from ttl_get_spec [OF assms, of t0 t1 "q_key q"] GET show ?thesis
    by (cases "view M (q_key q)") (auto simp: query_apply_def spec_apply_def split: if_splits)
next
  case DEL
  from ttl_del_spec [OF assms, of "q_key q" t0] DEL show ?thesis
    by (cases "view M (q_key q)") (auto simp: query_apply_def spec_apply_def fun_upd_idem split: if_splits)
qed

lemma query_run_refines:
  "pool_inv M \<Longrightarrow> \<exists>M'. query_run qs M = Some (fst (spec_run qs (view M)), M') \<and> pool_inv M'
     \<and> view M' = snd (spec_run qs (view M))"
proof (induction qs arbitrary: M)
  case (Cons e qs)
  obtain t0 t1 q where e: "e = (t0, t1, q)" by (cases e)
  from query_apply_refines [OF Cons.prems, of t0 t1 q] obtain M1 where
    "query_apply t0 t1 q M = Some (fst (spec_apply t0 t1 q (view M)), M1)" "pool_inv M1"
    "view M1 = snd (spec_apply t0 t1 q (view M))" by blast
  with Cons.IH [of M1] show ?case by (auto simp: e split: prod.splits)
qed simp

lemma view_init: "view (shared_memory_set M) = (\<lambda>_. None)"
  by (simp add: view_stored fun_eq_iff stored_find [OF layout_init])

text \<open>C4: For every sequence of queries with their clock readings, the replies of a worker on a
  fresh table are, text for text, those of the expiring map, and the table ends up holding that
  map: set renews value, life and death, get renews the death of a live key and removes an
  expired one, del removes, and set fails exactly when 2048 other keys are stored.\<close>

theorem queries_refine_expiring_map:
  "\<exists>M'. query_run qs (shared_memory_set M) = Some (fst (spec_run qs (\<lambda>_. None)), M') \<and> pool_inv M'
     \<and> view M' = snd (spec_run qs (\<lambda>_. None))"
  using query_run_refines [OF lookup_init(1), of qs M] by (simp add: view_init)

section \<open>Life times\<close>

text \<open>C25: What is set at time \<open>t\<close> with time to live \<open>l\<close> is what a get yields that reads the clock
  by \<open>t + l\<close>, and that get moves the death to its own time plus \<open>l\<close>; a later get reports the
  key as expired, and a get after that finds no key.\<close>

theorem ttl_lifetime:
  assumes "pool_inv M" "ttl_set t k life v M = Some (Inr (), M1)"
  shows "if t0 \<le> t + sint life
    then \<exists>M2. ttl_get t0 t1 k M1 = Some (Inr v, M2) \<and> view M2 k = Some (v, life, t1 + sint life)
    else \<exists>M2. ttl_get t0 t1 k M1 = Some (Inl NotExists, M2) \<and> ttl_get t2 t3 k M2 = Some (Inl NoKey, M2)"
proof -
  from ttl_set_spec [OF assms(1), of k t life v] assms(2) have M1: "pool_inv M1"
    "view M1 k = Some (v, life, t + sint life)" by (auto split: if_splits)
  from ttl_get_spec [OF M1(1), of t0 t1 k] M1(2) obtain M2 where M2: "pool_inv M2"
    "if t + sint life < t0 then ttl_get t0 t1 k M1 = Some (Inl NotExists, M2) \<and> view M2 = (view M1)(k := None)
     else ttl_get t0 t1 k M1 = Some (Inr v, M2) \<and> view M2 = (view M1)(k \<mapsto> (v, life, t1 + sint life))"
    by auto
  with ttl_get_spec [OF M2(1), of t2 t3 k] show ?thesis by (auto split: if_splits)
qed

abbreviation ttl_blank :: ttl_mem where
  "ttl_blank \<equiv> \<lparr>p_table = [], p_data = replicate 2048
     \<lparr>node_key = 0, node_value = 0, n_prev = 0, n_next = 0, ttl = 0, t_death = 0\<rparr>\<rparr>"

theorem ttl_lifetime_witness:
  "\<exists>M1 M2. ttl_set 100 5 10 7 (shared_memory_set ttl_blank) = Some (Inr (), M1) \<and> ttl_get 110 110 5 M1 = Some (Inr 7, M2)"
proof -
  obtain M1 where M1: "ttl_set 100 5 10 7 (shared_memory_set ttl_blank) = Some (Inr (), M1)"
    using ttl_set_spec [OF lookup_init(1) [of ttl_blank], of 5 100 10 7] by (auto simp: view_init BUFFER_SIZE_def)
  from ttl_lifetime [OF lookup_init(1) this, of 110 110 0 0] M1 show ?thesis by auto
qed

text \<open>At any one time the table is a store of the entries that are alive: a sequence of sets,
  gets and deletes returns, with the replies of the map of live keys; an entry set with a negative
  time to live is never there.\<close>

theorem live_requests_correct:
  assumes "ttl_inv now M"
  shows "\<exists>rs M'. kv_store.serve_all (ttl_put now) (ttl_get now now) (ttl_del now) qs M = Some (rs, M')
     \<and> ttl_inv now M' \<and> allowed ttl_eff (alive now M) qs rs"
  by (rule tt.serve_all_allowed [OF assms])

theorem live_requests_correct_witness:
  "ttl_inv 100 (shared_memory_set ttl_blank) \<and> (\<exists>rs M'. kv_store.serve_all (ttl_put 100) (ttl_get 100 100) (ttl_del 100)
      [Put 5 (7, 10), Fetch 5] (shared_memory_set ttl_blank) = Some (rs, M') \<and> ttl_inv 100 M')"
proof -
  have i: "ttl_inv 100 (shared_memory_set ttl_blank)"
    unfolding ttl_inv_def view_init using lookup_init(1) by simp
  from i live_requests_correct [OF i, of "[Put 5 (7, 10), Fetch 5]"] show ?thesis by blast
qed

section \<open>The cleaner\<close>

text \<open>C36: A pass of the cleaner returns and frees the nodes of the expired keys of the first
  eight buckets, and of no other bucket: an expired key with a hash from 8 on stays in the
  table.\<close>

theorem cleaner_cleans_eight_buckets:
  assumes "pool_inv M"
  shows "\<exists>M'. clean now M = Some M' \<and> pool_inv M' \<and>
     (\<forall>k. view M' k = (case view M k of None \<Rightarrow> None
        | Some (v, life, d) \<Rightarrow> if get_hash k < 8 \<and> d < now then None else Some (v, life, d)))"
  using clean_view [OF assms, of now] by (auto simp: purge_def)

theorem cleaner_cleans_eight_buckets_witness:
  "pool_inv (shared_memory_set ttl_blank) \<and> (\<exists>M'. clean 50 (shared_memory_set ttl_blank) = Some M' \<and> view M' 5 = None)"
  using cleaner_cleans_eight_buckets [OF lookup_init(1) [of ttl_blank], of 50] lookup_init(1) [of ttl_blank]
  by (auto simp: view_init)

section \<open>Semaphores\<close>

text \<open>No process ever waits: in every reachable state the semaphore a worker is about to take
  in \<open>sem_up\<close>, and the one the cleaner is about to take, have a unit to spare.\<close>

theorem semaphores_never_block:
  assumes "ttl_reachable M n s"
  shows "(\<forall>w q. w < length (tpcs s) \<and> tpcs s ! w = Inside q \<longrightarrow> (\<exists>sems'. worker_sem_up (query_sem q) (sems s) = Some sems'))
     \<and> (\<forall>j i. cpc s = Waiting j i \<longrightarrow> (\<exists>sems'. sem_wait j (sems s) = Some sems'))"
proof -
  note inv = ttl_reachable_inv [OF assms]
  have sum: "sems s ! i + cleaning i (cpc s) = 1 + users i (tpcs s)" if "i < NUM_SECTIONS" for i
    using inv that by (simp add: ttl_sem_inv_def)
  have one: "0 < sems s ! query_sem q \<and> query_sem q < length (sems s)"
    if "w < length (tpcs s)" "tpcs s ! w = Inside q" for w q
  proof -
    have "Inside q \<in> set (tpcs s)" using that nth_mem by metis
    then have i: "query_sem q < NUM_SECTIONS" using inv by (auto simp: ttl_sem_inv_def)
    have "cleaning (query_sem q) (cpc s) \<le> 1" by (simp add: cleaning_def split: cpc.split)
    with sum [OF i] users_at [OF that] have "0 < sems s ! query_sem q" by linarith
    with i inv show ?thesis by (simp add: ttl_sem_inv_def)
  qed
  have two: "0 < sems s ! j \<and> j < length (sems s)" if "cpc s = Waiting j i" for j i
  proof -
    have j: "j < NUM_SECTIONS" using inv that by (simp add: ttl_sem_inv_def)
    with sum [OF j] that inv show ?thesis by (simp add: ttl_sem_inv_def cleaning_def)
  qed
  show ?thesis
  proof (intro conjI allI impI)
    fix w q assume "w < length (tpcs s) \<and> tpcs s ! w = Inside q"
    with one [of w q] show "\<exists>sems'. worker_sem_up (query_sem q) (sems s) = Some sems'"
      by (simp add: worker_sem_up_def sem_wait_def)
  next
    fix j i assume "cpc s = Waiting j i"
    with two [of j i] show "\<exists>sems'. sem_wait j (sems s) = Some sems'" by (simp add: sem_wait_def)
  qed
qed

abbreviation busy :: "query \<Rightarrow> ttl_sys" where
  "busy q \<equiv> \<lparr>sems = posix_sem_init[0 := 4], shm = shared_memory_set ttl_blank, tpcs = [Inside q, Inside q, Inside q, Inside q],
     cpc = Cleaning 0 0\<rparr>"

lemma worker_enters:
  assumes "w < length (tpcs s)" "tpcs s ! w = Idle" "query_sem q = 0" "sems s \<noteq> []"
  shows "ttl_step\<^sup>*\<^sup>* s (s\<lparr>sems := (sems s)[0 := Suc (sems s ! 0)], tpcs := (tpcs s)[w := Inside q]\<rparr>)"
proof -
  have 1: "ttl_step s (s\<lparr>tpcs := (tpcs s)[w := Started q]\<rparr>)" (is "ttl_step s ?t")
    by (rule ttl_step.accept [OF assms(1,2)])
  have "ttl_step ?t (?t\<lparr>sems := (sems s)[0 := Suc (sems s ! 0)], tpcs := (tpcs ?t)[w := Inside q]\<rparr>)"
    by (rule ttl_step.w_enter) (use assms in \<open>simp_all add: worker_sem_down_def sem_post_def\<close>)
  then have 2: "ttl_step ?t (s\<lparr>sems := (sems s)[0 := Suc (sems s ! 0)], tpcs := (tpcs s)[w := Inside q]\<rparr>)"
    by simp
  show ?thesis by (rule converse_rtranclp_into_rtranclp [OF 1 r_into_rtranclp [of ttl_step, OF 2]])
qed

lemma next_worker_enters:
  assumes "query_sem q = 0"
  shows "ttl_step\<^sup>*\<^sup>* \<lparr>sems = posix_sem_init[0 := n], shm = M, tpcs = xs @ Idle # ys, cpc = c\<rparr>
    \<lparr>sems = posix_sem_init[0 := Suc n], shm = M, tpcs = xs @ Inside q # ys, cpc = c\<rparr>"
proof -
  have "posix_sem_init[0 := n] ! 0 = n" "posix_sem_init[0 := n] \<noteq> []"
    by (simp_all add: posix_sem_init_def NUM_SECTIONS_def)
  with worker_enters [of "length xs" "\<lparr>sems = posix_sem_init[0 := n], shm = M, tpcs = xs @ Idle # ys, cpc = c\<rparr>" q] assms
  show ?thesis by simp
qed

lemma busy_reachable:
  assumes "query_sem q = 0"
  shows "ttl_reachable ttl_blank 4 (busy q)"
proof -
  let ?s = "\<lambda>n ps. \<lparr>sems = posix_sem_init[0 := n], shm = shared_memory_set ttl_blank, tpcs = ps, cpc = Sleeping\<rparr>"
  note enter = next_worker_enters [OF assms, of _ "shared_memory_set ttl_blank" _ _ Sleeping]
  have "posix_sem_init[0 := 1] = posix_sem_init"
    by (simp add: posix_sem_init_def NUM_SECTIONS_def list_update_same_conv)
  moreover have "replicate 4 Idle = [Idle, Idle, Idle, Idle]" by (simp add: numeral_eq_Suc)
  ultimately have i: "ttl_init ttl_blank 4 = ?s 1 [Idle, Idle, Idle, Idle]"
    by (simp only: ttl_init_def)
  have n: "Suc 1 = 2" "Suc 2 = 3" "Suc 3 = 4" "Suc 4 = 5" by simp_all
  have 1: "ttl_step\<^sup>*\<^sup>* (?s 1 [Idle, Idle, Idle, Idle]) (?s 2 [Inside q, Idle, Idle, Idle])"
    using enter [of 1 "[]" "[Idle, Idle, Idle]"] by (simp only: append_Nil n)
  have 2: "ttl_step\<^sup>*\<^sup>* (?s 2 [Inside q, Idle, Idle, Idle]) (?s 3 [Inside q, Inside q, Idle, Idle])"
    using enter [of 2 "[Inside q]" "[Idle, Idle]"] by (simp only: append_Nil append_Cons n)
  have 3: "ttl_step\<^sup>*\<^sup>* (?s 3 [Inside q, Inside q, Idle, Idle]) (?s 4 [Inside q, Inside q, Inside q, Idle])"
    using enter [of 3 "[Inside q, Inside q]" "[Idle]"] by (simp only: append_Nil append_Cons n)
  have 4: "ttl_step\<^sup>*\<^sup>* (?s 4 [Inside q, Inside q, Inside q, Idle]) (?s 5 [Inside q, Inside q, Inside q, Inside q])"
    using enter [of 4 "[Inside q, Inside q, Inside q]" "[]"] by (simp only: append_Nil append_Cons n)
  let ?t = "?s 5 [Inside q, Inside q, Inside q, Inside q]"
  have 5: "ttl_step ?t (?t\<lparr>cpc := Waiting 0 0\<rparr>)" by (rule ttl_step.c_start) simp
  have "ttl_step (?t\<lparr>cpc := Waiting 0 0\<rparr>) (?t\<lparr>cpc := Waiting 0 0, sems := posix_sem_init[0 := 4], cpc := Cleaning 0 0\<rparr>)"
    by (rule ttl_step.c_wait) (simp_all add: sem_wait_def posix_sem_init_def NUM_SECTIONS_def)
  then have 6: "ttl_step (?t\<lparr>cpc := Waiting 0 0\<rparr>) (busy q)" by simp
  from rtranclp_trans [OF rtranclp_trans [OF rtranclp_trans [OF 1 2] 3] 4]
  have "ttl_step\<^sup>*\<^sup>* (ttl_init ttl_blank 4) ?t" by (simp only: i)
  from rtranclp.rtrancl_into_rtrancl [OF rtranclp.rtrancl_into_rtrancl [OF this 5] 6]
  show ?thesis by (simp only: ttl_reachable_def)
qed

theorem semaphores_never_block_witness:
  "\<exists>sems'. worker_sem_up 0 (sems (busy \<lparr>q_key = 0, q_value = 0, q_from = 5, q_ttl = 9, q_op = SET\<rparr>)) = Some sems'"
proof -
  let ?q = "\<lparr>q_key = 0, q_value = 0, q_from = 5, q_ttl = 9, q_op = SET\<rparr>"
  have q: "query_sem ?q = 0" by (simp add: query_sem_def get_hash_def)
  from semaphores_never_block [OF busy_reachable [OF q]] q show ?thesis by (fastforce dest!: spec [of _ 0])
qed

text \<open>So they exclude no one: all four workers and the cleaner are in the critical section of
  one section at once, each of the workers setting the same key.\<close>

theorem all_inside_at_once:
  "query_sem q = 0 \<Longrightarrow> \<exists>s. ttl_reachable ttl_blank 4 s \<and> (\<forall>w<4. tpcs s ! w = Inside q) \<and> cpc s = Cleaning 0 0"
  using busy_reachable [of q] by (intro exI [of _ "busy q"]) (auto simp: less_Suc_eq numeral_eq_Suc)

theorem all_inside_at_once_witness:
  "\<exists>s. ttl_reachable ttl_blank 4 s \<and> tpcs s ! 0 = Inside \<lparr>q_key = 0, q_value = 0, q_from = 5, q_ttl = 9, q_op = SET\<rparr>"
  using all_inside_at_once [of "\<lparr>q_key = 0, q_value = 0, q_from = 5, q_ttl = 9, q_op = SET\<rparr>"]
  by (auto simp: query_sem_def get_hash_def)

section \<open>The protocol\<close>

definition query_line :: "op_type \<Rightarrow> int32 \<Rightarrow> int32 \<Rightarrow> int32 \<Rightarrow> string" where
  "query_line f k life v = (case f of
      SET \<Rightarrow> ''set '' @ show_int (sint k) @ '' '' @ show_int (sint life) @ '' '' @ show_int (sint v) @ newline
    | GET \<Rightarrow> ''get '' @ show_int (sint k) @ newline
    | DEL \<Rightarrow> ''del '' @ show_int (sint k) @ newline)"

lemma sscanf_query:
  "sscanf 3 (query_line f k life v @ [CHR 0x00]) =
     Some (case f of SET \<Rightarrow> (''set'', [k, life, v]) | GET \<Rightarrow> (''get'', [k]) | DEL \<Rightarrow> (''del'', [k]))"
proof -
  have sp: "isspace CHR '' ''" "isspace CHR 0x0A" "\<not> isdigit CHR '' ''" "\<not> isdigit CHR 0x0A"
    by (simp_all add: isspace_def isdigit_def)
  have w: "scan_word (cmd @ '' '' @ s) = Some (cmd, '' '' @ s)" if "cmd \<in> {''set'', ''get'', ''del''}" for cmd s
    by (rule scan_word_show) (use that sp in \<open>auto simp: isspace_def\<close>)
  have i: "scan_int ('' '' @ show_int (sint v) @ rest) = Some (v, rest)"
    if "rest = [] \<or> \<not> isdigit (hd rest)" for v rest
    using scan_int_show [of rest "'' ''" v] that sp by simp
  have nl: "scan_int newline = None" by (simp add: newline_def scan_int_def sp)
  have c: "c_string (query_line f k life v @ [CHR 0x00]) = query_line f k life v"
  proof -
    have "CHR 0x00 \<notin> set (query_line f k life v)"
      using show_int_no_nul by (cases f) (simp_all add: query_line_def newline_def)
    then show ?thesis by (simp add: c_string_nul c_string_id)
  qed
  have split3: "''set '' = ''set'' @ '' ''" "''get '' = ''get'' @ '' ''" "''del '' = ''del'' @ '' ''" by simp_all
  have one: "scan_ints 3 ('' '' @ show_int (sint k) @ newline) = [k]"
    using i [of newline k] nl sp by (simp add: numeral_3_eq_3 newline_def)
  have three: "scan_ints 3 ('' '' @ show_int (sint k) @ '' '' @ show_int (sint life) @ '' '' @ show_int (sint v) @ newline) = [k, life, v]"
    using i [of "'' '' @ show_int (sint life) @ '' '' @ show_int (sint v) @ newline" k]
      i [of "'' '' @ show_int (sint v) @ newline" life] i [of newline v] sp
    by (simp add: numeral_3_eq_3 newline_def)
  show ?thesis
  proof (cases f)
    case SET
    then have "query_line f k life v = ''set'' @ '' '' @ show_int (sint k) @ '' '' @ show_int (sint life) @ '' '' @ show_int (sint v) @ newline"
      by (simp add: query_line_def)
    with c w [of "''set''"] three SET show ?thesis by (simp only: sscanf_def option.map case_prod_conv insert_iff simp_thms) simp
  next
    case GET
    then have "query_line f k life v = ''get'' @ '' '' @ show_int (sint k) @ newline"
      by (simp add: query_line_def)
    with c w [of "''get''"] one GET show ?thesis by (simp only: sscanf_def option.map case_prod_conv insert_iff simp_thms) simp
  next
    case DEL
    then have "query_line f k life v = ''del'' @ '' '' @ show_int (sint k) @ newline"
      by (simp add: query_line_def)
    with c w [of "''del''"] one DEL show ?thesis by (simp only: sscanf_def option.map case_prod_conv insert_iff simp_thms) simp
  qed
qed

text \<open>The query of a line; what it does not mention is what the variables held.\<close>

definition query_of :: "query \<Rightarrow> int \<Rightarrow> op_type \<Rightarrow> int32 \<Rightarrow> int32 \<Rightarrow> int32 \<Rightarrow> query" where
  "query_of q0 fd f k life v = \<lparr>q_key = k, q_value = (if f = SET then v else q_value q0), q_from = fd,
      q_ttl = (if f = SET then life else q_ttl q0), q_op = f\<rparr>"

lemma process_query_line:
  "process_query q0 fd (query_line f k life v @ [CHR 0x00]) =
     Some (1, query_of q0 fd f k life v, query_line f k life v @ [CHR 0x00])"
  by (cases f; cases q0) (simp_all add: process_query_def sscanf_query query_of_def)

lemma spec_reply_no_nul: "CHR 0x00 \<notin> set (fst (spec_apply t0 t1 q m))"
proof -
  have "CHR 0x00 \<notin> set (done_text q)" "CHR 0x00 \<notin> set (fail_text q e)" for q e
    using show_int_no_nul by (auto simp: done_text_def fail_text_def newline_def split: hash_error.split)
  then show ?thesis
    by (auto simp: spec_apply_def split: op_type.split option.split)
qed

text \<open>From text to text: for a key in a bucket that has a semaphore, a client's line with a
  set, get or del command and any 32-bit numbers is answered with the reply of the expiring map,
  the table changes as the map does, and the semaphores are as before.\<close>

theorem line_answered_as_map:
  assumes "pool_inv M" "get_hash k < 64" "length sm = NUM_SECTIONS"
  shows "\<exists>M'. client_line t0 t1 q0 fd (query_line f k life v @ [CHR 0x00]) (sm, M) =
       Some (Some (fst (spec_apply t0 t1 (query_of q0 fd f k life v) (view M)) @ [CHR 0x00]), sm, M')
     \<and> pool_inv M' \<and> view M' = snd (spec_apply t0 t1 (query_of q0 fd f k life v) (view M))"
proof -
  let ?q = "query_of q0 fd f k life v"
  have "query_sem ?q < length sm" using assms(2,3) by (simp add: query_of_def query_sem_def NUM_SECTIONS_def)
  moreover from query_apply_refines [OF assms(1), of t0 t1 ?q] obtain M' where
    "query_apply t0 t1 ?q M = Some (fst (spec_apply t0 t1 ?q (view M)), M')" "pool_inv M'"
    "view M' = snd (spec_apply t0 t1 ?q (view M))" by blast
  ultimately show ?thesis
    using process_query_line [of q0 fd f k life v] c_string_id [OF spec_reply_no_nul]
    by (simp add: client_line_def execute_query_def worker_sem_down_def worker_sem_up_def sem_post_def
        sem_wait_def)
qed

theorem line_answered_as_map_witness:
  "\<exists>M'. client_line 100 100 \<lparr>q_key = 0, q_value = 0, q_from = 0, q_ttl = 0, q_op = GET\<rparr> 5
       (query_line SET 3 10 8 @ [CHR 0x00]) (posix_sem_init, shared_memory_set ttl_blank) =
     Some (Some (''> DONE'' @ newline @ [CHR 0x00]), posix_sem_init, M')"
proof -
  have "get_hash 3 < 64" "length posix_sem_init = NUM_SECTIONS" by (simp_all add: get_hash_def posix_sem_init_def)
  from line_answered_as_map [OF lookup_init(1) [of ttl_blank] this, of 100 100 _ 5 SET 10 8]
  show ?thesis by (auto simp: spec_apply_def query_of_def view_init done_text_def BUFFER_SIZE_def)
qed

text \<open>For every other key the worker indexes the array of semaphores beyond its end.\<close>

lemma upper_keys_undefined:
  "64 \<le> get_hash k \<Longrightarrow> client_line t0 t1 q0 fd (query_line f k life v @ [CHR 0x00]) (posix_sem_init, M) = None"
proof -
  assume "64 \<le> get_hash k"
  then have "8 \<le> get_hash k div 8" by simp
  then show ?thesis
    by (simp add: client_line_def process_query_line query_of_def execute_query_def worker_sem_down_def
        sem_post_def query_sem_def posix_sem_init_def NUM_SECTIONS_def)
qed

section \<open>Clients and workers\<close>

text \<open>C37: No accepted client is lost or served twice: at any time the clients the server accepted for
  a worker are those the worker has greeted and then those waiting in its channel, in order, and a
  worker serves only clients it has greeted.\<close>

theorem clients_handed_over:
  assumes "p6_reachable s" "w < Ttl_Server.NUM_WORKERS"
  shows "\<exists>waiting. accepted_for w s = greeted (workers s ! w) @ waiting
    \<and> chans s ! w = map (\<lambda>fd. (''1'', Some fd)) waiting
    \<and> Ttl_Server.slave_sockets (workers s ! w) \<subseteq> set (greeted (workers s ! w))"
  using p6_reachable_inv [OF assms(1)] assms(2) unfolding p6_inv_def by blast

theorem clients_handed_over_witness:
  "\<exists>s. p6_reachable s \<and> accepted s = [(1, 5)] \<and> (\<exists>waiting. [5] = greeted (workers s ! 1) @ waiting)"
proof -
  let ?s = "p6_init\<lparr>chans := process_master_event 5 1 (chans p6_init), accepted := accepted p6_init @ [(1 mod Ttl_Server.NUM_WORKERS, 5)]\<rparr>"
  have "p6_step p6_init ?s" by (rule p6_step.accepts) simp
  then have r: "p6_reachable ?s" by (simp add: p6_reachable_def)
  have a: "accepted ?s = [(1, 5)]" by (simp add: p6_init_def Ttl_Server.NUM_WORKERS_def)
  have "1 < Ttl_Server.NUM_WORKERS" by (simp add: Ttl_Server.NUM_WORKERS_def)
  from clients_handed_over [OF r this] a have "\<exists>waiting. [5] = greeted (workers ?s ! 1) @ waiting"
    by (auto simp: accepted_for_def)
  with r a show ?thesis by blast
qed

text \<open>C28: A worker answers a client's printed command, for a key in a bucket that has a semaphore,
  with the reply of the expiring map and nothing else, and the table changes as the map does.\<close>

theorem worker_answers_line:
  assumes "pool_inv M" "get_hash k < 64" "length sm = NUM_SECTIONS"
  shows "\<exists>wk' M'. worker_client_event t0 t1 q0 fd (Data (query_line f k life v)) False (wk, sm, M) = Some (Inr (), wk', sm, M')
    \<and> Ttl_Server.sent wk' = Ttl_Server.sent wk @ [(fd, fst (spec_apply t0 t1 (query_of q0 fd f k life v) (view M)) @ [CHR 0x00])]
    \<and> pool_inv M' \<and> view M' = snd (spec_apply t0 t1 (query_of q0 fd f k life v) (view M))"
  using line_answered_as_map [OF assms, of t0 t1 q0 fd f life v]
  by (auto simp: worker_client_event_def Ttl_Server.recv_message_from_client_def)

theorem worker_answers_line_witness:
  "\<exists>wk' M'. worker_client_event 100 100 \<lparr>q_key = 0, q_value = 0, q_from = 0, q_ttl = 0, q_op = GET\<rparr> 5
      (Data (query_line SET 3 10 8)) False (new_worker, posix_sem_init, shared_memory_set ttl_blank) = Some (Inr (), wk', posix_sem_init, M')
    \<and> Ttl_Server.sent wk' = [(5, ''> DONE'' @ newline @ [CHR 0x00])]"
proof -
  have "get_hash 3 < 64" "length posix_sem_init = NUM_SECTIONS" by (simp_all add: get_hash_def posix_sem_init_def)
  from worker_answers_line [OF lookup_init(1) [of ttl_blank] this, of 100 100 "\<lparr>q_key = 0, q_value = 0, q_from = 0, q_ttl = 0, q_op = GET\<rparr>" 5 SET 10 8 new_worker]
  show ?thesis by (fastforce simp: spec_apply_def query_of_def view_init done_text_def BUFFER_SIZE_def new_worker_def)
qed

end
