(* ===== verification/Ttl_Race.thy ===== *)
theory Ttl_Race imports Ttl_Props begin

text \<open>
  Several workers and the cleaner of p6 on the table at once. Their semaphores exclude nobody
  (\<open>all_inside_at_once\<close> of Ttl_Props), so what one does between finding a node and freeing it can be
  interleaved with the same of another. A \<open>get\<close> is taken apart here into its search and the rest;
  each of the two is one step.
\<close>

section \<open>get in two steps\<close>

definition get_finish :: "int \<Rightarrow> int \<Rightarrow> node_ptr \<Rightarrow> ttl_mem \<Rightarrow> (hash_error, int32, ttl_mem) outcome" where
  "get_finish t0 t1 p_node M = (case p_node of
      None \<Rightarrow> (Inl NoKey, M)
    | Some i \<Rightarrow>
       (if \<not> is_expired t0 (p_data M ! i)
        then (let M1 = M\<lparr>p_data := set_ttl t1 (Some i) (ttl (p_data M ! i)) (p_data M)\<rparr>
              in (Inr (node_value (p_data M1 ! i)), M1))
        else (Inl NotExists, ttl_set_node_free (Some i) M)))"

lemma ttl_get_steps: "ttl_get t0 t1 key M = map_option (\<lambda>p. get_finish t0 t1 p M) (find_node M key)"
  by (simp add: ttl_get_def get_finish_def Let_def split: option.split)

datatype get_pc = Search int32 | Finish node_ptr | Result "hash_error + int32"

inductive get_step :: "ttl_mem \<times> get_pc list \<Rightarrow> ttl_mem \<times> get_pc list \<Rightarrow> bool" where
  search: "w < length ps \<Longrightarrow> ps ! w = Search key \<Longrightarrow> ttl_find_node M key = Some p \<Longrightarrow>
     get_step (M, ps) (M, ps[w := Finish p])"
| finish: "w < length ps \<Longrightarrow> ps ! w = Finish p \<Longrightarrow> get_finish t0 t1 p M = (r, M') \<Longrightarrow>
     get_step (M, ps) (M', ps[w := Result r])"

section \<open>A node that is freed twice\<close>

lemma free_again:
  assumes l: "layout M B (i # F)"
  shows "p_table (set_node_free (Some i) M) = p_table M" "p_table M ! HASH_TABLE_SIZE = int i"
    "n_next (p_data (set_node_free (Some i) M) ! i) = int i" "length (p_data (set_node_free (Some i) M)) = BUFFER_SIZE"
proof -
  note free = layout_free [OF l]
  have len: "i < length (p_data M)" "length (p_data M) = BUFFER_SIZE" "length (p_table M) = Suc HASH_TABLE_SIZE"
    using free layout_lengths [OF l] by auto
  have prev: "n_prev (p_data M ! i) = -1" and num: "p_table M ! HASH_TABLE_SIZE = int i" using free by auto
  have "p_table M ! h \<noteq> int i" if "h < HASH_TABLE_SIZE" for h
  proof -
    have "i \<notin> set (B h)" using layout_disjoint [OF l that] by auto
    then show ?thesis using layout_head [OF l that] by (cases "B h") auto
  qed
  then have unl: "unlink_loop 0 (int i) k (p_table M) = p_table M" for k by (intro unlink_loop_none) simp
  have tab: "(p_table M)[HASH_TABLE_SIZE := int i] = p_table M" using num by (metis list_update_id)
  show "p_table (set_node_free (Some i) M) = p_table M"
    by (simp add: set_node_free_def Let_def unl set_num_free_node_def tab)
  show "n_next (p_data (set_node_free (Some i) M) ! i) = int i" "length (p_data (set_node_free (Some i) M)) = BUFFER_SIZE"
    using len by (simp_all add: set_node_free_def Let_def unl set_num_free_node_def get_num_free_node_def num)
  show "p_table M ! HASH_TABLE_SIZE = int i" by (rule num)
qed

lemma count_free_loop: "n_next (d ! i) = int i \<Longrightarrow> count_free d (Some i) n = None"
proof -
  assume loop: "n_next (d ! i) = int i"
  have "d' = d \<longrightarrow> p \<noteq> Some i" if "count_free d' p n = Some m" for d' p n m
  proof (rule count_free.raw_induct [OF _ that, where P = "\<lambda>d' p n m. d' = d \<longrightarrow> p \<noteq> Some i"])
    fix cf :: "'a node_scheme list \<Rightarrow> node_ptr \<Rightarrow> nat \<Rightarrow> nat option" and d' p n m
    assume "\<And>d' p n m. cf d' p n = Some m \<Longrightarrow> d' = d \<longrightarrow> p \<noteq> Some i"
      and "(case p of None \<Rightarrow> Some n | Some i \<Rightarrow> cf d' (to_ptr (n_next (d' ! i))) (Suc n)) = Some m"
    then show "d' = d \<longrightarrow> p \<noteq> Some i" using loop by (cases p) force+
  qed
  then show ?thesis by (cases "count_free d (Some i) n") auto
qed

text \<open>C24: Two clients ask for the same key after it has expired. Both workers find its node, both free
  it, and both report that the key has expired; the free list then is a loop of one node, a dump does
  not end, and the node that \<open>set\<close> takes next is still the head of the free list.\<close>

theorem expired_key_freed_twice:
  assumes "pool_inv M" "view M k = Some (v, life, d)" "d < t0"
  shows "\<exists>M' i. get_step\<^sup>*\<^sup>* (M, [Search k, Search k]) (M', [Result (Inl NotExists), Result (Inl NotExists)])
     \<and> get_num_free_node M' = int i \<and> n_next (p_data M' ! i) = int i \<and> ttl_dump M' = None
     \<and> (\<exists>M1. get_node_free M' = (Inr (Some i), M1) \<and> get_num_free_node M1 = int i)"
proof -
  obtain B F where l: "layout M B F" using assms(1) by (auto simp: pool_inv_def)
  obtain i where f: "find_node M k = Some (Some i)" "t_death (p_data M ! i) = d"
    using view_Some [OF l assms(2)] by metis
  obtain ys zs where B: "B (get_hash k) = ys @ i # zs"
    using find_node_SomeD [OF l f(1)] by (auto dest: split_list)
  let ?M1 = "set_node_free (Some i) M"
  let ?M2 = "set_node_free (Some i) ?M1"
  have l1: "layout ?M1 (B(get_hash k := ys @ zs)) (i # F)"
    by (rule set_node_free_layout [OF l _ B]) simp
  have "entry_of (payload (p_data ?M1 ! i)) = entry_of (payload (p_data M ! i))"
    using set_node_free_layout(2) [OF l _ B] by simp
  then have d1: "t_death (p_data ?M1 ! i) = d" using f(2) by simp
  note again = free_again [OF l1]
  let ?s = "\<lambda>M p q. (M, [p, q])"
  have "get_step (?s M (Search k) (Search k)) (?s M (Finish (Some i)) (Search k))"
    using get_step.search [of 0 "[Search k, Search k]" k M "Some i"] f(1) by simp
  moreover have "get_step (?s M (Finish (Some i)) (Search k)) (?s M (Finish (Some i)) (Finish (Some i)))"
    using get_step.search [of 1 "[Finish (Some i), Search k]" k M "Some i"] f(1) by simp
  moreover have "get_step (?s M (Finish (Some i)) (Finish (Some i))) (?s ?M1 (Result (Inl NotExists)) (Finish (Some i)))"
    using get_step.finish [of 0 "[Finish (Some i), Finish (Some i)]" "Some i" t0 t0 M] f(2) assms(3)
    by (simp add: get_finish_def is_expired_def)
  moreover have "get_step (?s ?M1 (Result (Inl NotExists)) (Finish (Some i))) (?s ?M2 (Result (Inl NotExists)) (Result (Inl NotExists)))"
    using get_step.finish [of 1 "[Result (Inl NotExists), Finish (Some i)]" "Some i" t0 t0 ?M1] d1 assms(3)
    by (simp add: get_finish_def is_expired_def)
  ultimately have run: "get_step\<^sup>*\<^sup>* (?s M (Search k) (Search k)) (?s ?M2 (Result (Inl NotExists)) (Result (Inl NotExists)))"
    by (meson converse_rtranclp_into_rtranclp rtranclp.rtrancl_refl)
  have num: "get_num_free_node ?M2 = int i" using again by (simp add: get_num_free_node_def)
  have "i < length (p_data ?M2)"
    using again(4) layout_free [OF l1] layout_lengths [OF l1] by auto
  moreover have "HASH_TABLE_SIZE < length (p_table ?M2)" using again(1) layout_lengths [OF l1] by simp
  ultimately obtain M3 where "get_node_free ?M2 = (Inr (Some i), M3)" "get_num_free_node M3 = int i"
    using num again(3) by (auto simp: get_node_free_def Let_def get_next_def set_num_free_node_def get_num_free_node_def)
  moreover have "ttl_dump ?M2 = None"
    using count_free_loop [OF again(3)] num by (simp add: ht_dump_def split: option.split)
  ultimately show ?thesis using run num again(3) by blast
qed

theorem expired_key_freed_twice_witness:
  "\<forall>M. \<exists>M1 M'. ttl_set 0 5 10 7 (shared_memory_set M) = Some (Inr (), M1)
     \<and> get_step\<^sup>*\<^sup>* (M1, [Search 5, Search 5]) (M', [Result (Inl NotExists), Result (Inl NotExists)]) \<and> ttl_dump M' = None"
proof
  fix M :: ttl_mem
  have "[0..<BUFFER_SIZE] = 0 # [Suc 0..<BUFFER_SIZE]" by (rule upt_conv_Cons) (simp add: BUFFER_SIZE_def)
  then have l: "layout (shared_memory_set M) (\<lambda>_. []) (0 # [Suc 0..<BUFFER_SIZE])" using layout_init by metis
  have "view (shared_memory_set M) 5 = None" by (simp add: view_init)
  from ttl_set_absent [OF l this, of 0 10 7] obtain M1 where
    M1: "ttl_set 0 5 10 7 (shared_memory_set M) = Some (Inr (), M1)" "pool_inv M1"
      "view M1 = (view (shared_memory_set M))(5 \<mapsto> (7, 10, 0 + sint (10 :: int32)))" by blast
  have v: "view M1 5 = Some (7, 10, 10)" using M1(3) by simp
  have "(10::int) < 11" by simp
  from expired_key_freed_twice [OF M1(2) v this] obtain M' where
    "get_step\<^sup>*\<^sup>* (M1, [Search 5, Search 5]) (M', [Result (Inl NotExists), Result (Inl NotExists)])" "ttl_dump M' = None"
    by metis
  with M1(1) show "\<exists>M1 M'. ttl_set 0 5 10 7 (shared_memory_set M) = Some (Inr (), M1)
     \<and> get_step\<^sup>*\<^sup>* (M1, [Search 5, Search 5]) (M', [Result (Inl NotExists), Result (Inl NotExists)]) \<and> ttl_dump M' = None"
    by blast
qed

end
