(* ===== verification/Ttl_Setup.thy ===== *)
theory Ttl_Setup imports Ttl_Server Server_Life begin

text \<open>
  The processes of p6 and what they share (p6/main.cpp): the named shared memory and semaphores, the
  socket pairs, the forks, the signal handler and the end of \<open>main\<close>. Results of system calls are
  inputs. Descriptors of the socket pairs are named by the pair and the end. Opening a semaphore is
  taken to succeed. Descriptors, not names, go with a process when it ends.
\<close>

section \<open>Named objects\<close>

record p6_names =
  shm_name :: "ttl_mem option"
  sem_names :: "string \<Rightarrow> nat option"

record shm_results =
  r_shm_open :: int
  r_ftruncate :: int
  r_mmap :: bool

text \<open>\<open>fresh\<close> is what a new object holds. \<open>r_mmap\<close> says that \<open>mmap\<close> does not fail.\<close>

definition create_shared_memory :: "shm_results \<Rightarrow> ttl_mem \<Rightarrow> p6_names \<Rightarrow> (unit thrown, ttl_mem, p6_names) outcome" where
  "create_shared_memory r fresh w =
     (if r_shm_open r = -1 then (Inl System_Error, w)
      else (let M = (case shm_name w of None \<Rightarrow> fresh | Some M \<Rightarrow> M); w1 = w\<lparr>shm_name := Some M\<rparr>
            in if r_ftruncate r = -1 then (Inl System_Error, w1)
               else if \<not> r_mmap r then (Inl System_Error, w1)
               else (Inr M, w1)))"

definition delete_shared_memory :: "p6_names \<Rightarrow> p6_names" where
  "delete_shared_memory w = w\<lparr>shm_name := None\<rparr>"

text \<open>\<open>sprintf\<close> with \<open>/sem%03d\<close>.\<close>

definition sem_name :: "nat \<Rightarrow> string" where
  "sem_name i = (let ds = show_nat i in ''/sem'' @ replicate (3 - length ds) CHR ''0'' @ ds)"

text \<open>\<open>sem_open\<close> with O_CREAT gives the value 1 to a new semaphore and leaves an old one as it is.\<close>

definition sem_open :: "string \<Rightarrow> nat \<Rightarrow> p6_names \<Rightarrow> p6_names" where
  "sem_open name v w = (case sem_names w name of None \<Rightarrow> w\<lparr>sem_names := (sem_names w)(name \<mapsto> v)\<rparr> | Some _ \<Rightarrow> w)"

definition create_semaphors :: "p6_names \<Rightarrow> p6_names" where
  "create_semaphors w = fold (\<lambda>i. sem_open (sem_name i) 1) [0..<NUM_SECTIONS] w"

definition delete_semaphors :: "p6_names \<Rightarrow> p6_names" where
  "delete_semaphors w = fold (\<lambda>i w. w\<lparr>sem_names := (sem_names w)(sem_name i := None)\<rparr>) [0..<NUM_SECTIONS] w"

text \<open>The values of the semaphores in the array \<open>sems\<close>.\<close>

definition sem_values :: "p6_names \<Rightarrow> nat list" where
  "sem_values w = map (\<lambda>i. the (sem_names w (sem_name i))) [0..<NUM_SECTIONS]"

section \<open>Processes\<close>

datatype pair_end = Writer nat | Reader nat

datatype role = Server_Proc | Worker_Proc nat | Cleaner_Proc

text \<open>What the process that runs \<open>main\<close> has, and the processes it has started, each with the ends
  of the socket pairs it has open.\<close>

record p6_run =
  names :: p6_names
  pid_wrk :: int
  worker_pids :: "int set"
  self :: role
  self_ends :: "pair_end set"
  fd_passing_writers :: "pair_end list"
  procs :: "(role \<times> pair_end set) list"

text \<open>One turn of the loop: \<open>pid\<close> is what \<open>fork\<close> returns to the parent, -1 when there is no child.\<close>

definition start_worker :: "nat \<Rightarrow> int \<Rightarrow> p6_run \<Rightarrow> p6_run" where
  "start_worker i pid s =
     (let ends = self_ends s \<union> {Reader i, Writer i};
          child = (Worker_Proc i, ends - {Writer i})
      in s\<lparr>pid_wrk := pid, worker_pids := insert pid (worker_pids s), self_ends := ends - {Reader i},
           fd_passing_writers := fd_passing_writers s @ [Writer i],
           procs := (if pid > 0 then procs s @ [child] else procs s)\<rparr>)"

definition start_workers :: "(nat \<Rightarrow> int) \<Rightarrow> p6_run \<Rightarrow> p6_run" where
  "start_workers pids s = fold (\<lambda>i. start_worker i (pids i)) [0..<NUM_WORKERS] s"

text \<open>The last fork. When it fails the process that was to be the server runs the cleaner's loop.\<close>

definition start_cleaner :: "int \<Rightarrow> p6_run \<Rightarrow> p6_run" where
  "start_cleaner pid s =
     (if pid > 0 then s\<lparr>pid_wrk := pid, worker_pids := insert pid (worker_pids s), procs := procs s @ [(Cleaner_Proc, self_ends s)]\<rparr>
      else s\<lparr>pid_wrk := pid, self := Cleaner_Proc\<rparr>)"

text \<open>\<open>main\<close> up to the server's or the cleaner's loop. The first call is outside the try block.\<close>

definition p6_main :: "shm_results \<Rightarrow> ttl_mem \<Rightarrow> (nat \<Rightarrow> int) \<Rightarrow> int \<Rightarrow> p6_names \<Rightarrow> p6_run ended" where
  "p6_main r fresh pids pid w =
     (case create_shared_memory r fresh w of
        (Inl e, w1) \<Rightarrow> Terminated
      | (Inr M, w1) \<Rightarrow>
         (let w2 = create_semaphors (w1\<lparr>shm_name := Some (ttl_memory_set M)\<rparr>)
          in Returns (start_cleaner pid (start_workers pids
               \<lparr>names = w2, pid_wrk = 0, worker_pids = {}, self = Server_Proc, self_ends = {},
                fd_passing_writers = [], procs = []\<rparr>))))"

text \<open>The end of \<open>main\<close> after an exception of the server: \<open>getpid()\<close> is compared with \<open>pid_wrk\<close>.\<close>

definition p6_main_end :: "int \<Rightarrow> p6_run \<Rightarrow> p6_run" where
  "p6_main_end getpid s = (if getpid = pid_wrk s then s\<lparr>names := delete_shared_memory (delete_semaphors (names s))\<rparr> else s)"

text \<open>The signal handler in the process that was started first (\<open>pid_srv\<close>): it sends the signal to every
  number it has noted, -1 meaning every process there is, waits for its children, deletes the server and
  the names, and exits. The first result are the processes that have got the signal. A child's own
  handler deletes its worker and exits.\<close>

definition handler :: "p6_run \<Rightarrow> int set \<times> p6_run" where
  "handler s = (worker_pids s, s\<lparr>procs := [], self_ends := self_ends s - set (fd_passing_writers s),
     names := delete_shared_memory (delete_semaphors (names s))\<rparr>)"

section \<open>What they lead to\<close>

lemma sem_names_create:
  "sem_names (create_semaphors w) n = (if n \<in> sem_name ` {..<NUM_SECTIONS}
     then Some (case sem_names w n of None \<Rightarrow> 1 | Some v \<Rightarrow> v) else sem_names w n)"
proof -
  have "sem_names (fold (\<lambda>i. sem_open (sem_name i) 1) is w) n = (if n \<in> sem_name ` set is
     then Some (case sem_names w n of None \<Rightarrow> 1 | Some v \<Rightarrow> v) else sem_names w n)" for "is"
    by (induction "is" arbitrary: w) (auto simp: sem_open_def split: option.split)
  from this [of "[0..<NUM_SECTIONS]"] show ?thesis by (simp add: create_semaphors_def lessThan_atLeast0)
qed

lemma sem_names_delete:
  "sem_names (delete_semaphors w) n = (if n \<in> sem_name ` {..<NUM_SECTIONS} then None else sem_names w n)"
proof -
  have "sem_names (fold (\<lambda>i w. w\<lparr>sem_names := (sem_names w)(sem_name i := None)\<rparr>) is w) n
      = (if n \<in> sem_name ` set is then None else sem_names w n)" for "is"
    by (induction "is" arbitrary: w) auto
  from this [of "[0..<NUM_SECTIONS]"] show ?thesis by (simp add: delete_semaphors_def lessThan_atLeast0)
qed

lemma shm_name_frame [frame]:
  "shm_name (create_semaphors w) = shm_name w" "shm_name (delete_semaphors w) = shm_name w"
proof -
  have "shm_name (fold (\<lambda>i. sem_open (sem_name i) 1) is w) = shm_name w"
    "shm_name (fold (\<lambda>i w. w\<lparr>sem_names := (sem_names w)(sem_name i := None)\<rparr>) is w) = shm_name w" for "is"
    by (induction "is" arbitrary: w) (auto simp: sem_open_def split: option.split)
  then show "shm_name (create_semaphors w) = shm_name w" "shm_name (delete_semaphors w) = shm_name w"
    by (simp_all add: create_semaphors_def delete_semaphors_def)
qed

lemma sem_values_create:
  "sem_values (create_semaphors w) = map (\<lambda>i. case sem_names w (sem_name i) of None \<Rightarrow> 1 | Some v \<Rightarrow> v) [0..<NUM_SECTIONS]"
  by (auto simp: sem_values_def sem_names_create)

lemma names_restored:
  assumes "\<forall>i<NUM_SECTIONS. sem_names w (sem_name i) = None"
  shows "delete_shared_memory (delete_semaphors (create_semaphors (w\<lparr>shm_name := M\<rparr>))) = w\<lparr>shm_name := None\<rparr>"
proof -
  have "sem_names (delete_semaphors (create_semaphors (w\<lparr>shm_name := M\<rparr>))) = sem_names w"
    using assms by (auto simp: sem_names_delete sem_names_create fun_eq_iff)
  then show ?thesis by (simp add: delete_shared_memory_def frame)
qed

text \<open>The state after \<open>k\<close> turns of the loop.\<close>

definition after_turns :: "p6_names \<Rightarrow> (nat \<Rightarrow> int) \<Rightarrow> nat \<Rightarrow> p6_run" where
  "after_turns w pids k = \<lparr>names = w, pid_wrk = (if k = 0 then 0 else pids (k - 1)), worker_pids = pids ` {..<k}, self = Server_Proc,
     self_ends = Writer ` {..<k}, fd_passing_writers = map Writer [0..<k],
     procs = map (\<lambda>i. (Worker_Proc i, insert (Reader i) (Writer ` {..<i}))) [0..<k]\<rparr>"

lemma start_worker_turn: "pids k > 0 \<Longrightarrow> start_worker k (pids k) (after_turns w pids k) = after_turns w pids (Suc k)"
  by (auto simp: start_worker_def after_turns_def Let_def lessThan_Suc)

lemma started:
  assumes "\<forall>i<NUM_WORKERS. pids i > 0"
  shows "start_workers pids (after_turns w pids 0) = after_turns w pids NUM_WORKERS"
proof -
  have "fold (\<lambda>i. start_worker i (pids i)) [0..<k] (after_turns w pids 0) = after_turns w pids k" if "k \<le> NUM_WORKERS" for k
    using that assms by (induction k) (simp_all add: start_worker_turn)
  then show ?thesis by (simp add: start_workers_def)
qed

text \<open>C23: On a system without the named objects, when all calls succeed, \<open>main\<close> gets to the state the
  system of workers and cleaner starts from: the table initialised, every semaphore 1, four workers and
  a cleaner, and for each worker the server's end of a socket pair whose other end that worker alone
  has. A signal then removes every name and reaches every process. After an exception of the server
  nothing is removed, since \<open>getpid()\<close> is compared with the number of the cleaner.\<close>

theorem set_up_and_signal:
  assumes "r_shm_open r \<noteq> -1" "r_ftruncate r \<noteq> -1" "r_mmap r" "\<forall>i<NUM_WORKERS. pids i > 0" "pid > 0"
    and "\<forall>i<NUM_SECTIONS. sem_names w (sem_name i) = None" "shm_name w = None"
  shows "\<exists>s. p6_main r fresh pids pid w = Returns s
    \<and> shm_name (names s) = Some (shm (ttl_init fresh NUM_WORKERS)) \<and> sem_values (names s) = sems (ttl_init fresh NUM_WORKERS)
    \<and> self s = Server_Proc \<and> map fst (procs s) = map Worker_Proc [0..<NUM_WORKERS] @ [Cleaner_Proc]
    \<and> (\<forall>i<NUM_WORKERS. fd_passing_writers s ! i = Writer i \<and> (\<forall>p\<in>set (procs s). Reader i \<in> snd p \<longleftrightarrow> fst p = Worker_Proc i))
    \<and> fst (handler s) = insert pid (pids ` {..<NUM_WORKERS}) \<and> names (snd (handler s)) = w
    \<and> (\<forall>getpid. getpid \<noteq> pid \<longrightarrow> names (p6_main_end getpid s) = names s)"
proof -
  let ?w = "create_semaphors (w\<lparr>shm_name := Some (shared_memory_set fresh)\<rparr>)"
  let ?s = "after_turns ?w pids NUM_WORKERS"
  have "create_shared_memory r fresh w = (Inr fresh, w\<lparr>shm_name := Some fresh\<rparr>)"
    using assms(1-3,7) by (simp add: create_shared_memory_def)
  then have "p6_main r fresh pids pid w = Returns (start_cleaner pid (start_workers pids (after_turns ?w pids 0)))"
    by (simp add: p6_main_def Let_def after_turns_def)
  then have "p6_main r fresh pids pid w = Returns (start_cleaner pid ?s)" by (simp add: started [OF assms(4)])
  moreover have "delete_shared_memory (delete_semaphors ?w) = w"
    using names_restored [OF assms(6)] assms(7) by simp
  moreover have "sem_values ?w = sems (ttl_init fresh NUM_WORKERS)"
    using assms(6) by (auto simp: sem_values_create ttl_init_def posix_sem_init_def intro!: nth_equalityI)
  moreover have "shm_name ?w = Some (shm (ttl_init fresh NUM_WORKERS))" by (simp add: frame ttl_init_def)
  ultimately show ?thesis using assms(5)
    by (intro exI [of _ "start_cleaner pid ?s"])
      (auto simp: start_cleaner_def after_turns_def handler_def p6_main_end_def comp_def)
qed

theorem set_up_and_signal_witness:
  "\<forall>fresh. \<exists>s. p6_main \<lparr>r_shm_open = 3, r_ftruncate = 0, r_mmap = True\<rparr> fresh (\<lambda>i. 100 + int i) 104 \<lparr>shm_name = None, sem_names = (\<lambda>_. None)\<rparr> = Returns s
     \<and> fst (handler s) = {100, 101, 102, 103, 104}"
proof
  fix fresh
  let ?r = "\<lparr>r_shm_open = 3, r_ftruncate = 0, r_mmap = True\<rparr>" and ?w = "\<lparr>shm_name = None, sem_names = (\<lambda>_. None)\<rparr>"
  have h: "r_shm_open ?r \<noteq> -1" "r_ftruncate ?r \<noteq> -1" "r_mmap ?r" "\<forall>i<NUM_WORKERS. 100 + int i > 0" "(104::int) > 0"
    "\<forall>i<NUM_SECTIONS. sem_names ?w (sem_name i) = None" "shm_name ?w = None" by simp_all
  have "(\<lambda>i. 100 + int i) ` {..<NUM_WORKERS} = {100, 101, 102, 103}" by (auto simp: NUM_WORKERS_def numeral_eq_Suc lessThan_Suc)
  with set_up_and_signal [OF h, of fresh] show "\<exists>s. p6_main ?r fresh (\<lambda>i. 100 + int i) 104 ?w = Returns s \<and> fst (handler s) = {100, 101, 102, 103, 104}"
    by (metis insert_commute)
qed

section \<open>What can go wrong\<close>

text \<open>A fork that fails leaves -1 among the numbers of the workers, and the signal goes to every process.\<close>

lemma start_worker_pids [frame]: "worker_pids (start_worker i pid s) = insert pid (worker_pids s)"
  by (simp add: start_worker_def Let_def)

lemma failed_fork_signals_all:
  assumes "i < NUM_WORKERS" "pids i = -1"
  shows "-1 \<in> fst (handler (start_workers pids s))"
proof -
  have "worker_pids (fold (\<lambda>i. start_worker i (pids i)) is s) = pids ` set is \<union> worker_pids s" for "is"
    by (induction "is" arbitrary: s) (auto simp: frame)
  moreover have "-1 \<in> pids ` set [0..<NUM_WORKERS]"
    by (rule image_eqI [of _ _ i]) (use assms in simp_all)
  ultimately show ?thesis by (simp add: handler_def start_workers_def del: set_upt)
qed

text \<open>When the last fork fails there is no server.\<close>

lemma failed_cleaner_fork: "pid \<le> 0 \<Longrightarrow> self (start_cleaner pid s) = Cleaner_Proc"
  by (simp add: start_cleaner_def)

text \<open>A semaphore that a killed run has left at 0 keeps its value, and the cleaner waits for it.\<close>

lemma stale_semaphore_blocks:
  assumes "sem_names w (sem_name j) = Some 0" "j < NUM_SECTIONS"
  shows "sem_wait j (sem_values (create_semaphors w)) = None"
  using assms by (simp add: sem_values_create sem_wait_def)

end
