(* ===== verification/Ttl_Life.thy ===== *)
theory Ttl_Life imports Ttl_Setup begin

text \<open>
  The server and a worker of p6 from their constructors to the end of their processes (p6/Worker.cpp,
  Server.cpp, the parts of main.cpp after the forks). The handlers of Ttl_Server are given again with
  the results of \<open>epoll_ctl\<close>. What a worker shares with others, the channel and the table with its
  semaphores, is an input of each event.
\<close>

section \<open>A worker's loop with failing calls\<close>

text \<open>The set holds the socket that was taken from the channel and not watched.\<close>

definition worker_master_event_ctl :: "ctl \<Rightarrow> fd_channel \<Rightarrow> ttl_worker
    \<Rightarrow> (unit thrown, unit, fd_channel \<times> ttl_worker \<times> int set) outcome option" where
  "worker_master_event_ctl ctl ch s = (case sock_fd_read 1 ch of
      None \<Rightarrow> None
    | Some (c, fd, ch') \<Rightarrow>
       (if fd = -1 then Some (Inl System_Error, ch', s, {})
        else if ctl fd = -1 then Some (Inl System_Error, ch', s, {fd})
        else Some (Inr (), ch', s\<lparr>slave_sockets := insert fd (slave_sockets s),
               sent := sent s @ [(fd, ''Welcome!'' @ newline)]\<rparr>, {})))"

definition disconnect_client_ctl :: "ctl \<Rightarrow> int \<Rightarrow> ttl_worker \<Rightarrow> (unit thrown, unit, ttl_worker) outcome" where
  "disconnect_client_ctl ctl fd s = (if ctl fd = -1 then (Inl System_Error, s) else (Inr (), disconnect_client fd s))"

definition recv_message_ctl :: "ctl \<Rightarrow> int \<Rightarrow> recv_result \<Rightarrow> ttl_worker \<Rightarrow> (unit thrown, bool, ttl_worker) outcome" where
  "recv_message_ctl ctl fd res s = (case res of
      Data d \<Rightarrow> (Inr True, s\<lparr>buffer := d @ [CHR 0x00]\<rparr>)
    | Closed \<Rightarrow> (case disconnect_client_ctl ctl fd s of (Inl e, s1) \<Rightarrow> (Inl e, s1) | (Inr _, s1) \<Rightarrow> (Inr False, s1))
    | Recv_Error \<Rightarrow> (Inl System_Error, s))"

definition worker_client_event_ctl ::
    "ctl \<Rightarrow> int \<Rightarrow> int \<Rightarrow> query \<Rightarrow> int \<Rightarrow> recv_result \<Rightarrow> bool \<Rightarrow> ttl_worker \<times> nat list \<times> ttl_mem
      \<Rightarrow> (unit thrown, unit, ttl_worker \<times> nat list \<times> ttl_mem) outcome option" where
  "worker_client_event_ctl ctl t0 t1 q0 fd res hup st =
     (case recv_message_ctl ctl fd res (fst st) of
        (Inl e, s1) \<Rightarrow> Some (Inl e, s1, snd st)
      | (Inr False, s1) \<Rightarrow> Some (Inr (), s1, snd st)
      | (Inr True, s1) \<Rightarrow>
         (case client_line t0 t1 q0 fd (buffer s1) (snd st) of
            None \<Rightarrow> None
          | Some (reply, mem') \<Rightarrow>
             (let s2 = (case reply of None \<Rightarrow> s1
                   | Some r \<Rightarrow> s1\<lparr>buffer := r, sent := sent s1 @ [(fd, r)]\<rparr>)
              in Some (if hup then (case disconnect_client_ctl ctl fd s2 of (x, s3) \<Rightarrow> (x, s3, mem')) else (Inr (), s2, mem')))))"

datatype worker_input = Passes fd_channel | Serves int int query int recv_result bool "nat list \<times> ttl_mem"

definition worker_event_ctl :: "worker_input \<times> ctl \<Rightarrow> ttl_worker \<Rightarrow> (unit thrown, unit, ttl_worker \<times> int set) outcome option" where
  "worker_event_ctl e s = (case e of
      (Passes ch, ctl) \<Rightarrow> map_option (\<lambda>(x, ch', s', stray). (x, s', stray)) (worker_master_event_ctl ctl ch s)
    | (Serves t0 t1 q0 fd res hup mem, ctl) \<Rightarrow>
        map_option (\<lambda>(x, s', mem'). (x, s', {})) (worker_client_event_ctl ctl t0 t1 q0 fd res hup (s, mem)))"

fun worker_events_ctl :: "(worker_input \<times> ctl) list \<Rightarrow> ttl_worker \<Rightarrow> (unit thrown, unit, ttl_worker \<times> int set) outcome option" where
  "worker_events_ctl [] s = Some (Inr (), s, {})"
| "worker_events_ctl (e # es) s = (case worker_event_ctl e s of
      Some (Inr _, s', _) \<Rightarrow> worker_events_ctl es s' | x \<Rightarrow> x)"

text \<open>Events that throw nothing are those of Ttl_Server.\<close>

lemma worker_master_event_ctl_ok:
  "worker_master_event_ctl ctl ch s = Some (Inr (), ch', s', stray) \<Longrightarrow>
     worker_master_event ch s = Some (Inr (), ch', s') \<and> stray = {}"
  by (auto simp: worker_master_event_ctl_def worker_master_event_def split: option.splits if_splits)

lemma worker_client_event_ctl_ok:
  "worker_client_event_ctl ctl t0 t1 q0 fd res hup st = Some (Inr (), st') \<Longrightarrow>
     worker_client_event t0 t1 q0 fd res hup st = Some (Inr (), st')"
  by (cases res) (auto simp: worker_client_event_ctl_def worker_client_event_def recv_message_ctl_def
      recv_message_from_client_def disconnect_client_ctl_def Let_def split: option.splits if_splits)

text \<open>A client that cannot be disconnected stays a client; so does one whose \<open>recv\<close> fails.\<close>

lemma worker_client_event_ctl_thrown:
  "worker_client_event_ctl ctl t0 t1 q0 fd res hup (s, mem) = Some (Inl e, s', mem') \<Longrightarrow>
     slave_sockets s' = slave_sockets s \<and> (ctl fd = -1 \<or> res = Recv_Error)"
  by (cases res) (auto simp: worker_client_event_ctl_def recv_message_ctl_def disconnect_client_ctl_def Let_def
      split: option.splits if_splits)

section \<open>The process of a worker\<close>

definition worker_construct :: "results \<Rightarrow> int \<Rightarrow> sys \<Rightarrow> (unit thrown, sockets \<times> ttl_worker, sys) outcome" where
  "worker_construct r fd_passing n = (case open_worker r fd_passing n of
      (Inl e, n1) \<Rightarrow> (Inl e, n1) | (Inr p, n1) \<Rightarrow> (Inr (p, new_worker), n1))"

definition worker_start :: "(worker_input \<times> ctl) list \<Rightarrow> sockets \<times> ttl_worker \<Rightarrow> sys
    \<Rightarrow> (unit thrown \<times> (sockets \<times> ttl_worker) \<times> sys) option" where
  "worker_start es obj n = (case worker_events_ctl es (snd obj) of
      None \<Rightarrow> None
    | Some (_, s, stray) \<Rightarrow> Some (System_Error, (fst obj, s), with_clients (master_fd (fst obj)) (slave_sockets s) stray n))"

definition worker_destroy :: "int \<Rightarrow> sockets \<times> ttl_worker \<Rightarrow> sys \<Rightarrow> sys ended option" where
  "worker_destroy r_del obj n = close_worker r_del (slave_sockets (snd obj)) (fst obj) n"

definition worker_main :: "results \<Rightarrow> int \<Rightarrow> (worker_input \<times> ctl) list \<Rightarrow> int \<Rightarrow> sys \<Rightarrow> sys ended option" where
  "worker_main r fd_passing es r_del =
     server_main (worker_construct r fd_passing) (worker_start es) (worker_destroy r_del)"

text \<open>A worker ends when something is thrown in its loop. With a client left the destructor is undefined,
  and that is so whenever a client's \<open>recv\<close> fails. Without one, the worker has closed its end of
  the socket pair.\<close>

theorem worker_main_ends:
  assumes "r_ctl r = 0 \<or> r_ctl r = -1" "watched n = {}"
  shows "worker_main r fd_passing es r_del n =
    (if r_epoll r = -1 then Some (Returns n)
     else if \<not> r_calloc r then Some (Returns (n\<lparr>open_fds := insert (r_epoll r) (open_fds n),
       watched := (if r_ctl r = -1 then {} else {(r_epoll r, fd_passing)})\<rparr>))
     else (case worker_events_ctl es new_worker of
         None \<Rightarrow> None
       | Some (_, s, stray) \<Rightarrow> (if slave_sockets s \<noteq> {} then None
           else Some (if r_del = -1 then Terminated
             else Returns (n\<lparr>open_fds := (open_fds n \<union> stray) - {fd_passing, r_epoll r}\<rparr>)))))"
proof -
  let ?p = "\<lparr>master_socket = fd_passing, master_fd = r_epoll r\<rparr>"
  let ?w = "if r_ctl r = -1 then {} else {(r_epoll r, fd_passing)}"
  have c: "worker_construct r fd_passing n = (if r_epoll r = -1 then (Inl System_Error, n)
     else if \<not> r_calloc r then (Inl Text, n\<lparr>open_fds := insert (r_epoll r) (open_fds n), watched := ?w\<rparr>)
     else (Inr (?p, new_worker), n\<lparr>open_fds := insert (r_epoll r) (open_fds n), watched := ?w, arrays := Suc (arrays n)\<rparr>))"
    using assms by (cases n) (auto simp: worker_construct_def open_worker_def open_events_def Let_def)
  have d: "worker_destroy r_del (?p, s) (with_clients (r_epoll r) {} stray
      (n\<lparr>open_fds := insert (r_epoll r) (open_fds n), watched := ?w, arrays := Suc (arrays n)\<rparr>))
    = Some (if r_del = -1 then Terminated else Returns (n\<lparr>open_fds := (open_fds n \<union> stray) - {fd_passing, r_epoll r}\<rparr>))"
    if "slave_sockets s = {}" for s stray
    using that assms(2) by (cases n) (auto simp: worker_destroy_def close_worker_def with_clients_def)
  have u: "worker_destroy r_del (p, s) n' = None" if "slave_sockets s \<noteq> {}" for p s n'
    using that by (simp add: worker_destroy_def close_worker_def)
  show ?thesis
  proof (cases "worker_events_ctl es new_worker")
    case None
    then show ?thesis by (simp add: worker_main_def server_main_def c worker_start_def)
  next
    case (Some x)
    obtain e s stray where "x = (e, s, stray)" by (cases x)
    with Some show ?thesis
      by (cases "slave_sockets s = {}") (simp_all add: worker_main_def server_main_def c worker_start_def d u)
  qed
qed

section \<open>The process of the server\<close>

text \<open>The server's object: its ends of the socket pairs, and what it has written into them. An event is a
  socket that was accepted, or a value that is not positive, with a random number.\<close>

type_synonym p6_server = "int list \<times> fd_channel list"

definition p6_server_construct :: "results \<Rightarrow> int list \<Rightarrow> sys \<Rightarrow> (unit thrown, sockets \<times> p6_server, sys) outcome" where
  "p6_server_construct r fd_passing n = (case passing_construct r fd_passing n of
      (Inl e, n1) \<Rightarrow> (Inl e, n1) | (Inr (p, fds), n1) \<Rightarrow> (Inr (p, fds, replicate NUM_WORKERS []), n1))"

definition p6_server_start :: "(int \<times> nat) list \<Rightarrow> sockets \<times> p6_server \<Rightarrow> sys \<Rightarrow> (unit thrown \<times> (sockets \<times> p6_server) \<times> sys) option" where
  "p6_server_start es obj n =
     Some (System_Error, (fst obj, fst (snd obj), fold (\<lambda>(fd, r). process_master_event fd r) es (snd (snd obj))),
       n\<lparr>open_fds := open_fds n \<union> {fd \<in> fst ` set es. fd > 0}\<rparr>)"

definition p6_server_destroy :: "int \<Rightarrow> sockets \<times> p6_server \<Rightarrow> sys \<Rightarrow> sys ended option" where
  "p6_server_destroy r_del obj n = close_passing_server r_del (fst (snd obj)) (fst obj) n"

definition p6_server_main :: "results \<Rightarrow> int list \<Rightarrow> (int \<times> nat) list \<Rightarrow> int \<Rightarrow> sys \<Rightarrow> sys ended option" where
  "p6_server_main r fd_passing es r_del =
     server_main (p6_server_construct r fd_passing) (p6_server_start es) (p6_server_destroy r_del)"

definition p6_server_run :: "(int \<times> nat) list \<Rightarrow> p6_server \<Rightarrow> (unit thrown \<times> p6_server \<times> int set) option" where
  "p6_server_run es s = Some (System_Error, (fst s, fold (\<lambda>(fd, r). process_master_event fd r) es (snd s)), {fd \<in> fst ` set es. fd > 0})"

definition p6_server_finish :: "p6_server \<Rightarrow> sys \<Rightarrow> sys ended option" where
  "p6_server_finish s n = Some (Returns (n\<lparr>open_fds := open_fds n - set (fst s)\<rparr>))"

interpretation p6: server_life "Inr (fds, replicate NUM_WORKERS []) :: unit + p6_server" "\<lambda>n. n" "p6_server_run es"
    "\<lambda>_. {}" p6_server_finish "\<lambda>r. p6_server_construct r fds" "p6_server_start es" p6_server_destroy
  by unfold_locales (simp_all add: p6_server_construct_def passing_construct_def p6_server_start_def p6_server_run_def
      p6_server_destroy_def p6_server_finish_def close_passing_server_def with_clients_def
      split: option.split ended.split sum.split prod.split)

text \<open>The server keeps a descriptor of every client it has ever accepted, also of those that are gone: each
  was passed on as a copy, and only the worker closes its own.\<close>

theorem p6_server_keeps_clients:
  assumes "fresh_fds r n" "opens r" "r_del \<noteq> -1" "\<forall>fd\<in>fst ` set es. fd \<noteq> r_epoll r \<and> fd \<noteq> r_socket r"
  shows "p6_server_main r fds es r_del n = Some (Returns (n\<lparr>open_fds := (open_fds n \<union> {fd \<in> fst ` set es. fd > 0}) - set fds\<rparr>))"
proof -
  have "{fd \<in> fst ` set es. fd > 0} - {r_epoll r, r_socket r} = {fd \<in> fst ` set es. fd > 0}" using assms(4) by auto
  with p6.main_runs [OF refl assms(2,1), of fds es r_del] assms(3) show ?thesis
    by (simp add: p6_server_main_def p6_server_run_def p6_server_finish_def still_open_def)
qed

end
