(* ===== verification/Merge_Sort.thy ===== *)
theory Merge_Sort imports Prelude begin

text \<open>
  The merge sorts of p9: the sequential one (p9/n_merge_sort.cpp) and the one with OpenMP tasks
  (p9/p_merge_sort.cpp), which share \<open>merge\<close> and the recursion. Borders are inclusive indices, so
  the empty range is \<open>l, l - 1\<close>; they are integers here, and for arrays of up to \<open>2 ^ 30\<close>
  elements (the program has \<open>10 ^ 6\<close>) the sum of two borders does not overflow an int. The
  array \<open>tmp\<close> is the list of what has been written to it so far, \<open>k\<close> its length.
\<close>

section \<open>The code\<close>

function merge_take :: "'a::linorder list \<Rightarrow> int \<Rightarrow> int \<Rightarrow> int \<Rightarrow> int \<Rightarrow> 'a list \<Rightarrow> int \<times> int \<times> 'a list" where
  "merge_take a m_border r_border i j tmp =
     (if i \<le> m_border \<and> j \<le> r_border
      then (if a ! nat i < a ! nat j then merge_take a m_border r_border (i + 1) j (tmp @ [a ! nat i])
            else merge_take a m_border r_border i (j + 1) (tmp @ [a ! nat j]))
      else (i, j, tmp))"
  by pat_completeness auto
termination
  by (relation "measure (\<lambda>(a, m, r, i, j, tmp). nat (m - i + 1) + nat (r - j + 1))") auto

declare merge_take.simps [simp del]

text \<open>The source and the target of \<open>memcpy\<close>.\<close>

definition segment :: "'a list \<Rightarrow> int \<Rightarrow> int \<Rightarrow> 'a list" where
  "segment a i n = take (nat n) (drop (nat i) a)"

definition write_at :: "'a list \<Rightarrow> int \<Rightarrow> 'a list \<Rightarrow> 'a list" where
  "write_at a l xs = take (nat l) a @ xs @ drop (nat l + length xs) a"

definition merge :: "'a::linorder list \<Rightarrow> int \<Rightarrow> int \<Rightarrow> int \<Rightarrow> 'a list" where
  "merge a l_border m_border r_border =
     (let (i, j, tmp) = merge_take a m_border r_border l_border (m_border + 1) [];
          tmp1 = (if m_border - i + 1 \<noteq> 0 then tmp @ segment a i (m_border - i + 1) else tmp);
          tmp2 = (if r_border - j + 1 \<noteq> 0 then tmp1 @ segment a j (r_border - j + 1) else tmp1)
      in write_at a l_border tmp2)"

function mergesort :: "'a::linorder list \<Rightarrow> int \<Rightarrow> int \<Rightarrow> 'a list" where
  "mergesort a l_border r_border =
     (if l_border < r_border
      then (let m_border = (l_border + r_border) div 2;
                a1 = mergesort a l_border m_border;
                a2 = mergesort a1 (m_border + 1) r_border
            in merge a2 l_border m_border r_border)
      else a)"
  by pat_completeness auto
termination
  by (relation "measure (\<lambda>(a, l, r). nat (r - l))") auto

declare mergesort.simps [simp del]

text \<open>
  The tasks of the parallel version. \<open>Todo\<close>: a call of \<open>mergesort\<close> not yet begun; \<open>Wait\<close>: its
  two tasks are created and it is at \<open>taskwait\<close>; \<open>Finished\<close>: it has returned. Any task can make
  the next step.
\<close>

datatype job = Todo int int | Wait job job int int int | Finished

inductive task_step :: "job \<times> 'a::linorder list \<Rightarrow> job \<times> 'a list \<Rightarrow> bool" where
  spawn: "l < r \<Longrightarrow> m = (l + r) div 2 \<Longrightarrow> task_step (Todo l r, a) (Wait (Todo l m) (Todo (m + 1) r) l m r, a)"
| small: "\<not> l < r \<Longrightarrow> task_step (Todo l r, a) (Finished, a)"
| left: "task_step (p, a) (p', a') \<Longrightarrow> task_step (Wait p q l m r, a) (Wait p' q l m r, a')"
| right: "task_step (q, a) (q', a') \<Longrightarrow> task_step (Wait p q l m r, a) (Wait p q' l m r, a')"
| join: "task_step (Wait Finished Finished l m r, a) (Finished, merge a l m r)"

inductive_cases task_stepE: "task_step (p, a) (p', a')"

section \<open>Slices\<close>

lemma length_segment: "0 \<le> i \<Longrightarrow> 0 \<le> n \<Longrightarrow> i + n \<le> int (length a) \<Longrightarrow> length (segment a i n) = nat n"
  by (simp add: segment_def)

lemma segment_Cons: "0 \<le> i \<Longrightarrow> 0 < n \<Longrightarrow> i + n \<le> int (length a) \<Longrightarrow> segment a i n = a ! nat i # segment a (i + 1) (n - 1)"
  by (simp add: segment_def Cons_nth_drop_Suc [symmetric] nat_add_distrib take_Cons' nat_diff_distrib)

lemma segment_Nil [simp]: "n \<le> 0 \<Longrightarrow> segment a i n = []"
  by (simp add: segment_def)

lemma segment_append:
  "0 \<le> i \<Longrightarrow> 0 \<le> n \<Longrightarrow> 0 \<le> k \<Longrightarrow> segment a i n @ segment a (i + n) k = segment a i (n + k)"
  using take_add [of "nat n" "nat k" "drop (nat i) a"] by (simp add: segment_def nat_add_distrib ac_simps)

lemma nth_segment:
  "0 \<le> i \<Longrightarrow> i + n \<le> int (length a) \<Longrightarrow> int x < n \<Longrightarrow> segment a i n ! x = a ! (nat i + x)"
  by (simp add: segment_def)

section \<open>merge\<close>

fun merged :: "'a::linorder list \<Rightarrow> 'a list \<Rightarrow> 'a list" where
  "merged [] ys = ys"
| "merged xs [] = xs"
| "merged (x # xs) (y # ys) = (if x < y then x # merged xs (y # ys) else y # merged (x # xs) ys)"

lemma merged_Nil2 [simp]: "merged xs [] = xs"
  by (cases xs) simp_all

lemma length_merged [simp]: "length (merged xs ys) = length xs + length ys"
  by (induction xs ys rule: merged.induct) auto

lemma mset_merged [simp]: "mset (merged xs ys) = mset xs + mset ys"
  by (induction xs ys rule: merged.induct) auto

lemma set_merged [simp]: "set (merged xs ys) = set xs \<union> set ys"
  by (metis mset_merged set_mset_mset set_mset_union)

lemma sorted_merged: "sorted xs \<Longrightarrow> sorted ys \<Longrightarrow> sorted (merged xs ys)"
  by (induction xs ys rule: merged.induct) (auto intro: order.trans less_imp_le)

lemma merge_loop_merged:
  assumes "0 \<le> i" "i \<le> m + 1" "m < j" "j \<le> r + 1" "r < int (length a)"
  shows "case merge_take a m r i j tmp of (i', j', tmp') \<Rightarrow>
     i' \<le> m + 1 \<and> j' \<le> r + 1
     \<and> tmp' @ segment a i' (m - i' + 1) @ segment a j' (r - j' + 1)
       = tmp @ merged (segment a i (m - i + 1)) (segment a j (r - j + 1))"
  using assms
proof (induction a m r i j tmp rule: merge_take.induct)
  case (1 a m r i j tmp)
  show ?case
  proof (cases "i \<le> m \<and> j \<le> r")
    case True
    have "segment a i (m - i + 1) = a ! nat i # segment a (i + 1) (m - i)"
      "segment a j (r - j + 1) = a ! nat j # segment a (j + 1) (r - j)"
      using segment_Cons [of i "m - i + 1" a] segment_Cons [of j "r - j + 1" a] True 1 by simp_all
    with True 1 show ?thesis
      by (subst merge_take.simps) (auto simp: algebra_simps split: prod.splits)
  next
    case False
    with 1 have "segment a i (m - i + 1) = [] \<or> segment a j (r - j + 1) = []" by auto
    with False 1 show ?thesis by (subst merge_take.simps) auto
  qed
qed

lemma merge_merged:
  assumes "0 \<le> l" "l \<le> m + 1" "m \<le> r" "r < int (length a)"
  shows "merge a l m r = write_at a l (merged (segment a l (m - l + 1)) (segment a (m + 1) (r - m)))"
proof -
  obtain i j tmp where loop: "merge_take a m r l (m + 1) [] = (i, j, tmp)" by (metis prod_cases3)
  from merge_loop_merged [of l m "m + 1" r a "[]"] assms loop
  have "tmp @ segment a i (m - i + 1) @ segment a j (r - j + 1) = merged (segment a l (m - l + 1)) (segment a (m + 1) (r - m))"
    by simp
  moreover have "m - i + 1 = 0 \<Longrightarrow> segment a i (m - i + 1) = []" "r - j + 1 = 0 \<Longrightarrow> segment a j (r - j + 1) = []"
    by simp_all
  ultimately show ?thesis by (auto simp: merge_def loop Let_def)
qed

section \<open>The sequential sort\<close>

lemma length_write_at [simp]:
  "0 \<le> l \<Longrightarrow> l + int (length xs) \<le> int (length a) \<Longrightarrow> length (write_at a l xs) = length a"
  by (simp add: write_at_def)

lemma nth_write_at:
  assumes "0 \<le> l" "l + int (length xs) \<le> int (length a)" "i < length a"
  shows "write_at a l xs ! i = (if l \<le> int i \<and> int i < l + int (length xs) then xs ! (i - nat l) else a ! i)"
proof -
  consider "i < nat l" | "nat l \<le> i" "i < nat l + length xs" | "nat l + length xs \<le> i" by linarith
  then show ?thesis
  proof cases
    case 1
    then have "i < min (length a) (nat l)" "\<not> l \<le> int i" using assms(3) by (simp, linarith)
    then show ?thesis using 1 by (simp add: write_at_def nth_append)
  next
    case 2
    then have "min (length a) (nat l) = nat l" "l \<le> int i" "int i < l + int (length xs)" "i - nat l < length xs"
      using assms by (simp, linarith, linarith, linarith)
    then show ?thesis using 2 by (simp add: write_at_def nth_append)
  next
    case 3
    then have "min (length a) (nat l) = nat l" "\<not> int i < l + int (length xs)" "\<not> i - nat l < length xs"
      using assms by (simp, linarith, linarith)
    then show ?thesis using 3 assms by (simp add: write_at_def nth_append)
  qed
qed

lemma segment_cong:
  assumes "length a = length b" "0 \<le> i" "0 \<le> n" "i + n \<le> int (length a)"
    and "\<And>x. nat i \<le> x \<Longrightarrow> int x < i + n \<Longrightarrow> a ! x = b ! x"
  shows "segment a i n = segment b i n"
proof (rule nth_equalityI)
  show "length (segment a i n) = length (segment b i n)" using assms by (simp add: length_segment)
  fix x assume "x < length (segment a i n)"
  then have "x < nat n" using assms by (simp add: length_segment)
  with assms show "segment a i n ! x = segment b i n ! x" by (simp add: nth_segment)
qed

lemma segment_write_at:
  assumes "0 \<le> l" "l + int (length xs) \<le> int (length a)"
  shows "segment (write_at a l xs) l (int (length xs)) = xs"
  using assms by (auto simp: write_at_def segment_def)

lemma segment_write_at_other:
  assumes "0 \<le> l" "l + int (length xs) \<le> int (length a)" "0 \<le> i" "0 \<le> n" "i + n \<le> int (length a)"
    "i + n \<le> l \<or> l + int (length xs) \<le> i"
  shows "segment (write_at a l xs) i n = segment a i n"
  by (rule segment_cong) (use assms in \<open>auto simp: nth_write_at\<close>)

lemma write_at_again:
  assumes "0 \<le> l" "length zs = length xs + length ys" "l + int (length zs) \<le> int (length a)"
    "l' = l + int (length xs)"
  shows "write_at (write_at (write_at a l xs) l' ys) l zs = write_at a l zs"
  by (rule nth_equalityI) (use assms in \<open>auto simp: nth_write_at\<close>)

lemma write_at_segment: "0 \<le> l \<Longrightarrow> 0 \<le> n \<Longrightarrow> l + n \<le> int (length a) \<Longrightarrow> write_at a l (segment a l n) = a"
  by (rule nth_equalityI) (auto simp: nth_write_at length_segment nth_segment)

lemma sorted_segment_1: "r \<le> l \<Longrightarrow> sort (segment a l (r - l + 1)) = segment a l (r - l + 1)"
proof -
  assume "r \<le> l"
  then have "nat (r - l + 1) \<le> 1" by simp
  then have "length (segment a l (r - l + 1)) \<le> 1" unfolding segment_def by (simp add: min.coboundedI2)
  then show ?thesis by (cases "segment a l (r - l + 1)") auto
qed

lemma merged_sort: "merged (sort xs) (sort ys) = sort (xs @ ys)"
  by (rule properties_for_sort [symmetric]) (simp_all add: sorted_merged)

lemma mergesort_sort:
  assumes "0 \<le> l" "l \<le> r + 1" "r < int (length a)"
  shows "mergesort a l r = write_at a l (sort (segment a l (r - l + 1)))"
  using assms
proof (induction a l r rule: mergesort.induct)
  case (1 a l r)
  show ?case
  proof (cases "l < r")
    case False
    then show ?thesis using 1 sorted_segment_1 [of r l a]
      by (subst mergesort.simps) (simp add: write_at_segment)
  next
    case True
    define m where "m = (l + r) div 2"
    then have m: "l \<le> m" "m < r" using True by auto
    define xs ys where "xs = segment a l (m - l + 1)" and "ys = segment a (m + 1) (r - m)"
    have len: "length xs = nat (m - l + 1)" "length ys = nat (r - m)"
      using 1 m by (simp_all add: xs_def ys_def length_segment)
    define a1 where "a1 = write_at a l (sort xs)"
    define a2 where "a2 = write_at a1 (m + 1) (sort ys)"
    have a1: "mergesort a l m = a1" "length a1 = length a"
      using 1(1) [OF True m_def] m 1(3-5) len by (simp_all add: a1_def xs_def)
    have "segment a1 (m + 1) (r - m) = ys"
      unfolding a1_def ys_def by (rule segment_write_at_other) (use m 1(3-5) len in auto)
    then have a2: "mergesort a1 (m + 1) r = a2" "length a2 = length a"
      using 1(2) [OF True m_def refl] m 1(3-5) len a1 by (simp_all add: a2_def)
    have "segment a2 l (m - l + 1) = sort xs"
    proof -
      have "segment a2 l (m - l + 1) = segment a1 l (m - l + 1)"
        unfolding a2_def by (rule segment_write_at_other) (use m 1(3-5) len a1 in auto)
      also have "\<dots> = sort xs"
        using segment_write_at [of l "sort xs" a] m 1(3-5) len by (simp add: a1_def)
      finally show ?thesis .
    qed
    moreover have "segment a2 (m + 1) (r - m) = sort ys"
      using segment_write_at [of "m + 1" "sort ys" a1] m 1(3-5) len a1 by (simp add: a2_def)
    ultimately have "merge a2 l m r = write_at a2 l (sort (xs @ ys))"
      using merge_merged [of l m r a2] m 1(3-5) a2 by (simp add: merged_sort)
    also have "\<dots> = write_at a l (sort (xs @ ys))"
      unfolding a2_def a1_def by (rule write_at_again) (use m 1(3-5) len in auto)
    also have "xs @ ys = segment a l (r - l + 1)"
      using segment_append [of l "m - l + 1" "r - m" a] m 1(3-5) by (simp add: xs_def ys_def algebra_simps)
    finally show ?thesis using True a1 a2 by (subst mergesort.simps) (simp flip: m_def)
  qed
qed

end
