(* ===== verification/Sort_Props.thy ===== *)
theory Sort_Props imports Merge_Sort begin

text \<open>
  The properties of the merge sorts of p9: the sequential one sorts the range and touches
  nothing else; every schedule of the OpenMP tasks ends, and with the same array.
\<close>

section \<open>Operations on disjoint ranges commute\<close>

text \<open>\<open>local n l r f\<close>: on arrays of length \<open>n\<close>, \<open>f\<close> reads and writes the indices from \<open>l\<close>
  to \<open>r\<close> only.\<close>

definition local :: "nat \<Rightarrow> int \<Rightarrow> int \<Rightarrow> ('a list \<Rightarrow> 'a list) \<Rightarrow> bool" where
  "local n l r f \<longleftrightarrow>
     (\<forall>a. length a = n \<longrightarrow> length (f a) = n \<and> (\<forall>i<n. int i < l \<or> r < int i \<longrightarrow> f a ! i = a ! i))
     \<and> (\<forall>a b. length a = n \<longrightarrow> length b = n \<longrightarrow> (\<forall>i<n. l \<le> int i \<and> int i \<le> r \<longrightarrow> a ! i = b ! i)
          \<longrightarrow> (\<forall>i<n. l \<le> int i \<and> int i \<le> r \<longrightarrow> f a ! i = f b ! i))"

lemma localD:
  assumes "local n l r f" "length a = n"
  shows "length (f a) = n" "i < n \<Longrightarrow> int i < l \<or> r < int i \<Longrightarrow> f a ! i = a ! i"
  using assms by (auto simp: local_def)

lemma localE:
  assumes "local n l r f" "length a = n" "length b = n" "i < n" "l \<le> int i" "int i \<le> r"
    "\<And>k. k < n \<Longrightarrow> l \<le> int k \<Longrightarrow> int k \<le> r \<Longrightarrow> a ! k = b ! k"
  shows "f a ! i = f b ! i"
  using assms unfolding local_def by blast

lemma localI:
  assumes "\<And>a. length a = n \<Longrightarrow> length (f a) = n"
    and "\<And>a i. length a = n \<Longrightarrow> i < n \<Longrightarrow> int i < l \<or> r < int i \<Longrightarrow> f a ! i = a ! i"
    and "\<And>a b i. length a = n \<Longrightarrow> length b = n \<Longrightarrow> \<forall>k<n. l \<le> int k \<and> int k \<le> r \<longrightarrow> a ! k = b ! k \<Longrightarrow>
      i < n \<Longrightarrow> l \<le> int i \<Longrightarrow> int i \<le> r \<Longrightarrow> f a ! i = f b ! i"
  shows "local n l r f"
proof -
  have "length (f a) = n \<and> (\<forall>i<n. int i < l \<or> r < int i \<longrightarrow> f a ! i = a ! i)" if "length a = n" for a
    using assms(1,2) [OF that] by blast
  moreover have "\<forall>i<n. l \<le> int i \<and> int i \<le> r \<longrightarrow> f a ! i = f b ! i"
    if "length a = n" "length b = n" "\<forall>k<n. l \<le> int k \<and> int k \<le> r \<longrightarrow> a ! k = b ! k" for a b
    using assms(3) [OF that] by blast
  ultimately show ?thesis unfolding local_def by (intro conjI allI impI) (assumption | blast)+
qed

lemma local_commute:
  assumes f: "local n l m f" and h: "local n (m + 1) r h" and a: "length a = n"
  shows "f (h a) = h (f a)"
proof (rule nth_equalityI)
  note len = localD(1) [OF f] localD(1) [OF h]
  show "length (f (h a)) = length (h (f a))" using len a by simp
  fix i assume "i < length (f (h a))"
  then have i: "i < n" using len a by simp
  consider "l \<le> int i" "int i \<le> m" | "m + 1 \<le> int i" "int i \<le> r" | "int i < l \<or> m < int i" "int i < m + 1 \<or> r < int i"
    by linarith
  then show "f (h a) ! i = h (f a) ! i"
  proof cases
    case 1
    have "f (h a) ! i = f a ! i"
      by (rule localE [OF f _ a i 1]) (use len a localD(2) [OF h a] in auto)
    with 1 i len a localD(2) [OF h, of "f a" i] show ?thesis by simp
  next
    case 2
    have "h (f a) ! i = h a ! i"
      by (rule localE [OF h _ a i 2]) (use len a localD(2) [OF f a] in auto)
    with 2 i len a localD(2) [OF f, of "h a" i] show ?thesis by simp
  next
    case 3
    then show ?thesis using localD(2) [OF f] localD(2) [OF h] len a i by simp
  qed
qed

lemma local_id: "local n l r (\<lambda>a. a)"
  by (simp add: local_def)

lemma local_mono:
  fixes f :: "'a list \<Rightarrow> 'a list"
  assumes f: "local n l r f" and "l' \<le> l" "r \<le> r'"
  shows "local n l' r' f"
proof (rule localI)
  fix a :: "'a list" assume "length a = n"
  then show "length (f a) = n" by (rule localD(1) [OF f])
next
  fix a :: "'a list" and i assume "length a = n" "i < n" "int i < l' \<or> r' < int i"
  then show "f a ! i = a ! i" by (intro localD(2) [OF f]) (use assms(2,3) in linarith)+
next
  fix a b :: "'a list" and i assume ab: "length a = n" "length b = n" "\<forall>k<n. l' \<le> int k \<and> int k \<le> r' \<longrightarrow> a ! k = b ! k"
    and i: "i < n" "l' \<le> int i" "int i \<le> r'"
  show "f a ! i = f b ! i"
  proof (cases "l \<le> int i \<and> int i \<le> r")
    case True
    show ?thesis by (rule localE [OF f ab(1,2) i(1)]) (use True ab(3) assms(2,3) in auto)
  next
    case False
    then have "int i < l \<or> r < int i" by linarith
    then have "f a ! i = a ! i" "f b ! i = b ! i"
      using localD(2) [OF f ab(1) i(1)] localD(2) [OF f ab(2) i(1)] by blast+
    with ab(3) i show ?thesis by simp
  qed
qed

lemma local_comp:
  fixes f g :: "'a list \<Rightarrow> 'a list"
  shows "local n l r f \<Longrightarrow> local n l r g \<Longrightarrow> local n l r (\<lambda>a. g (f a))"
proof (rule localI)
  fix a b :: "'a list" and i assume f: "local n l r f" and g: "local n l r g" and a: "length a = n" "length b = n"
    and eq: "\<forall>k<n. l \<le> int k \<and> int k \<le> r \<longrightarrow> a ! k = b ! k" and i: "i < n" "l \<le> int i" "int i \<le> r"
  have "f a ! k = f b ! k" if "k < n" "l \<le> int k" "int k \<le> r" for k
    by (rule localE [OF f a that]) (use eq in auto)
  then show "g (f a) ! i = g (f b) ! i"
    by (intro localE [OF g localD(1) [OF f a(1)] localD(1) [OF f a(2)] i]) auto
qed (auto simp: localD)

lemma local_write:
  fixes f :: "'a list \<Rightarrow> 'a list"
  assumes "0 \<le> l" "l \<le> r + 1" "r < int n"
    and "\<And>a. length a = n \<Longrightarrow> f a = write_at a l (g (segment a l (r - l + 1)))"
    and "\<And>xs. length xs = nat (r - l + 1) \<Longrightarrow> length (g xs) = nat (r - l + 1)"
  shows "local n l r f"
proof -
  have len: "length (g (segment a l (r - l + 1))) = nat (r - l + 1)" if "length a = n" for a
    using assms(1-3,5) that by (simp add: length_segment)
  have "segment a l (r - l + 1) = segment b l (r - l + 1)"
    if "length a = n" "length b = n" "\<And>i. i < n \<Longrightarrow> l \<le> int i \<Longrightarrow> int i \<le> r \<Longrightarrow> a ! i = b ! i" for a b
    by (rule segment_cong) (use that assms(1-3) in auto)
  note seg = this
  show ?thesis
  proof (rule localI)
    fix a :: "'a list" assume "length a = n"
    then show "length (f a) = n" using assms(1-4) len [of a] by simp
  next
    fix a :: "'a list" and i assume "length a = n" "i < n" "int i < l \<or> r < int i"
    then show "f a ! i = a ! i" using assms(1-4) len [of a] by (auto simp: nth_write_at)
  next
    fix a b :: "'a list" and i assume "length a = n" "length b = n" "\<forall>k<n. l \<le> int k \<and> int k \<le> r \<longrightarrow> a ! k = b ! k"
      "i < n" "l \<le> int i" "int i \<le> r"
    moreover from this have "segment a l (r - l + 1) = segment b l (r - l + 1)" by (intro seg) auto
    ultimately show "f a ! i = f b ! i" using assms(1-4) len [of a] by (simp add: nth_write_at)
  qed
qed

lemma local_mergesort:
  fixes n :: nat
  assumes "0 \<le> l" "l \<le> r + 1" "r < int n"
  shows "local n l r (\<lambda>a. mergesort a l r)"
  by (rule local_write [where g = sort]) (use assms mergesort_sort in auto)

lemma local_merge:
  assumes "0 \<le> l" "l \<le> m" "m < r" "r < int n"
  shows "local n l r (\<lambda>a. merge a l m r)"
proof (rule local_write [where g = "\<lambda>xs. merged (take (nat (m - l + 1)) xs) (drop (nat (m - l + 1)) xs)"])
  fix a :: "'a list" assume a: "length a = n"
  have "segment a l (r - l + 1) = segment a l (m - l + 1) @ segment a (m + 1) (r - m)"
    using segment_append [of l "m - l + 1" "r - m" a] assms by (simp add: algebra_simps)
  moreover have "length (segment a l (m - l + 1)) = nat (m - l + 1)" using assms a by (simp add: length_segment)
  ultimately show "merge a l m r = write_at a l (merged (take (nat (m - l + 1)) (segment a l (r - l + 1)))
      (drop (nat (m - l + 1)) (segment a l (r - l + 1))))"
    using merge_merged [of l m r a] assms a by simp
qed (use assms in auto)

section \<open>Schedules\<close>

text \<open>The tasks of a call on the range from \<open>l\<close> to \<open>r\<close>, and what they do when they are run
  one after the other to the end.\<close>

fun on_range :: "int \<Rightarrow> int \<Rightarrow> job \<Rightarrow> bool" where
  "on_range l r (Todo l' r') \<longleftrightarrow> l' = l \<and> r' = r"
| "on_range l r Finished \<longleftrightarrow> True"
| "on_range l r (Wait p q l' m r') \<longleftrightarrow> l' = l \<and> r' = r \<and> l \<le> m \<and> m < r \<and> on_range l m p \<and> on_range (m + 1) r q"

fun complete :: "job \<Rightarrow> 'a::linorder list \<Rightarrow> 'a list" where
  "complete (Todo l r) a = mergesort a l r"
| "complete Finished a = a"
| "complete (Wait p q l m r) a = merge (complete q (complete p a)) l m r"

lemma local_complete:
  fixes p :: job and a :: "'a::linorder list"
  assumes "on_range l r p" "0 \<le> l" "l \<le> r + 1" "r < int n"
  shows "local n l r (complete p :: 'a list \<Rightarrow> 'a list)"
  using assms
proof (induction p arbitrary: l r)
  case (Todo l' r')
  then show ?case using local_mergesort [of l r n] by (simp add: fun_eq_iff [symmetric])
next
  case (Wait p q l' m r')
  from Wait.prems have "local n l m (complete p :: 'a list \<Rightarrow> 'a list)" "local n (m + 1) r (complete q :: 'a list \<Rightarrow> 'a list)"
    by (auto intro!: Wait.IH)
  then have "local n l r (complete p :: 'a list \<Rightarrow> 'a list)" "local n l r (complete q :: 'a list \<Rightarrow> 'a list)"
    using Wait.prems by (auto elim: local_mono)
  from local_comp [OF this] have "local n l r (\<lambda>a. complete q (complete p a) :: 'a list)" .
  moreover have "local n l r (\<lambda>a. merge a l m r :: 'a list)" using Wait.prems by (intro local_merge) auto
  ultimately have "local n l r (\<lambda>a. merge (complete q (complete p a)) l m r :: 'a list)" by (rule local_comp)
  with Wait.prems show ?case by (simp add: fun_eq_iff [symmetric])
next
  case Finished
  then show ?case using local_id by (simp add: local_def)
qed

text \<open>A step is a local change of the array, and leaves the final result alone on any array.\<close>

lemma task_step_effect:
  assumes "task_step (p, a) (p', a')" "on_range l r p" "0 \<le> l" "l \<le> r + 1" "r < int n" "length a = n"
  shows "on_range l r p' \<and> (\<exists>h. local n l r h \<and> a' = h a \<and> (\<forall>x. length x = n \<longrightarrow> complete p' (h x) = complete p x))"
  using assms
proof (induction "(p, a)" "(p', a')" arbitrary: p a p' a' l r rule: task_step.induct)
  case (spawn l' r' m a)
  then have "complete (Wait (Todo l' m) (Todo (m + 1) r') l' m r') x = complete (Todo l' r') x" for x
    using spawn.hyps by (simp add: Let_def) (subst (3) mergesort.simps, simp add: Let_def)
  with spawn show ?case by (auto intro!: exI [of _ "\<lambda>x. x"] local_id)
next
  case (small l' r' a)
  then have "complete Finished x = complete (Todo l' r') x" for x
    using small.hyps by (simp, subst mergesort.simps, simp)
  then show ?case using small by (auto intro!: exI [of _ "\<lambda>x. x"] local_id)
next
  case (left p a p' a' q l' m r')
  then have "on_range l m p'" and "\<exists>h. local n l m h \<and> a' = h a \<and> (\<forall>x. length x = n \<longrightarrow> complete p' (h x) = complete p x)"
    using left.hyps(2) [of l m] by auto
  then obtain h where h: "local n l m h" "a' = h a" "\<And>x. length x = n \<Longrightarrow> complete p' (h x) = complete p x" by blast
  have "local n l r h" by (rule local_mono [OF h(1)]) (use left.prems in auto)
  with h left.prems \<open>on_range l m p'\<close> show ?case by auto
next
  case (right q a q' a' p l' m r')
  then have "on_range (m + 1) r q'"
    and "\<exists>h. local n (m + 1) r h \<and> a' = h a \<and> (\<forall>x. length x = n \<longrightarrow> complete q' (h x) = complete q x)"
    using right.hyps(2) [of "m + 1" r] by auto
  then obtain h where h: "local n (m + 1) r h" "a' = h a" "\<And>x. length x = n \<Longrightarrow> complete q' (h x) = complete q x" by blast
  have p: "local n l m (complete p)" by (rule local_complete) (use right.prems in auto)
  have "complete q' (complete p (h x)) = complete q (complete p x)" if "length x = n" for x
    using local_commute [OF p h(1) that] h(3) [OF localD(1) [OF p that]] by simp
  moreover have "local n l r h" by (rule local_mono [OF h(1)]) (use right.prems in auto)
  ultimately show ?case using h right.prems \<open>on_range (m + 1) r q'\<close> by auto
next
  case (join l' m r' a)
  then have "local n l r (\<lambda>a. merge a l m r)" by (intro local_merge) auto
  with join show ?case by (auto intro!: exI [of _ "\<lambda>a. merge a l m r"])
qed

lemma schedule_complete:
  assumes "task_step\<^sup>*\<^sup>* s s'" "on_range l r (fst s)" "0 \<le> l" "l \<le> r + 1" "r < int (length (snd s))"
  shows "on_range l r (fst s') \<and> length (snd s') = length (snd s)
     \<and> complete (fst s') (snd s') = complete (fst s) (snd s)"
  using assms
proof (induction rule: rtranclp_induct)
  case (step t u)
  obtain p a p' a' where tu: "t = (p, a)" "u = (p', a')" by (cases t; cases u) auto
  from step have IH: "on_range l r p" "length a = length (snd s)" "complete p a = complete (fst s) (snd s)"
    by (simp_all add: tu)
  from step.hyps(2) have "task_step (p, a) (p', a')" by (simp add: tu)
  from task_step_effect [OF this IH(1) step.prems(2,3) step.prems(4) IH(2)] obtain h where
    "on_range l r p'" "local (length (snd s)) l r h" "a' = h a"
    "\<forall>x. length x = length (snd s) \<longrightarrow> complete p' (h x) = complete p x" by blast
  with IH localD(1) show ?case by (fastforce simp: tu)
qed simp

fun work :: "job \<Rightarrow> nat" where
  "work (Todo l r) = 4 * nat (r - l) + 1"
| "work Finished = 0"
| "work (Wait p q l m r) = work p + work q + 1"

lemma task_step_work: "task_step (p, a) (p', a') \<Longrightarrow> work p' < work p"
proof (induction "(p, a)" "(p', a')" arbitrary: p a p' a' rule: task_step.induct)
  case (spawn l r m a)
  then have "nat (m - l) + nat (r - (m + 1)) + 1 = nat (r - l)" by linarith
  then show ?case by simp
qed auto

lemma task_progress: "p \<noteq> Finished \<Longrightarrow> \<exists>s'. task_step (p, a) s'"
proof (induction p)
  case (Todo l r)
  then show ?case using task_step.spawn [of l r _ a] task_step.small [of l r a] by blast
next
  case (Wait p q l m r)
  show ?case
  proof (cases "p = Finished \<and> q = Finished")
    case True
    then show ?thesis using task_step.join by blast
  next
    case False
    then show ?thesis using Wait.IH task_step.left task_step.right
      by (metis surj_pair)
  qed
qed simp

interpretation tasks: descending task_step "\<lambda>_. True" "\<lambda>s. work (fst s)" "\<lambda>s. fst s = Finished"
proof unfold_locales
  show "True \<and> work (fst t) < work (fst s)" if "task_step s t" for s t :: "job \<times> 'a list"
    using task_step_work [of "fst s" "snd s" "fst t" "snd t"] that by simp
  show "\<exists>t. task_step s t" if "fst s \<noteq> Finished" for s :: "job \<times> 'a list"
    using task_progress [of "fst s" "snd s"] that by simp
qed

section \<open>Properties\<close>

text \<open>C13: Sequential sort: after \<open>mergesort(a, l, r)\<close> the elements from \<open>l\<close> to \<open>r\<close> are those
  that were there, in ascending order, and every other element is as before.\<close>

theorem mergesort_sorts:
  assumes "0 \<le> l" "l \<le> r + 1" "r < int (length a)"
  shows "mergesort a l r = take (nat l) a @ sort (take (nat (r - l + 1)) (drop (nat l) a)) @ drop (nat (r + 1)) a"
proof -
  have "nat l + length (segment a l (r - l + 1)) = nat (r + 1)" using assms by (simp add: length_segment)
  then show ?thesis using mergesort_sort [OF assms] by (simp add: write_at_def segment_def)
qed

theorem mergesort_sorts_witness:
  "mergesort [7, 5, 3, 9, 2, (1::int)] 1 4 = [7, 2, 3, 5, 9, 1]"
  using mergesort_sorts [of 1 4 "[7, 5, 3, 9, 2, (1::int)]"] by simp

text \<open>C15: Parallel sort: whatever the order in which the tasks make their steps, when the call
  has returned the array is the one the sequential sort computes.\<close>

theorem parallel_sort_deterministic:
  assumes "0 \<le> l" "l \<le> r + 1" "r < int (length a)" "task_step\<^sup>*\<^sup>* (Todo l r, a) (Finished, b)"
  shows "b = mergesort a l r"
  using schedule_complete [OF assms(4), of l r] assms(1-3) by simp

lemma small_schedule: "task_step\<^sup>*\<^sup>* (Todo 0 1, [2, 1::int]) (Finished, [1, 2])"
proof -
  have "task_step (Todo 0 1, [2, 1::int]) (Wait (Todo 0 0) (Todo 1 1) 0 0 1, [2, 1])"
    using task_step.spawn [of 0 1 0 "[2, 1::int]"] by simp
  moreover have "task_step (Wait (Todo 0 0) (Todo 1 1) 0 0 1, [2, 1::int]) (Wait (Todo 0 0) Finished 0 0 1, [2, 1])"
    by (intro task_step.right task_step.small) simp
  moreover have "task_step (Wait (Todo 0 0) Finished 0 0 1, [2, 1::int]) (Wait Finished Finished 0 0 1, [2, 1])"
    by (intro task_step.left task_step.small) simp
  moreover have "merge [2, 1::int] 0 0 1 = [1, 2]"
    by (simp add: merge_def merge_take.simps segment_def write_at_def)
  then have "task_step (Wait Finished Finished 0 0 1, [2, 1::int]) (Finished, [1, 2])"
    using task_step.join [of 0 0 1 "[2, 1::int]"] by simp
  ultimately show ?thesis by (meson converse_rtranclp_into_rtranclp rtranclp.rtrancl_refl)
qed

theorem parallel_sort_deterministic_witness: "[1, 2] = mergesort [2, 1::int] 0 1"
  using parallel_sort_deterministic [OF _ _ _ small_schedule] by simp

text \<open>Parallel sort: no schedule is longer than four steps per element and one, and as long
  as the call has not returned some task can make a step, so every schedule ends with its
  return.\<close>

theorem parallel_sort_terminates:
  assumes "(task_step ^^ n) (Todo l r, a) s"
  shows "n \<le> 4 * nat (r - l) + 1 \<and> (fst s \<noteq> Finished \<longrightarrow> (\<exists>s'. task_step s s'))"
  using tasks.run_bound [OF assms] tasks.progress [of s] by auto

theorem parallel_sort_terminates_witness: "(0::nat) \<le> 5 \<and> (\<exists>s'. task_step (Todo 0 1, [2, 1::int]) s')"
  using parallel_sort_terminates [of 0 0 1 "[2, 1::int]" "(Todo 0 1, [2, 1::int])"] by simp

end
