(* ===== verification/Sort_Main.thy ===== *)
theory Sort_Main imports Sort_Props begin

text \<open>
  The main functions of p9 (n_merge_sort.cpp, p_merge_sort.cpp): both fill an array with random numbers
  below 1000 and sort it; the second does so with the tasks of Merge_Sort. The clock is left out.
\<close>

definition SIZE :: nat where "SIZE = 1000000"

text \<open>\<open>rand\<close> gives the result of the \<open>i\<close>-th call.\<close>

definition filled :: "(nat \<Rightarrow> nat) \<Rightarrow> nat list" where
  "filled rand = map (\<lambda>i. rand i mod 1000) [0..<SIZE]"

definition n_main :: "(nat \<Rightarrow> nat) \<Rightarrow> nat list" where
  "n_main rand = mergesort (filled rand) 0 (int SIZE - 1)"

text \<open>The arrays the parallel program can end with.\<close>

definition p_main :: "(nat \<Rightarrow> nat) \<Rightarrow> nat list \<Rightarrow> bool" where
  "p_main rand b \<longleftrightarrow> task_step\<^sup>*\<^sup>* (Todo 0 (int SIZE - 1), filled rand) (Finished, b)"

lemma length_filled [simp]: "length (filled rand) = SIZE"
  by (simp add: filled_def)

lemma n_main_sorts: "n_main rand = sort (filled rand)"
  using mergesort_sort [of 0 "int SIZE - 1" "filled rand"] by (simp add: n_main_def segment_def write_at_def)

text \<open>The two programs end with the same array, the sorted one, whatever the schedule.\<close>

theorem mains_agree: "p_main rand b \<longleftrightarrow> b = n_main rand"
proof -
  have complete: "b = n_main rand" if "p_main rand b" for b
    using that schedule_complete [of "(Todo 0 (int SIZE - 1), filled rand)" "(Finished, b)" 0 "int SIZE - 1"]
    by (simp add: p_main_def n_main_def)
  obtain s where s: "task_step\<^sup>*\<^sup>* (Todo 0 (int SIZE - 1), filled rand) s" "fst s = Finished"
    using tasks.run_ends by blast
  then have "p_main rand (snd s)" by (cases s) (simp add: p_main_def)
  with complete show ?thesis by metis
qed

end
