(* ===== verification/Shell_Parser.thy ===== *)
theory Shell_Parser imports Prelude Scan begin

text \<open>
  The parser of the shell (p4/Parser.cpp): a line becomes a list of operands. One pass with
  three buffers, of which at most one is in use: a command word, an operator made of \<open>&\<close> and
  \<open>|\<close>, a quotation. The quotation marks stay in the operand.
\<close>

section \<open>The parser\<close>

record parser =
  operands :: "string list"
  cmd :: string
  opr :: string
  quote :: string

definition drop_string_to_buffer :: "string \<Rightarrow> string list \<Rightarrow> string list" where
  "drop_string_to_buffer s ops = (if length s > 0 then ops @ [s] else ops)"

definition drop_cmd :: "parser \<Rightarrow> parser" where
  "drop_cmd p = p\<lparr>operands := drop_string_to_buffer (cmd p) (operands p), cmd := []\<rparr>"

definition drop_op :: "parser \<Rightarrow> parser" where
  "drop_op p = p\<lparr>operands := drop_string_to_buffer (opr p) (operands p), opr := []\<rparr>"

definition drop_quote :: "parser \<Rightarrow> parser" where
  "drop_quote p = p\<lparr>operands := drop_string_to_buffer (quote p) (operands p), quote := []\<rparr>"

text \<open>The body of the loop over the characters.\<close>

definition parse_char :: "char \<Rightarrow> parser \<Rightarrow> parser" where
  "parse_char c p =
     (if length (quote p) > 0 then
        (let p1 = p\<lparr>quote := quote p @ [c]\<rparr>
         in if quote p1 ! 0 = c then drop_quote p1 else p1)
      else if isspace c then drop_op (drop_cmd p)
      else if c = CHR ''<'' \<or> c = CHR ''>'' \<or> c = CHR '';'' then
        (let p1 = drop_op (drop_cmd p) in p1\<lparr>operands := operands p1 @ [[c]]\<rparr>)
      else if c = CHR ''&'' \<or> c = CHR ''|'' then
        (let p1 = drop_cmd p in p1\<lparr>opr := opr p1 @ [c]\<rparr>)
      else if c = CHR 0x27 \<or> c = CHR 0x22 then
        (let p1 = drop_op (drop_cmd p) in p1\<lparr>quote := quote p1 @ [c]\<rparr>)
      else (let p1 = drop_op p in p1\<lparr>cmd := cmd p1 @ [c]\<rparr>))"

definition parser_start :: parser where
  "parser_start = \<lparr>operands = [], cmd = [], opr = [], quote = []\<rparr>"

definition parse :: "string \<Rightarrow> string list" where
  "parse command = operands (drop_op (drop_cmd (fold parse_char command parser_start)))"

section \<open>Tokens\<close>

definition is_quote :: "char \<Rightarrow> bool" where
  "is_quote c \<longleftrightarrow> c = CHR 0x27 \<or> c = CHR 0x22"

definition is_single :: "char \<Rightarrow> bool" where
  "is_single c \<longleftrightarrow> c = CHR ''<'' \<or> c = CHR ''>'' \<or> c = CHR '';''"

definition is_opchar :: "char \<Rightarrow> bool" where
  "is_opchar c \<longleftrightarrow> c = CHR ''&'' \<or> c = CHR ''|''"

definition is_wordchar :: "char \<Rightarrow> bool" where
  "is_wordchar c \<longleftrightarrow> \<not> isspace c \<and> \<not> is_single c \<and> \<not> is_opchar c \<and> \<not> is_quote c"

text \<open>What an operand can look like: a word, a run of operator characters, one of the single
  characters, or a quotation without its mark inside.\<close>

definition word_token :: "string \<Rightarrow> bool" where
  "word_token t \<longleftrightarrow> t \<noteq> [] \<and> (\<forall>c\<in>set t. is_wordchar c)"

definition op_token :: "string \<Rightarrow> bool" where
  "op_token t \<longleftrightarrow> t \<noteq> [] \<and> (\<forall>c\<in>set t. is_opchar c)"

definition single_token :: "string \<Rightarrow> bool" where
  "single_token t \<longleftrightarrow> (\<exists>c. t = [c] \<and> is_single c)"

definition quote_token :: "string \<Rightarrow> bool" where
  "quote_token t \<longleftrightarrow> (\<exists>c body. t = c # body @ [c] \<and> is_quote c \<and> c \<notin> set body)"

definition token :: "string \<Rightarrow> bool" where
  "token t \<longleftrightarrow> word_token t \<or> op_token t \<or> single_token t \<or> quote_token t"

lemma char_classes:
  "isspace c \<Longrightarrow> \<not> is_single c \<and> \<not> is_opchar c \<and> \<not> is_quote c"
  "is_single c \<Longrightarrow> \<not> isspace c \<and> \<not> is_opchar c \<and> \<not> is_quote c"
  "is_opchar c \<Longrightarrow> \<not> isspace c \<and> \<not> is_single c \<and> \<not> is_quote c"
  "is_quote c \<Longrightarrow> \<not> isspace c \<and> \<not> is_single c \<and> \<not> is_opchar c"
  "is_wordchar c \<Longrightarrow> \<not> isspace c \<and> \<not> is_single c \<and> \<not> is_opchar c \<and> \<not> is_quote c"
  by (auto simp: isspace_def is_single_def is_opchar_def is_quote_def is_wordchar_def)

text \<open>The cases of the loop body, on the four components.\<close>

abbreviation st :: "string list \<Rightarrow> string \<Rightarrow> string \<Rightarrow> string \<Rightarrow> parser" where
  "st ops w r q \<equiv> \<lparr>operands = ops, cmd = w, opr = r, quote = q\<rparr>"

abbreviation flush :: "string list \<Rightarrow> string \<Rightarrow> string \<Rightarrow> string list" where
  "flush ops w r \<equiv> drop_string_to_buffer r (drop_string_to_buffer w ops)"

lemma parse_char_code: "parse_char c p =
     (if length (quote p) > 0 then
        (let p1 = p\<lparr>quote := quote p @ [c]\<rparr> in if quote p1 ! 0 = c then drop_quote p1 else p1)
      else if isspace c then drop_op (drop_cmd p)
      else if is_single c then (let p1 = drop_op (drop_cmd p) in p1\<lparr>operands := operands p1 @ [[c]]\<rparr>)
      else if is_opchar c then (let p1 = drop_cmd p in p1\<lparr>opr := opr p1 @ [c]\<rparr>)
      else if is_quote c then (let p1 = drop_op (drop_cmd p) in p1\<lparr>quote := quote p1 @ [c]\<rparr>)
      else (let p1 = drop_op p in p1\<lparr>cmd := cmd p1 @ [c]\<rparr>))"
  by (simp only: parse_char_def is_single_def is_opchar_def is_quote_def)

lemma parse_space: "isspace c \<Longrightarrow> parse_char c (st ops w r []) = st (flush ops w r) [] [] []"
  using char_classes(1) [of c] by (simp add: parse_char_code drop_op_def drop_cmd_def drop_quote_def Let_def)

lemma parse_single: "is_single c \<Longrightarrow> parse_char c (st ops w r []) = st (flush ops w r @ [[c]]) [] [] []"
  using char_classes(2) [of c] by (simp add: parse_char_code drop_op_def drop_cmd_def drop_quote_def Let_def)

lemma parse_opchar: "is_opchar c \<Longrightarrow> parse_char c (st ops w r []) = st (drop_string_to_buffer w ops) [] (r @ [c]) []"
  using char_classes(3) [of c] by (simp add: parse_char_code drop_op_def drop_cmd_def drop_quote_def Let_def)

lemma parse_quote: "is_quote c \<Longrightarrow> parse_char c (st ops w r []) = st (flush ops w r) [] [] [c]"
  using char_classes(4) [of c] by (simp add: parse_char_code drop_op_def drop_cmd_def drop_quote_def Let_def)

lemma parse_wordchar: "is_wordchar c \<Longrightarrow> parse_char c (st ops w r []) = st (drop_string_to_buffer r ops) (w @ [c]) [] []"
  using char_classes(5) [of c] by (simp add: parse_char_code drop_op_def drop_cmd_def drop_quote_def Let_def)

lemma parse_quoted: "q \<noteq> [] \<Longrightarrow> parse_char c (st ops w r q) =
     (if hd q = c then st (ops @ [q @ [c]]) w r [] else st ops w r (q @ [c]))"
  by (simp add: parse_char_code drop_quote_def Let_def hd_conv_nth nth_append drop_string_to_buffer_def)

lemmas parse_char_cases = parse_space parse_single parse_opchar parse_quote parse_wordchar parse_quoted

lemma flush_simps [simp]:
  "drop_string_to_buffer [] ops = ops" "t \<noteq> [] \<Longrightarrow> drop_string_to_buffer t ops = ops @ [t]"
  by (simp_all add: drop_string_to_buffer_def)

lemma parse_eq: "parse s = (case fold parse_char s (st [] [] [] []) of p \<Rightarrow> flush (operands p) (cmd p) (opr p))"
  by (simp add: parse_def drop_op_def drop_cmd_def parser_start_def)

section \<open>Reading tokens\<close>

lemma fold_word:
  "(\<forall>c\<in>set t. is_wordchar c) \<Longrightarrow> fold parse_char t (st ops w [] []) = st ops (w @ t) [] []"
proof (induction t arbitrary: w)
  case (Cons c t)
  then show ?case using Cons.IH [of "w @ [c]"] by (simp add: parse_char_cases)
qed simp

lemma fold_op:
  "(\<forall>c\<in>set t. is_opchar c) \<Longrightarrow> fold parse_char t (st ops [] r []) = st ops [] (r @ t) []"
proof (induction t arbitrary: r)
  case (Cons c t)
  then show ?case using Cons.IH [of "r @ [c]"] by (simp add: parse_char_cases)
qed simp

lemma fold_quote:
  "q \<noteq> [] \<Longrightarrow> hd q \<notin> set t \<Longrightarrow> fold parse_char t (st ops w r q) = st ops w r (q @ t)"
proof (induction t arbitrary: q)
  case (Cons c t)
  then have "hd (q @ [c]) \<notin> set t" "hd q \<noteq> c" by auto
  with Cons.IH [of "q @ [c]"] Cons.prems show ?case by (simp add: parse_char_cases)
qed simp

text \<open>A token read from empty buffers, and flushed, is appended to the operands.\<close>

lemma fold_token:
  assumes "token t"
  obtains ops' w r where "fold parse_char t (st ops [] [] []) = st ops' w r []" "flush ops' w r = ops @ [t]"
proof -
  consider "word_token t" | "op_token t" | "single_token t" | "quote_token t" using assms by (auto simp: token_def)
  then show ?thesis
  proof cases
    case 1
    then show ?thesis using that fold_word [of t ops "[]"] by (auto simp: word_token_def)
  next
    case 2
    then show ?thesis using that fold_op [of t ops "[]"] by (auto simp: op_token_def)
  next
    case 3
    then show ?thesis using that by (auto simp: single_token_def parse_char_cases)
  next
    case 4
    then obtain c body where t: "t = c # body @ [c]" "is_quote c" "c \<notin> set body" by (auto simp: quote_token_def)
    then have "fold parse_char t (st ops [] [] []) = st (ops @ [t]) [] [] []"
      using fold_quote [of "[c]" body ops "[]" "[]"] by (simp add: parse_char_cases)
    then show ?thesis using that by auto
  qed
qed

text \<open>Tokens separated by single blanks.\<close>

fun unwords :: "string list \<Rightarrow> string" where
  "unwords [] = []"
| "unwords [t] = t"
| "unwords (t # ts) = t @ CHR '' '' # unwords ts"

lemma isspace_blank [simp]: "isspace CHR '' ''"
  by (simp add: isspace_def)

lemma fold_unwords:
  "\<forall>t\<in>set ts. token t \<Longrightarrow> \<exists>ops' w r. fold parse_char (unwords ts) (st ops [] [] []) = st ops' w r []
     \<and> flush ops' w r = ops @ ts"
proof (induction ts arbitrary: ops rule: unwords.induct)
  case 1
  then show ?case by (intro exI [of _ ops] exI [of _ "[]"]) simp
next
  case (2 t)
  then show ?case using fold_token [of t ops] by (metis list.set_intros(1) unwords.simps(2))
next
  case (3 t u ts)
  obtain ops1 w r where "fold parse_char t (st ops [] [] []) = st ops1 w r []" "flush ops1 w r = ops @ [t]"
    using fold_token [of t ops] 3 by auto
  with 3(1) [of "ops @ [t]"] 3(2) show ?case by (auto simp: parse_char_cases)
qed

lemma parse_unwords: "\<forall>t\<in>set ts. token t \<Longrightarrow> parse (unwords ts) = ts"
  using fold_unwords [of ts "[]"] by (auto simp: parse_eq)

section \<open>Every operand is a token\<close>

definition parser_inv :: "parser \<Rightarrow> bool" where
  "parser_inv p \<longleftrightarrow> (\<forall>t\<in>set (operands p). token t) \<and> (cmd p = [] \<or> word_token (cmd p) \<and> opr p = [] \<and> quote p = [])
     \<and> (opr p = [] \<or> op_token (opr p) \<and> quote p = [])
     \<and> (quote p = [] \<or> is_quote (hd (quote p)) \<and> hd (quote p) \<notin> set (tl (quote p)))"

lemma parse_char_inv: "parser_inv p \<Longrightarrow> parser_inv (parse_char c p)"
proof -
  assume inv: "parser_inv p"
  obtain ops w r q where p: "p = st ops w r q" by (cases p) auto
  show ?thesis
  proof (cases "q = []")
    case True
    have flush: "\<forall>t\<in>set (flush ops w r). token t"
      using inv p True by (auto simp: parser_inv_def token_def drop_string_to_buffer_def)
    consider "isspace c" | "is_single c" | "is_opchar c" | "is_quote c" | "is_wordchar c"
      by (auto simp: is_wordchar_def)
    then show ?thesis
      using inv flush
      by cases (auto simp: p True parse_char_cases parser_inv_def token_def single_token_def op_token_def
          word_token_def drop_string_to_buffer_def split: if_splits)
  next
    case False
    then obtain c' body where q: "q = c' # body" by (cases q) auto
    have "w = []" "r = []" using inv p False by (auto simp: parser_inv_def)
    moreover have "token (q @ [c'])" using inv p False q
      unfolding parser_inv_def token_def quote_token_def by auto
    ultimately show ?thesis using inv False by (auto simp: p q parse_char_cases parser_inv_def)
  qed
qed

lemma fold_parse_char_inv: "parser_inv p \<Longrightarrow> parser_inv (fold parse_char s p)"
  by (induction s arbitrary: p) (auto intro: parse_char_inv)

lemma parse_tokens: "\<forall>t\<in>set (parse s). token t"
proof -
  have "parser_inv (st [] [] [] [])" by (simp add: parser_inv_def)
  from fold_parse_char_inv [OF this, of s] show ?thesis
    by (auto simp: parse_eq parser_inv_def token_def drop_string_to_buffer_def)
qed

section \<open>No text is lost\<close>

lemma fold_no_quote:
  "\<forall>c\<in>set s. \<not> is_quote c \<Longrightarrow> w = [] \<or> r = [] \<Longrightarrow>
     \<exists>ops' w' r'. fold parse_char s (st ops w r []) = st ops' w' r' [] \<and> (w' = [] \<or> r' = [])
       \<and> concat ops' @ w' @ r' = concat ops @ w @ r @ filter (\<lambda>c. \<not> isspace c) s"
proof (induction s arbitrary: ops w r)
  case Nil
  then show ?case by simp
next
  case (Cons c s)
  have flush: "concat (flush ops w r) = concat ops @ w @ r" "concat (drop_string_to_buffer w ops) = concat ops @ w"
    "concat (drop_string_to_buffer r ops) = concat ops @ r"
    by (simp_all add: drop_string_to_buffer_def)
  from Cons.prems consider "isspace c" | "is_single c" | "is_opchar c" | "is_wordchar c"
    by (auto simp: is_wordchar_def)
  then show ?case
  proof cases
    case 1
    with Cons.IH [of "[]" "[]" "flush ops w r"] Cons.prems flush show ?thesis
      by (simp add: parse_char_cases)
  next
    case 2
    note char_classes(2) [OF 2]
    with 2 Cons.IH [of "[]" "[]" "flush ops w r @ [[c]]"] Cons.prems flush show ?thesis
      by (simp add: parse_char_cases)
  next
    case 3
    note char_classes(3) [OF 3]
    with 3 Cons.IH [of "[]" "r @ [c]" "drop_string_to_buffer w ops"] Cons.prems flush show ?thesis
      by (simp add: parse_char_cases)
  next
    case 4
    note char_classes(5) [OF 4]
    with 4 Cons.IH [of "w @ [c]" "[]" "drop_string_to_buffer r ops"] Cons.prems flush show ?thesis
      by (auto simp: parse_char_cases)
  qed
qed

lemma parse_no_quote:
  assumes "\<forall>c\<in>set s. \<not> is_quote c"
  shows "concat (parse s) = filter (\<lambda>c. \<not> isspace c) s"
  using fold_no_quote [OF assms, of "[]" "[]" "[]"]
  by (auto simp: parse_eq drop_string_to_buffer_def)

text \<open>A quotation that is not closed is dropped with everything after it.\<close>

lemma parse_open_quote:
  assumes "fold parse_char s parser_start = st ops w r []" "is_quote c" "c \<notin> set rest"
  shows "parse (s @ c # rest) = parse s"
proof -
  have "fold parse_char (s @ c # rest) (st [] [] [] []) = st (flush ops w r) [] [] (c # rest)"
    using assms fold_quote [of "[c]" rest] by (simp add: parser_start_def parse_char_cases)
  then show ?thesis using assms(1) by (simp add: parse_eq parser_start_def)
qed

section \<open>The operands are the tokens of the line\<close>

text \<open>What a line is cut into, said without buffers: blanks separate; \<open><\<close>, \<open>>\<close> and \<open>;\<close> stand alone;
  an operator and a word are as long as their characters go on; a quotation reaches to the next mark of
  its kind, and one without such a mark is dropped with the rest of the line.\<close>

function line_tokens :: "string \<Rightarrow> string list" where
  "line_tokens [] = []"
| "line_tokens (c # s) =
     (if isspace c then line_tokens s
      else if is_single c then [c] # line_tokens s
      else if is_opchar c then (c # takeWhile is_opchar s) # line_tokens (dropWhile is_opchar s)
      else if is_quote c then
        (if c \<in> set s then (c # takeWhile (\<lambda>d. d \<noteq> c) s @ [c]) # line_tokens (tl (dropWhile (\<lambda>d. d \<noteq> c) s)) else [])
      else (c # takeWhile is_wordchar s) # line_tokens (dropWhile is_wordchar s))"
  by pat_completeness auto
termination
  by (relation "measure length") (auto simp: le_imp_less_Suc length_dropWhile_le diff_le_self intro: le_less_trans [OF diff_le_self])

declare line_tokens.simps(2) [simp del]

lemma fold_takeWhile_word:
  "fold parse_char s (st ops w [] []) = fold parse_char (dropWhile is_wordchar s) (st ops (w @ takeWhile is_wordchar s) [] [])"
  by (induction s arbitrary: w) (simp_all add: parse_char_cases)

lemma fold_takeWhile_op:
  "fold parse_char s (st ops [] r []) = fold parse_char (dropWhile is_opchar s) (st ops [] (r @ takeWhile is_opchar s) [])"
  by (induction s arbitrary: r) (simp_all add: parse_char_cases)

lemma fold_takeWhile_quote:
  assumes "q \<noteq> []" "hd q \<in> set s"
  shows "fold parse_char s (st ops w r q) = fold parse_char (tl (dropWhile (\<lambda>d. d \<noteq> hd q) s))
     (st (ops @ [q @ takeWhile (\<lambda>d. d \<noteq> hd q) s @ [hd q]]) w r [])"
  using assms
proof (induction s arbitrary: q)
  case (Cons c s)
  then show ?case using Cons.IH [of "q @ [c]"] by (auto simp: parse_char_cases)
qed simp

text \<open>The next character ends the word or the operator in the buffer.\<close>

lemma flush_first:
  assumes "w = [] \<or> r = []" "w \<noteq> [] \<longrightarrow> s = [] \<or> \<not> is_wordchar (hd s)" "r \<noteq> [] \<longrightarrow> s = [] \<or> \<not> is_opchar (hd s)"
  shows "(case fold parse_char s (st ops w r []) of p \<Rightarrow> flush (operands p) (cmd p) (opr p))
    = (case fold parse_char s (st (flush ops w r) [] [] []) of p \<Rightarrow> flush (operands p) (cmd p) (opr p))"
proof (cases s)
  case (Cons c s')
  consider "isspace c" | "is_single c" | "is_opchar c" | "is_quote c" | "is_wordchar c"
    by (auto simp: is_wordchar_def)
  then show ?thesis
    using assms by cases (auto simp: Cons parse_char_cases)
qed simp

lemma parse_from:
  "(case fold parse_char s (st ops [] [] []) of p \<Rightarrow> flush (operands p) (cmd p) (opr p)) = ops @ line_tokens s"
proof (induction s arbitrary: ops rule: line_tokens.induct)
  case (2 c s)
  consider "isspace c" | "is_single c" | "is_opchar c" | "is_quote c" | "is_wordchar c"
    by (auto simp: is_wordchar_def)
  then show ?case
  proof cases
    case 1
    with 2 show ?thesis by (simp add: line_tokens.simps parse_char_cases)
  next
    case 2
    note char_classes(2) [OF this]
    with 2 "2.IH"(2) [of "ops @ [[c]]"] show ?thesis by (simp add: line_tokens.simps parse_char_cases)
  next
    case 3
    let ?t = "c # takeWhile is_opchar s"
    have "dropWhile is_opchar s = [] \<or> \<not> is_opchar (hd (dropWhile is_opchar s))" using hd_dropWhile by blast
    with 3 char_classes(3) [OF 3] "2.IH"(3) [of "ops @ [?t]"]
      flush_first [of "[]" ?t "dropWhile is_opchar s" ops] show ?thesis
      by (simp add: line_tokens.simps parse_char_cases fold_takeWhile_op [of s ops "[c]"])
  next
    case 4
    note cl = char_classes(4) [OF 4]
    show ?thesis
    proof (cases "c \<in> set s")
      case True
      with 4 cl "2.IH"(4) fold_takeWhile_quote [of "[c]" s ops "[]" "[]"] show ?thesis
        by (simp add: line_tokens.simps parse_char_cases)
    next
      case False
      with 4 cl fold_quote [of "[c]" s ops "[]" "[]"] show ?thesis by (simp add: line_tokens.simps parse_char_cases)
    qed
  next
    case 5
    let ?t = "c # takeWhile is_wordchar s"
    have "dropWhile is_wordchar s = [] \<or> \<not> is_wordchar (hd (dropWhile is_wordchar s))" using hd_dropWhile by blast
    with 5 char_classes(5) [OF 5] "2.IH"(5) [of "ops @ [?t]"]
      flush_first [of ?t "[]" "dropWhile is_wordchar s" ops] show ?thesis
      by (simp add: line_tokens.simps parse_char_cases fold_takeWhile_word [of s ops "[c]"])
  qed
qed simp

lemma parse_tokens_of_line: "parse s = line_tokens s"
  using parse_from [of s "[]"] by (simp add: parse_eq)

end
