(* ===== verification/Shell.thy ===== *)
theory Shell imports Shell_Parser begin

text \<open>
  The rest of the shell of p4 (p4/Operand.h, Operand.cpp, main.cpp): operands become commands
  and operators, pipes connect commands, and the list is run. Here a descriptor is what it
  refers to, a file or an end of a pipe, and running one command is a parameter: it yields whether
  the exit status is 0 and changes the outside world. Shell_Process has the descriptors, the
  opening and closing of them and the processes. An index beyond a vector or a cast that
  fails is undefined behaviour, \<open>None\<close>.
\<close>

section \<open>Commands and operators\<close>

datatype channel = Read_File string | Write_File string | Pipe_Read nat | Pipe_Write nat

record 'f command =
  args :: "string list"
  fd_input :: "'f option"
  fd_output :: "'f option"

datatype op_type = LOGICAL_AND | LOGICAL_OR | CONVEYOR | BACKGROUND_MODE | SEPARATOR

datatype 'c operand = Cmd 'c | Op op_type

text \<open>The constructor of \<open>Command\<close>: the operand after a redirection is the file.\<close>

fun command_loop :: "string list \<Rightarrow> channel command \<Rightarrow> channel command option" where
  "command_loop [] c = Some c"
| "command_loop [t] c = (if t = ''<'' \<or> t = ''>'' then None else Some (c\<lparr>args := args c @ [t]\<rparr>))"
| "command_loop (t # f # ts) c =
     (if t = ''<'' then command_loop ts (c\<lparr>fd_input := Some (Read_File f)\<rparr>)
      else if t = ''>'' then command_loop ts (c\<lparr>fd_output := Some (Write_File f)\<rparr>)
      else command_loop (f # ts) (c\<lparr>args := args c @ [t]\<rparr>))"

definition new_command :: "string list \<Rightarrow> channel command option" where
  "new_command ts = command_loop ts \<lparr>args = [], fd_input = None, fd_output = None\<rparr>"

section \<open>From operands to a list of commands and operators\<close>

definition is_operator :: "string \<Rightarrow> bool" where
  "is_operator s \<longleftrightarrow> s = ''||'' \<or> s = ''&&'' \<or> s = ''|'' \<or> s = ''&''"

definition operator_of :: "string \<Rightarrow> op_type option" where
  "operator_of s =
     (if s = ''|'' then Some CONVEYOR else if s = ''||'' then Some LOGICAL_OR
      else if s = ''&'' then Some BACKGROUND_MODE else if s = ''&&'' then Some LOGICAL_AND
      else if s = '';'' then Some SEPARATOR else None)"

fun assemble :: "string list \<Rightarrow> string list \<Rightarrow> channel command operand list \<Rightarrow> channel command operand list option" where
  "assemble [] to_process ops =
     (if length to_process > 0
      then (case new_command to_process of None \<Rightarrow> None | Some c \<Rightarrow> Some (ops @ [Cmd c]))
      else Some ops)"
| "assemble (t # ts) to_process ops =
     (if \<not> is_operator t then assemble ts (to_process @ [t]) ops
      else (case (new_command to_process, operator_of t) of
          (Some c, Some o') \<Rightarrow> assemble ts [] (ops @ [Cmd c, Op o'])
        | _ \<Rightarrow> None))"

text \<open>The loop that makes the pipes; \<open>k\<close> is the number of the next pipe.\<close>

function connect :: "nat \<Rightarrow> nat \<Rightarrow> channel command operand list \<Rightarrow> channel command operand list option" where
  "connect i k ops =
     (if i < length ops then
        (if ops ! i = Op CONVEYOR then
           (if 0 < i \<and> i + 1 < length ops then
              (case (ops ! (i + 1), ops ! (i - 1)) of
                 (Cmd c1, Cmd c0) \<Rightarrow> connect (Suc i) (Suc k)
                    (ops[i + 1 := Cmd (c1\<lparr>fd_input := Some (Pipe_Read k)\<rparr>),
                         i - 1 := Cmd (c0\<lparr>fd_output := Some (Pipe_Write k)\<rparr>)])
               | _ \<Rightarrow> None)
            else None)
         else connect (Suc i) k ops)
      else Some ops)"
  by pat_completeness auto
termination
  by (relation "measure (\<lambda>(i, k, ops). length ops - i)") auto

declare connect.simps [simp del]

text \<open>A line: \<open>None\<close> inside is an empty line; otherwise whether it runs in the background, and
  the operands. The pipes are numbered from \<open>k\<close>.\<close>

definition shell_line :: "nat \<Rightarrow> string \<Rightarrow> (bool \<times> channel command operand list) option option" where
  "shell_line k line =
     (let tokens = parse line in
      if length tokens = 0 then Some None
      else (case assemble tokens [] [] of
          None \<Rightarrow> None
        | Some ops \<Rightarrow> (case connect 0 k ops of
            None \<Rightarrow> None
          | Some ops' \<Rightarrow> Some (Some (last ops' = Op BACKGROUND_MODE, ops')))))"

section \<open>Running\<close>

text \<open>
  The loop of \<open>run\<close>, on the operands from the iterator to the end; \<open>ok\<close> says that the last
  status is an exit with 0. The inner loop starts at the operator itself, stops at the first
  operator with another name, and the outer loop then steps over it.
\<close>

definition other_op :: "op_type \<Rightarrow> 'c operand \<Rightarrow> bool" where
  "other_op next_op x = (case x of Op o' \<Rightarrow> o' \<noteq> next_op | Cmd _ \<Rightarrow> False)"

function run :: "('c \<Rightarrow> 's \<Rightarrow> bool \<times> 's) \<Rightarrow> 'c operand list \<Rightarrow> bool \<Rightarrow> 's \<Rightarrow> bool \<times> 's" where
  "run exec [] ok s = (ok, s)"
| "run exec (Cmd c # ops) ok s = (case exec c s of (ok', s') \<Rightarrow> run exec ops ok' s')"
| "run exec (Op next_op # ops) ok s =
     (if next_op = LOGICAL_OR \<and> ok \<or> next_op = LOGICAL_AND \<and> \<not> ok
      then run exec (tl (dropWhile (\<lambda>x. \<not> other_op next_op x) (Op next_op # ops))) ok s
      else run exec ops ok s)"
  by pat_completeness auto
termination
proof (relation "measure (\<lambda>(exec, ops, ok, s). length ops)")
  fix next_op :: op_type and ops :: "'c operand list"
  have "length (dropWhile (\<lambda>x. \<not> other_op next_op x) (Op next_op # ops)) \<le> length ops"
    by (simp add: other_op_def length_dropWhile_le)
  then have "length (tl (dropWhile (\<lambda>x. \<not> other_op next_op x) (Op next_op # ops))) < Suc (length ops)"
    by simp
  then show "((exec, tl (dropWhile (\<lambda>x. \<not> other_op next_op x) (Op next_op # ops)), ok, s),
      (exec, Op next_op # ops, ok, s)) \<in> measure (\<lambda>(exec, ops, ok, s). length ops)" for exec ok s
    by simp
qed auto

section \<open>And-or lists\<close>

text \<open>The reference: a list of commands joined by \<open>&&\<close> and \<open>||\<close> is read from the left.\<close>

fun chain :: "'c \<Rightarrow> (op_type \<times> 'c) list \<Rightarrow> 'c operand list" where
  "chain c rest = Cmd c # concat (map (\<lambda>(o', c'). [Op o', Cmd c']) rest)"

definition and_or :: "('c \<Rightarrow> 's \<Rightarrow> bool \<times> 's) \<Rightarrow> op_type \<times> 'c \<Rightarrow> bool \<times> 's \<Rightarrow> bool \<times> 's" where
  "and_or exec oc r = (case (oc, r) of ((o', c), (ok, s)) \<Rightarrow>
     if (o' = LOGICAL_AND \<and> ok) \<or> (o' = LOGICAL_OR \<and> \<not> ok) then exec c s else (ok, s))"

abbreviation flat :: "(op_type \<times> 'c) list \<Rightarrow> 'c operand list" where
  "flat rest \<equiv> concat (map (\<lambda>(o', c'). [Op o', Cmd c']) rest)"

abbreviation skips :: "op_type \<Rightarrow> bool \<Rightarrow> bool" where
  "skips o' ok \<equiv> o' = LOGICAL_OR \<and> ok \<or> o' = LOGICAL_AND \<and> \<not> ok"

lemma other_op_simps [simp]: "other_op n (Op o') = (o' \<noteq> n)" "other_op n (Cmd c) = False"
  by (simp_all add: other_op_def)

lemma run_and_or:
  assumes "\<forall>oc\<in>set rest. fst oc = LOGICAL_AND \<or> fst oc = LOGICAL_OR"
  shows "run exec (flat rest) ok s = fold (and_or exec) rest (ok, s)
    \<and> (skips n ok \<longrightarrow> run exec (tl (dropWhile (\<lambda>x. \<not> other_op n x) (flat rest))) ok s = fold (and_or exec) rest (ok, s))"
  using assms
proof (induction rest arbitrary: ok s n)
  case (Cons oc rest)
  obtain o' c where oc: "oc = (o', c)" by (cases oc)
  with Cons.prems have o: "o' = LOGICAL_AND \<or> o' = LOGICAL_OR" by auto
  obtain ok' s' where e: "exec c s = (ok', s')" by (cases "exec c s")
  have IH: "run exec (flat rest) ok s = fold (and_or exec) rest (ok, s)"
    "skips n ok \<Longrightarrow> run exec (tl (dropWhile (\<lambda>x. \<not> other_op n x) (flat rest))) ok s = fold (and_or exec) rest (ok, s)"
    for ok s n using Cons by auto
  have exec: "run exec (Cmd c # flat rest) ok s = fold (and_or exec) rest (exec c s)" for ok
    by (simp add: e IH(1))
  show ?case
  proof (intro conjI impI)
    show "run exec (flat (oc # rest)) ok s = fold (and_or exec) (oc # rest) (ok, s)"
    proof (cases "skips o' ok")
      case True
      then have "run exec (flat (oc # rest)) ok s
          = run exec (tl (dropWhile (\<lambda>x. \<not> other_op o' x) (flat rest))) ok s"
        by (auto simp: oc)
      moreover have "and_or exec oc (ok, s) = (ok, s)" using True by (auto simp: and_or_def oc)
      ultimately show ?thesis using IH(2) [OF True] by simp
    next
      case False
      then have "run exec (flat (oc # rest)) ok s = run exec (Cmd c # flat rest) ok s"
        by (auto simp: oc)
      moreover have "and_or exec oc (ok, s) = exec c s" using False o by (auto simp: and_or_def oc)
      ultimately show ?thesis using exec by (simp only: fold_simps o_apply fold.simps)
    qed
  next
    assume n: "skips n ok"
    show "run exec (tl (dropWhile (\<lambda>x. \<not> other_op n x) (flat (oc # rest)))) ok s = fold (and_or exec) (oc # rest) (ok, s)"
    proof (cases "o' = n")
      case True
      then have "and_or exec oc (ok, s) = (ok, s)" using n by (auto simp: and_or_def oc)
      with True IH(2) [OF n] show ?thesis by (simp add: oc)
    next
      case False
      then have "and_or exec oc (ok, s) = exec c s" using n o by (auto simp: and_or_def oc)
      moreover have "tl (dropWhile (\<lambda>x. \<not> other_op n x) (flat (oc # rest))) = Cmd c # flat rest"
        using False by (simp add: oc)
      ultimately show ?thesis using exec by (simp only: fold_simps o_apply fold.simps)
    qed
  qed
qed simp

lemma run_chain:
  assumes "\<forall>oc\<in>set rest. fst oc = LOGICAL_AND \<or> fst oc = LOGICAL_OR"
  shows "run exec (chain c rest) ok s = fold (and_or exec) rest (exec c s)"
  using run_and_or [OF assms, of exec] by (simp split: prod.split)

section \<open>Pipelines\<close>

text \<open>The commands of a pipeline with their pipes: the first writes to pipe \<open>k\<close>, and so on.\<close>

fun piped :: "nat \<Rightarrow> channel command \<Rightarrow> channel command list \<Rightarrow> channel command list" where
  "piped k c [] = [c]"
| "piped k c (d # ds) = c\<lparr>fd_output := Some (Pipe_Write k)\<rparr> # piped (Suc k) (d\<lparr>fd_input := Some (Pipe_Read k)\<rparr>) ds"

definition pipeline :: "'c list \<Rightarrow> 'c operand list" where
  "pipeline cs = (case cs of [] \<Rightarrow> [] | c # ds \<Rightarrow> chain c (map (\<lambda>d. (CONVEYOR, d)) ds))"

lemma connect_end: "i \<ge> length ops \<Longrightarrow> connect i k ops = Some ops"
  by (simp add: connect.simps)

lemma connect_pipeline:
  "connect (Suc (length pre)) k (pre @ chain c (map (\<lambda>d. (CONVEYOR, d)) ds)) = Some (pre @ pipeline (piped k c ds))"
proof (induction ds arbitrary: pre k c)
  case Nil
  then show ?case by (simp add: connect_end pipeline_def)
next
  case (Cons d ds)
  let ?c = "c\<lparr>fd_output := Some (Pipe_Write k)\<rparr>" and ?d = "d\<lparr>fd_input := Some (Pipe_Read k)\<rparr>"
  let ?rest = "flat (map (\<lambda>d. (CONVEYOR, d)) ds)"
  let ?ops = "pre @ Cmd c # Op CONVEYOR # Cmd d # ?rest"
  let ?ops' = "pre @ Cmd ?c # Op CONVEYOR # Cmd ?d # ?rest"
  have "?ops ! Suc (length pre) = Op CONVEYOR" "?ops ! (Suc (length pre) + 1) = Cmd d" "?ops ! (Suc (length pre) - 1) = Cmd c"
    by (simp_all add: nth_append)
  moreover have "?ops[Suc (length pre) + 1 := Cmd ?d, Suc (length pre) - 1 := Cmd ?c] = ?ops'"
    by (simp add: list_update_append)
  ultimately have "connect (Suc (length pre)) k ?ops = connect (Suc (Suc (length pre))) (Suc k) ?ops'"
    by (subst connect.simps) simp
  also have "\<dots> = connect (Suc (length (pre @ [Cmd ?c, Op CONVEYOR]))) (Suc k) ((pre @ [Cmd ?c, Op CONVEYOR]) @ Cmd ?d # ?rest)"
    by (subst connect.simps) (simp add: nth_append)
  also have "\<dots> = Some ((pre @ [Cmd ?c, Op CONVEYOR]) @ pipeline (piped (Suc k) ?d ds))"
    using Cons.IH [of "pre @ [Cmd ?c, Op CONVEYOR]" "Suc k" ?d] by simp
  also have "\<dots> = Some (pre @ pipeline (piped k c (d # ds)))"
    by (cases ds) (simp_all add: pipeline_def)
  finally show ?case by simp
qed

lemma connect_no_pipe: "Op CONVEYOR \<notin> set (drop i ops) \<Longrightarrow> connect i k ops = Some ops"
proof (induction i k ops rule: connect.induct)
  case (1 i k ops)
  show ?case
  proof (cases "i < length ops")
    case True
    then have "drop i ops = ops ! i # drop (Suc i) ops" by (simp add: Cons_nth_drop_Suc)
    with 1 True show ?thesis by (subst connect.simps) auto
  qed (simp add: connect_end)
qed

section \<open>Assembling\<close>

text \<open>Tokens of commands that are not operators, and the commands they make.\<close>

definition plain :: "string list \<Rightarrow> bool" where
  "plain ts \<longleftrightarrow> ts \<noteq> [] \<and> (\<forall>t\<in>set ts. \<not> is_operator t)"

lemma assemble_plain:
  "\<forall>t\<in>set ts. \<not> is_operator t \<Longrightarrow> assemble (ts @ us) acc ops = assemble us (acc @ ts) ops"
  by (induction ts arbitrary: acc) auto

lemma assemble_chain:
  assumes "plain ts" "\<forall>(o', us)\<in>set rest. is_operator o' \<and> plain us"
    and "new_command ts = Some c" "map (\<lambda>(o', us). (operator_of o', new_command us)) rest = map (\<lambda>(o', c). (Some o', Some c)) rest'"
  shows "assemble (ts @ concat (map (\<lambda>(o', us). o' # us) rest)) [] ops = Some (ops @ chain c rest')"
  using assms
proof (induction rest arbitrary: ts c ops rest')
  case Nil
  then show ?case using assemble_plain [of ts "[]" "[]"] by (simp add: plain_def)
next
  case (Cons r rest)
  obtain o' us where r: "r = (o', us)" by (cases r)
  from Cons.prems(4) obtain oc rest'' where oc: "rest' = oc # rest''" by (cases rest') (auto simp: r)
  obtain p d where d: "oc = (p, d)" by (cases oc)
  have "operator_of o' = Some p" "new_command us = Some d"
    "map (\<lambda>(o', us). (operator_of o', new_command us)) rest = map (\<lambda>(o', c). (Some o', Some c)) rest''"
    using Cons.prems(4) by (simp_all add: r oc d)
  with Cons.IH [of us d rest'' "ops @ [Cmd c, Op p]"] Cons.prems show ?case
    by (simp add: r oc d assemble_plain plain_def)
qed

end
