(* ===== verification/Shell_Process.thy ===== *)
theory Shell_Process imports Shell begin

text \<open>
  The shell of p4 with its descriptors and processes (p4/Operand.cpp, the rest of p4/main.cpp).
  A descriptor table is a list, the index being the descriptor; \<open>open\<close> and \<open>pipe\<close> take the
  lowest free ones, \<open>fork\<close> copies the table. \<open>opens\<close> says which files can be opened; for every
  command an input has what \<open>fork\<close> and \<open>wait\<close> return. A process is recorded with the table it
  has when its program starts. \<open>None\<close>: undefined behaviour (an index beyond a vector, a status
  that was never written), or inputs the system cannot deliver. A child whose \<open>execvp\<close> fails, which goes
  on as a second shell, is followed in Shell_Failed.
\<close>

section \<open>Descriptors\<close>

datatype description = Std nat | Chan channel

type_synonym fd_table = "description option list"

definition entry :: "fd_table \<Rightarrow> int \<Rightarrow> description option" where
  "entry t fd = (if 0 \<le> fd \<and> nat fd < length t then t ! nat fd else None)"

definition lowest_free :: "fd_table \<Rightarrow> nat" where
  "lowest_free t = length (takeWhile (\<lambda>x. x \<noteq> None) t)"

definition install :: "description \<Rightarrow> fd_table \<Rightarrow> int \<times> fd_table" where
  "install d t = (let n = lowest_free t in
     (int n, if n < length t then t[n := Some d] else t @ [Some d]))"

definition close_fd :: "int \<Rightarrow> fd_table \<Rightarrow> fd_table" where
  "close_fd fd t = (if 0 \<le> fd \<and> nat fd < length t then t[nat fd := None] else t)"

text \<open>\<open>dup2\<close> onto a descriptor of the table; a bad descriptor is an error that changes nothing.\<close>

definition dup2 :: "int \<Rightarrow> nat \<Rightarrow> fd_table \<Rightarrow> fd_table" where
  "dup2 fd new t = (case entry t fd of None \<Rightarrow> t | Some d \<Rightarrow> t[new := Some d])"

definition open_file :: "(channel \<Rightarrow> bool) \<Rightarrow> channel \<Rightarrow> fd_table \<Rightarrow> int \<times> fd_table" where
  "open_file opens ch t = (if opens ch then install (Chan ch) t else (-1, t))"

definition make_pipe :: "nat \<Rightarrow> fd_table \<Rightarrow> int \<times> int \<times> fd_table" where
  "make_pipe k t = (case install (Chan (Pipe_Read k)) t of (r, t1) \<Rightarrow>
     (case install (Chan (Pipe_Write k)) t1 of (w, t2) \<Rightarrow> (r, w, t2)))"

section \<open>Commands and pipes with descriptors\<close>

fun open_loop :: "(channel \<Rightarrow> bool) \<Rightarrow> string list \<Rightarrow> int command \<Rightarrow> fd_table \<Rightarrow> (int command \<times> fd_table) option" where
  "open_loop opens [] c t = Some (c, t)"
| "open_loop opens [a] c t =
     (if a = ''<'' \<or> a = ''>'' then None else Some (c\<lparr>args := args c @ [a]\<rparr>, t))"
| "open_loop opens (a # f # ts) c t =
     (if a = ''<'' then (case open_file opens (Read_File f) t of
          (fd, t') \<Rightarrow> open_loop opens ts (c\<lparr>fd_input := Some fd\<rparr>) t')
      else if a = ''>'' then (case open_file opens (Write_File f) t of
          (fd, t') \<Rightarrow> open_loop opens ts (c\<lparr>fd_output := Some fd\<rparr>) t')
      else open_loop opens (f # ts) (c\<lparr>args := args c @ [a]\<rparr>) t)"

definition new_fd_command :: "(channel \<Rightarrow> bool) \<Rightarrow> string list \<Rightarrow> fd_table \<Rightarrow> (int command \<times> fd_table) option" where
  "new_fd_command opens ts t = open_loop opens ts \<lparr>args = [], fd_input = None, fd_output = None\<rparr> t"

fun assemble_fds :: "(channel \<Rightarrow> bool) \<Rightarrow> string list \<Rightarrow> string list \<Rightarrow> int command operand list \<Rightarrow> fd_table
    \<Rightarrow> (int command operand list \<times> fd_table) option" where
  "assemble_fds opens [] to_process ops t =
     (if length to_process > 0
      then (case new_fd_command opens to_process t of None \<Rightarrow> None | Some (c, t') \<Rightarrow> Some (ops @ [Cmd c], t'))
      else Some (ops, t))"
| "assemble_fds opens (a # ts) to_process ops t =
     (if \<not> is_operator a then assemble_fds opens ts (to_process @ [a]) ops t
      else (case new_fd_command opens to_process t of None \<Rightarrow> None
        | Some (c, t') \<Rightarrow> (case operator_of a of None \<Rightarrow> None
            | Some o' \<Rightarrow> assemble_fds opens ts [] (ops @ [Cmd c, Op o']) t')))"

function connect_fds :: "nat \<Rightarrow> nat \<Rightarrow> int command operand list \<Rightarrow> fd_table
    \<Rightarrow> (int command operand list \<times> nat \<times> fd_table) option" where
  "connect_fds i k ops t =
     (if i < length ops then
        (if ops ! i = Op CONVEYOR then
           (if 0 < i \<and> i + 1 < length ops then
              (case (ops ! (i + 1), ops ! (i - 1)) of
                 (Cmd c1, Cmd c0) \<Rightarrow> (case make_pipe k t of (r, w, t') \<Rightarrow>
                    connect_fds (Suc i) (Suc k)
                      (ops[i + 1 := Cmd (c1\<lparr>fd_input := Some r\<rparr>), i - 1 := Cmd (c0\<lparr>fd_output := Some w\<rparr>)]) t')
               | _ \<Rightarrow> None)
            else None)
         else connect_fds (Suc i) k ops t)
      else Some (ops, k, t))"
  by pat_completeness auto
termination
  by (relation "measure (\<lambda>(i, k, ops, t). length ops - i)") auto

declare connect_fds.simps [simp del]

section \<open>Processes\<close>

record process =
  proc_pid :: int
  proc_args :: "string list"
  proc_fds :: fd_table

datatype exit_status = Exited nat | Signaled nat

record shell =
  fds :: fd_table
  next_pipe :: nat
  slave_pids :: "int set"
  master_pid :: int
  shell_pid :: int
  children :: "int set"
  started :: "process list"
  reports :: "(int \<times> nat) list"

text \<open>What \<open>fork\<close> returns to the parent, and what \<open>wait\<close> returns and writes to \<open>status\<close>, if it
  does: the input of one command.\<close>

type_synonym turn = "int \<times> (int \<times> exit_status) option"

text \<open>The child up to \<open>execvp\<close>.\<close>

definition redirect :: "int option \<Rightarrow> nat \<Rightarrow> fd_table \<Rightarrow> fd_table" where
  "redirect fdo new t = (case fdo of None \<Rightarrow> t | Some fd \<Rightarrow> close_fd fd (dup2 fd new t))"

definition child_process :: "int \<Rightarrow> int command \<Rightarrow> fd_table \<Rightarrow> process" where
  "child_process pid c t =
     \<lparr>proc_pid = pid, proc_args = args c, proc_fds = redirect (fd_output c) 1 (redirect (fd_input c) 0 t)\<rparr>"

definition close_modified :: "int option \<Rightarrow> fd_table \<Rightarrow> fd_table" where
  "close_modified fdo t = (case fdo of None \<Rightarrow> t | Some fd \<Rightarrow> close_fd fd t)"

definition exit_code :: "exit_status \<Rightarrow> nat" where
  "exit_code status = (case status of Exited n \<Rightarrow> n | Signaled _ \<Rightarrow> 0)"

text \<open>\<open>Command::run\<close> in the parent. \<open>wait\<close> returns a child that has not been waited for, whichever
  it is; without children it fails and leaves \<open>status\<close> as it is, never written.\<close>

definition run_command :: "turn \<Rightarrow> int command \<Rightarrow> shell \<Rightarrow> (exit_status \<times> shell) option" where
  "run_command turn c s = (case turn of (pid, waited) \<Rightarrow>
     (let s1 = (if pid < 0 then s
                else s\<lparr>started := started s @ [child_process pid c (fds s)], children := insert pid (children s)\<rparr>);
          s2 = s1\<lparr>slave_pids := insert pid (slave_pids s1),
                  fds := close_modified (fd_output c) (close_modified (fd_input c) (fds s1))\<rparr>
      in case waited of
           None \<Rightarrow> None
         | Some (wpid, status) \<Rightarrow>
             (if wpid \<notin> children s2 then None
              else Some (status, s2\<lparr>children := children s2 - {wpid}, reports := reports s2 @ [(wpid, exit_code status)],
                                slave_pids := slave_pids s2 - {wpid}\<rparr>))))"

text \<open>Running a command as the parameter of \<open>run\<close>, on the shell and the inputs to come.\<close>

definition exec_command :: "int command \<Rightarrow> (shell \<times> turn list) option \<Rightarrow> bool \<times> (shell \<times> turn list) option" where
  "exec_command c so = (case so of
      Some (s, turn # turns) \<Rightarrow> (case run_command turn c s of
          None \<Rightarrow> (False, None)
        | Some (status, s') \<Rightarrow> (status = Exited 0, Some (s', turns)))
    | _ \<Rightarrow> (False, None))"

section \<open>Lines\<close>

definition background :: "int \<Rightarrow> shell \<Rightarrow> shell" where
  "background pid s = s\<lparr>master_pid := pid, slave_pids := insert pid (slave_pids s),
     children := (if pid < 0 then children s else insert pid (children s))\<rparr>"

text \<open>The copy of the shell that runs a line in the background.\<close>

definition background_child :: "int \<Rightarrow> int command operand list \<Rightarrow> turn list \<Rightarrow> shell \<Rightarrow> (shell \<times> turn list) option" where
  "background_child pid ops turns s =
     snd (run exec_command ops True (Some (s\<lparr>master_pid := pid, children := {}\<rparr>, turns)))"

text \<open>One line: \<open>reaped\<close> are the children \<open>waitpid\<close> returns before it, \<open>pid\<close> is what \<open>fork\<close>
  returns if the line runs in the background. The status \<open>run\<close> begins with is not written,
  and not read either, since the first operand is a command.\<close>

definition process_line :: "(channel \<Rightarrow> bool) \<Rightarrow> int set \<Rightarrow> int \<Rightarrow> turn list \<Rightarrow> string \<Rightarrow> shell \<Rightarrow> (shell \<times> turn list) option" where
  "process_line opens reaped pid turns line s =
     (let s1 = s\<lparr>children := children s - reaped, slave_pids := {}\<rparr>;
          tokens = parse line
      in if length tokens = 0 then Some (s1, turns)
         else (case assemble_fds opens tokens [] [] (fds s1) of
             None \<Rightarrow> None
           | Some (ops, t) \<Rightarrow> (case connect_fds 0 (next_pipe s1) ops t of
                 None \<Rightarrow> None
               | Some (ops', k, t') \<Rightarrow>
                   (let s2 = s1\<lparr>fds := t', next_pipe := k\<rparr> in
                    if last ops' = Op BACKGROUND_MODE then Some (background pid s2, turns)
                    else snd (run exec_command ops' True (Some (s2, turns)))))))"

definition start_shell :: "int \<Rightarrow> shell" where
  "start_shell pid = \<lparr>fds = [Some (Std 0), Some (Std 1), Some (Std 2)], next_pipe = 0, slave_pids = {},
     master_pid = pid, shell_pid = pid, children = {}, started = [], reports = []\<rparr>"

text \<open>SIGINT in the process \<open>self\<close>: the processes it sends the signal to, and whether it exits.\<close>

definition handler :: "int \<Rightarrow> shell \<Rightarrow> int set \<times> bool" where
  "handler self s = (if self = master_pid s then slave_pids s else {}, self \<noteq> shell_pid s)"

end
