(* ===== verification/Shell_Refine.thy ===== *)
theory Shell_Refine imports Shell_Process begin

text \<open>
  The shell with descriptors (Shell_Process) carries out what the shell with channels (Shell)
  says: every descriptor a command holds refers to its channel, no two commands share one, and
  a process is started with its channels as standard input and output.
\<close>

section \<open>Descriptor tables\<close>

lemma entry_negative: "\<not> 0 \<le> fd \<Longrightarrow> entry t fd = None"
  by (simp add: entry_def)

lemma entry_install:
  assumes "install d t = (n, t')"
  shows "0 \<le> n" "entry t n = None" "entry t' fd = (if fd = n then Some d else entry t fd)"
proof -
  let ?n = "lowest_free t"
  have le: "?n \<le> length t" by (simp add: lowest_free_def length_takeWhile_le)
  have free: "t ! ?n = None" if "?n < length t"
    using nth_length_takeWhile [of "\<lambda>x. x \<noteq> None" t] that by (simp add: lowest_free_def)
  have n: "n = int ?n" "t' = (if ?n < length t then t[?n := Some d] else t @ [Some d])"
    using assms by (auto simp: install_def Let_def)
  show "0 \<le> n" using n by simp
  show "entry t n = None" using n free by (simp add: entry_def)
  show "entry t' fd = (if fd = n then Some d else entry t fd)"
    using n le by (auto simp: entry_def nth_list_update nth_append)
qed

lemma entry_close [simp]: "entry (close_fd fd t) x = (if x = fd then None else entry t x)"
  by (auto simp: entry_def close_fd_def nth_list_update)

lemma entry_dup2:
  assumes "entry t (int new) \<noteq> None"
  shows "entry (dup2 fd new t) x = (if x = int new \<and> entry t fd \<noteq> None then entry t fd else entry t x)"
  using assms by (auto simp: entry_def dup2_def nth_list_update split: option.split if_splits)

definition std_open :: "fd_table \<Rightarrow> bool" where
  "std_open t \<longleftrightarrow> entry t 0 = Some (Std 0) \<and> entry t 1 = Some (Std 1) \<and> entry t 2 = Some (Std 2)"

definition extends :: "fd_table \<Rightarrow> fd_table \<Rightarrow> bool" where
  "extends t t' \<longleftrightarrow> (\<forall>fd. entry t fd \<noteq> None \<longrightarrow> entry t' fd = entry t fd)"

lemma extends_refl [simp]: "extends t t"
  by (simp add: extends_def)

lemma extends_trans: "extends t u \<Longrightarrow> extends u v \<Longrightarrow> extends t v"
  by (auto simp: extends_def)

lemma extends_install: "install d t = (n, t') \<Longrightarrow> extends t t'"
  by (auto simp: extends_def entry_install)

section \<open>What a command's descriptors refer to\<close>

definition seen :: "fd_table \<Rightarrow> int option \<Rightarrow> channel option" where
  "seen t fdo = (case fdo of None \<Rightarrow> None
     | Some fd \<Rightarrow> (case entry t fd of Some (Chan ch) \<Rightarrow> Some ch | _ \<Rightarrow> None))"

definition seen_command :: "fd_table \<Rightarrow> int command \<Rightarrow> channel command" where
  "seen_command t c = \<lparr>args = args c, fd_input = seen t (fd_input c), fd_output = seen t (fd_output c)\<rparr>"

text \<open>A file that cannot be opened leaves the standard descriptor in place.\<close>

fun opened_channel :: "(channel \<Rightarrow> bool) \<Rightarrow> channel option \<Rightarrow> channel option" where
  "opened_channel opens (Some (Read_File f)) = (if opens (Read_File f) then Some (Read_File f) else None)"
| "opened_channel opens (Some (Write_File f)) = (if opens (Write_File f) then Some (Write_File f) else None)"
| "opened_channel opens cho = cho"

definition opened :: "(channel \<Rightarrow> bool) \<Rightarrow> channel command \<Rightarrow> channel command" where
  "opened opens c = \<lparr>args = args c, fd_input = opened_channel opens (fd_input c), fd_output = opened_channel opens (fd_output c)\<rparr>"

text \<open>The descriptor of operand \<open>i\<close> for input or output.\<close>

definition slot :: "bool \<Rightarrow> int command operand \<Rightarrow> int option" where
  "slot b x = (case x of Cmd c \<Rightarrow> if b then fd_input c else fd_output c | Op _ \<Rightarrow> None)"

definition holds :: "int command operand list \<Rightarrow> nat \<Rightarrow> bool \<Rightarrow> int \<Rightarrow> bool" where
  "holds ops i b fd \<longleftrightarrow> i < length ops \<and> slot b (ops ! i) = Some fd \<and> 0 \<le> fd"

lemma slot_simps [simp]:
  "slot b (Op o') = None"
  "slot True (Cmd c) = fd_input c" "slot False (Cmd c) = fd_output c"
  by (simp_all add: slot_def)

definition made :: "(channel \<Rightarrow> bool) \<Rightarrow> fd_table \<Rightarrow> fd_table \<Rightarrow> int command operand list \<Rightarrow> channel command operand list \<Rightarrow> bool" where
  "made opens t0 t ops aops \<longleftrightarrow> extends t0 t
     \<and> (\<forall>i b fd. holds ops i b fd \<longrightarrow> entry t0 fd = None \<and> (\<exists>ch. entry t fd = Some (Chan ch)))
     \<and> (\<forall>i j a b fd. holds ops i a fd \<and> holds ops j b fd \<longrightarrow> i = j \<and> a = b)
     \<and> map (map_operand (seen_command t)) ops = map (map_operand (opened opens)) aops"

lemma madeI:
  assumes "extends t0 t"
    and "\<And>i b fd. holds ops i b fd \<Longrightarrow> entry t0 fd = None \<and> (\<exists>ch. entry t fd = Some (Chan ch))"
    and "\<And>i j a b fd. holds ops i a fd \<Longrightarrow> holds ops j b fd \<Longrightarrow> i = j \<and> a = b"
    and "map (map_operand (seen_command t)) ops = map (map_operand (opened opens)) aops"
  shows "made opens t0 t ops aops"
  using assms unfolding made_def by blast

lemma madeD:
  assumes "made opens t0 t ops aops"
  shows "extends t0 t"
    and "holds ops i b fd \<Longrightarrow> entry t0 fd = None"
    and "holds ops i b fd \<Longrightarrow> \<exists>ch. entry t fd = Some (Chan ch)"
    and "holds ops i b fd \<Longrightarrow> holds ops j a fd \<Longrightarrow> i = j \<and> b = a"
    and "map (map_operand (seen_command t)) ops = map (map_operand (opened opens)) aops"
  using assms unfolding made_def by blast+

lemma made_Nil: "made opens t t [] []"
  by (simp add: made_def holds_def)

lemma seen_extends: "extends t t' \<Longrightarrow> (\<And>fd. x = Some fd \<Longrightarrow> 0 \<le> fd \<Longrightarrow> entry t fd \<noteq> None) \<Longrightarrow> seen t' x = seen t x"
proof (cases x)
  case (Some fd)
  assume "extends t t'" "\<And>fd. x = Some fd \<Longrightarrow> 0 \<le> fd \<Longrightarrow> entry t fd \<noteq> None"
  with Some have "entry t' fd = entry t fd"
    by (cases "0 \<le> fd") (auto simp: extends_def entry_negative)
  with Some show ?thesis by (simp add: seen_def)
qed (simp add: seen_def)

lemma made_seen_extends:
  assumes "made opens t0 t ops aops" "extends t t'" "i < length ops"
  shows "map_operand (seen_command t') (ops ! i) = map_operand (seen_command t) (ops ! i)"
proof (cases "ops ! i")
  case (Cmd c)
  have "seen t' (slot b (ops ! i)) = seen t (slot b (ops ! i))" for b
  proof (rule seen_extends [OF assms(2)])
    fix fd assume "slot b (ops ! i) = Some fd" "0 \<le> fd"
    then have "holds ops i b fd" using assms(3) by (simp add: holds_def)
    then have "\<exists>ch. entry t fd = Some (Chan ch)" using assms(1) unfolding made_def by blast
    then show "entry t fd \<noteq> None" by auto
  qed
  from this [of True] this [of False] show ?thesis by (simp add: Cmd seen_command_def)
qed simp

lemma made_map_extends:
  assumes "made opens t0 t ops aops" "extends t t'"
  shows "map (map_operand (seen_command t')) ops = map (map_operand (seen_command t)) ops"
  by (rule nth_equalityI) (simp_all add: made_seen_extends [OF assms])

lemma made_append:
  assumes A: "made opens t0 t ops aops" and B: "made opens t t' ops' aops'"
  shows "made opens t0 t' (ops @ ops') (aops @ aops')"
proof -
  have hA: "\<exists>ch. entry t fd = Some (Chan ch)" "entry t0 fd = None" if "holds ops i b fd" for i b fd
    using A that by (auto simp: made_def)
  have hB: "\<exists>ch. entry t' fd = Some (Chan ch)" "entry t fd = None" if "holds ops' i b fd" for i b fd
    using B that by (auto simp: made_def)
  have e: "extends t0 t" "extends t t'" using A B by (simp_all add: made_def)
  have h: "holds (ops @ ops') i b fd \<longleftrightarrow> (if i < length ops then holds ops i b fd else holds ops' (i - length ops) b fd)" for i b fd
    by (auto simp: holds_def nth_append)
  have "entry t0 fd = None \<and> (\<exists>ch. entry t' fd = Some (Chan ch))" if "holds (ops @ ops') i b fd" for i b fd
    using that hA [of i b fd] hB [of "i - length ops" b fd] e by (fastforce simp: h extends_def split: if_splits)
  moreover have "i = j \<and> a = b" if "holds (ops @ ops') i a fd" "holds (ops @ ops') j b fd" for i j a b fd
  proof -
    have same: "i < length ops \<longleftrightarrow> j < length ops"
      using that hA(1) hB(2) by (metis h option.distinct(1))
    show ?thesis
    proof (cases "i < length ops")
      case True
      with same that A show ?thesis unfolding h made_def by metis
    next
      case False
      with same that have "holds ops' (i - length ops) a fd" "holds ops' (j - length ops) b fd" by (simp_all add: h)
      with B have "i - length ops = j - length ops \<and> a = b" unfolding made_def by blast
      with False same show ?thesis by auto
    qed
  qed
  moreover have "map (map_operand (seen_command t')) ops = map (map_operand (seen_command t)) ops"
    by (rule made_map_extends [OF A e(2)])
  moreover have "extends t0 t'" using e by (rule extends_trans)
  ultimately show ?thesis using madeD(5) [OF A] madeD(5) [OF B] by (intro madeI) (auto simp only: map_append)
qed

text \<open>Setting a descriptor of a command to one that was just installed.\<close>

abbreviation set_slot :: "bool \<Rightarrow> 'f \<Rightarrow> 'f command \<Rightarrow> 'f command" where
  "set_slot b fd c \<equiv> (if b then c\<lparr>fd_input := Some fd\<rparr> else c\<lparr>fd_output := Some fd\<rparr>)"

lemma holds_set:
  assumes "x < length ops" "ops ! x = Cmd c" "0 \<le> n"
  shows "holds (ops[x := Cmd (set_slot b n c)]) i a fd \<longleftrightarrow> (if i = x \<and> a = b then fd = n else holds ops i a fd)"
  using assms by (cases a; cases b) (auto simp: holds_def nth_list_update)

lemma made_set:
  assumes A: "made opens t0 t ops aops" and x: "x < length ops" "ops ! x = Cmd c" "aops ! x = Cmd ac"
    and inst: "install (Chan ch) t = (n, t')" and ch: "opened_channel opens (Some ch) = Some ch"
  shows "made opens t0 t' (ops[x := Cmd (set_slot b n c)]) (aops[x := Cmd (set_slot b ch ac)])"
proof -
  note i = entry_install [OF inst]
  note e = extends_install [OF inst]
  have hA: "\<exists>ch. entry t fd = Some (Chan ch)" "entry t0 fd = None" if "holds ops i b fd" for i b fd
    using A that by (auto simp: made_def)
  have n0: "entry t0 n = None" using A i(2) by (auto simp: made_def extends_def)
  let ?ops = "ops[x := Cmd (set_slot b n c)]"
  have h: "holds ?ops i a fd \<longleftrightarrow> (if i = x \<and> a = b then fd = n else holds ops i a fd)" for i a fd
    using holds_set [OF x(1,2) i(1)] .
  have "entry t0 fd = None \<and> (\<exists>ch. entry t' fd = Some (Chan ch))" if "holds ?ops i a fd" for i a fd
    using that hA [of i a fd] n0 by (auto simp: h i(3) split: if_splits)
  moreover have "i = j \<and> a = a'" if "holds ?ops i a fd" "holds ?ops j a' fd" for i j a a' fd
    using that hA(1) i(2) A unfolding h made_def by (metis option.distinct(1))
  moreover have "map (map_operand (seen_command t')) ?ops = map (map_operand (opened opens)) (aops[x := Cmd (set_slot b ch ac)])"
  proof -
    have m: "map (map_operand (seen_command t')) ops = map (map_operand (seen_command t)) ops"
      by (rule made_map_extends [OF A e])
    have l: "length ops = length aops" using A by (metis length_map made_def)
    have "map_operand (seen_command t') (ops ! x) = map_operand (opened opens) (aops ! x)"
      using A x m unfolding made_def by (metis l nth_map)
    then have "seen_command t' c = opened opens ac" by (simp add: x)
    then have "seen_command t' (set_slot b n c) = opened opens (set_slot b ch ac)"
      using i(3) [of n] ch by (auto simp: seen_command_def opened_def seen_def)
    then show ?thesis
      using A m unfolding made_def map_update by simp
  qed
  moreover have "extends t0 t'" using A e extends_trans by (auto simp: made_def)
  ultimately show ?thesis by (intro madeI) blast+
qed

section \<open>Making commands\<close>

lemma holds_single: "holds [Cmd c] i b fd \<longleftrightarrow> i = 0 \<and> slot b (Cmd c) = Some fd \<and> 0 \<le> fd"
  by (auto simp: holds_def)

lemma made_args:
  assumes "made opens t0 t [Cmd c] [Cmd ac]"
  shows "made opens t0 t [Cmd (c\<lparr>args := args c @ ts\<rparr>)] [Cmd (ac\<lparr>args := args ac @ ts\<rparr>)]"
proof -
  have "slot b (Cmd (c\<lparr>args := args c @ ts\<rparr>)) = slot b (Cmd c)" for b by (simp add: slot_def)
  then have "holds [Cmd (c\<lparr>args := args c @ ts\<rparr>)] i b fd \<longleftrightarrow> holds [Cmd c] i b fd" for i b fd
    by (simp add: holds_single)
  with madeD [OF assms] show ?thesis
    by (intro madeI) (blast | simp add: seen_command_def opened_def)+
qed

lemma made_file:
  assumes A: "made opens t0 t [Cmd c] [Cmd ac]" and o: "open_file opens ch t = (fd, t')"
    and ch: "ch = Read_File f \<or> ch = Write_File f"
  shows "made opens t0 t' [Cmd (set_slot b fd c)] [Cmd (set_slot b ch ac)]"
proof (cases "opens ch")
  case True
  with o ch have "install (Chan ch) t = (fd, t')" "opened_channel opens (Some ch) = Some ch"
    by (auto simp: open_file_def)
  from made_set [OF A _ _ _ this, of 0 c ac b] show ?thesis by simp
next
  case False
  with o have fd: "fd = -1" "t' = t" by (simp_all add: open_file_def)
  have "slot a (Cmd (set_slot b fd c)) = (if a = b then Some (-1) else slot a (Cmd c))" for a
    by (cases a; cases b) (simp_all add: fd)
  moreover have "seen_command t (set_slot b fd c) = opened opens (set_slot b ch ac)"
    using madeD(5) [OF A] ch False
    by (cases b) (auto simp: seen_command_def opened_def seen_def fd entry_negative)
  moreover from calculation(1) have "holds [Cmd (set_slot b fd c)] i a x \<Longrightarrow> holds [Cmd c] i a x" for i a x
    by (auto simp: holds_single split: if_splits)
  ultimately show ?thesis using madeD [OF A]
    by (intro madeI) (blast | simp add: fd(2))+
qed

lemma open_loop_refines:
  assumes "made opens t0 t [Cmd c] [Cmd ac]"
  shows "rel_option (\<lambda>(c', t') ac'. made opens t0 t' [Cmd c'] [Cmd ac']) (open_loop opens ts c t) (command_loop ts ac)"
  using assms
proof (induction opens ts c t arbitrary: ac rule: open_loop.induct)
  case (2 opens a c t)
  then show ?case using made_args [of opens t0 t c ac "[a]"] by simp
next
  case (3 opens a f ts c t)
  consider "a = ''<''" | "a = ''>''" | "a \<noteq> ''<''" "a \<noteq> ''>''" by blast
  then show ?case
  proof cases
    case 1
    obtain fd t' where o: "open_file opens (Read_File f) t = (fd, t')" by (cases "open_file opens (Read_File f) t")
    have "made opens t0 t' [Cmd (c\<lparr>fd_input := Some fd\<rparr>)] [Cmd (ac\<lparr>fd_input := Some (Read_File f)\<rparr>)]"
      using made_file [OF "3.prems" o, of f True] by simp
    from "3.IH"(1) [OF 1 o [symmetric] this] 1 o show ?thesis by simp
  next
    case 2
    obtain fd t' where o: "open_file opens (Write_File f) t = (fd, t')" by (cases "open_file opens (Write_File f) t")
    have "made opens t0 t' [Cmd (c\<lparr>fd_output := Some fd\<rparr>)] [Cmd (ac\<lparr>fd_output := Some (Write_File f)\<rparr>)]"
      using made_file [OF "3.prems" o, of f False] by simp
    from "3.IH"(2) [OF _ 2 o [symmetric] this] 2 o show ?thesis by simp
  next
    case 3
    from made_args [OF "3.prems"] have "made opens t0 t [Cmd (c\<lparr>args := args c @ [a]\<rparr>)] [Cmd (ac\<lparr>args := args ac @ [a]\<rparr>)]" .
    from "3.IH"(3) [OF 3 this] 3 show ?thesis by simp
  qed
qed simp

lemma new_fd_command_refines:
  "rel_option (\<lambda>(c, t') ac. made opens t t' [Cmd c] [Cmd ac]) (new_fd_command opens ts t) (new_command ts)"
  unfolding new_fd_command_def new_command_def
  by (rule open_loop_refines)
    (simp add: made_def holds_single slot_def seen_command_def opened_def seen_def)

lemma made_Op: "made opens t t [Op o'] [Op o']"
  by (simp add: made_def holds_def)

lemma assemble_refines:
  assumes "made opens t0 t ops aops"
  shows "rel_option (\<lambda>(ops', t') aops'. made opens t0 t' ops' aops')
    (assemble_fds opens ts acc ops t) (assemble ts acc aops)"
  using assms
proof (induction opens ts acc ops t arbitrary: aops rule: assemble_fds.induct)
  case (1 opens acc ops t)
  show ?case
  proof (cases "acc = []")
    case False
    from new_fd_command_refines [of opens t acc] show ?thesis
      by cases (use False made_append [OF "1.prems"] in \<open>auto\<close>)
  qed (use "1.prems" in simp)
next
  case (2 opens a ts acc ops t)
  show ?case
  proof (cases "is_operator a")
    case True
    then obtain o' where o: "operator_of a = Some o'" by (auto simp: is_operator_def operator_of_def)
    from new_fd_command_refines [of opens t acc] show ?thesis
    proof cases
      case None
      with True show ?thesis by simp
    next
      case (Some x ac)
      obtain c t' where x: "x = (c, t')" by (cases x)
      from Some x made_append [OF made_append [OF "2.prems", of t' "[Cmd c]" "[Cmd ac]"] made_Op]
      have "made opens t0 t' (ops @ [Cmd c, Op o']) (aops @ [Cmd ac, Op o'])" by simp
      with "2.IH"(2) [of "(c, t')" c t' o'] True o Some x show ?thesis by simp
    qed
  qed (use "2.IH"(1) [OF _ "2.prems"] in simp)
qed

section \<open>Pipes\<close>

lemma made_length: "made opens t0 t ops aops \<Longrightarrow> length aops = length ops"
  using madeD(5) [of opens t0 t ops aops] by (metis length_map)

lemma made_shape:
  assumes "made opens t0 t ops aops" "i < length ops"
  shows "ops ! i = Op o' \<longleftrightarrow> aops ! i = Op o'"
    and "ops ! i = Cmd c \<Longrightarrow> \<exists>ac. aops ! i = Cmd ac"
proof -
  have "map_operand (seen_command t) (ops ! i) = map_operand (opened opens) (aops ! i)"
    using madeD(5) [OF assms(1)] assms(2) made_length [OF assms(1)] by (metis nth_map)
  then show "ops ! i = Op o' \<longleftrightarrow> aops ! i = Op o'" "ops ! i = Cmd c \<Longrightarrow> \<exists>ac. aops ! i = Cmd ac"
    by (cases "ops ! i"; cases "aops ! i"; simp)+
qed

lemma made_pipe:
  assumes A: "made opens t0 t ops aops" and i: "0 < i" "i + 1 < length ops"
    and c: "ops ! (i + 1) = Cmd c1" "ops ! (i - 1) = Cmd c0" "aops ! (i + 1) = Cmd a1" "aops ! (i - 1) = Cmd a0"
    and p: "make_pipe k t = (r, w, t')"
  shows "made opens t0 t' (ops[i + 1 := Cmd (c1\<lparr>fd_input := Some r\<rparr>), i - 1 := Cmd (c0\<lparr>fd_output := Some w\<rparr>)])
    (aops[i + 1 := Cmd (a1\<lparr>fd_input := Some (Pipe_Read k)\<rparr>), i - 1 := Cmd (a0\<lparr>fd_output := Some (Pipe_Write k)\<rparr>)])"
proof -
  obtain t1 where t1: "install (Chan (Pipe_Read k)) t = (r, t1)" "install (Chan (Pipe_Write k)) t1 = (w, t')"
    using p by (auto simp: make_pipe_def split: prod.splits)
  have "made opens t0 t1 (ops[i + 1 := Cmd (c1\<lparr>fd_input := Some r\<rparr>)]) (aops[i + 1 := Cmd (a1\<lparr>fd_input := Some (Pipe_Read k)\<rparr>)])"
    using made_set [OF A i(2) c(1,3) t1(1), of True] by simp
  from made_set [OF this _ _ _ t1(2), of "i - 1" c0 a0 False] i c show ?thesis by simp
qed

lemma connect_refines:
  assumes "made opens t0 t ops aops"
  shows "rel_option (\<lambda>(ops', k', t') aops'. made opens t0 t' ops' aops') (connect_fds i k ops t) (connect i k aops)"
  using assms
proof (induction i k ops t arbitrary: aops rule: connect_fds.induct)
  case (1 i k ops t)
  note l = made_length [OF "1.prems"]
  show ?case
  proof (cases "i < length ops \<and> ops ! i = Op CONVEYOR")
    case False
    then consider "\<not> i < length ops" | "i < length ops" "ops ! i \<noteq> Op CONVEYOR" by blast
    then show ?thesis
    proof cases
      case 1
      then show ?thesis
        using "1.prems" l by (simp add: connect_fds.simps [of i] connect.simps [of i])
    next
      case 2
      then have "aops ! i \<noteq> Op CONVEYOR" using made_shape(1) [OF "1.prems" 2(1)] by simp
      with 2 "1.IH"(2) [OF 2 "1.prems"] l show ?thesis
        by (simp add: connect_fds.simps [of i k ops] connect.simps [of i k aops])
    qed
  next
    case True
    then have i: "i < length ops" "ops ! i = Op CONVEYOR" "aops ! i = Op CONVEYOR"
      using made_shape(1) [OF "1.prems"] by auto
    show ?thesis
    proof (cases "\<exists>c1 c0. 0 < i \<and> i + 1 < length ops \<and> ops ! (i + 1) = Cmd c1 \<and> ops ! (i - 1) = Cmd c0")
      case True
      then obtain c1 c0 where c: "0 < i" "i + 1 < length ops" "ops ! (i + 1) = Cmd c1" "ops ! (i - 1) = Cmd c0" by blast
      then obtain a1 a0 where a: "aops ! (i + 1) = Cmd a1" "aops ! (i - 1) = Cmd a0"
        using made_shape(2) [OF "1.prems"] by (metis add_lessD1 diff_less_Suc less_trans_Suc plus_1_eq_Suc add.commute)
      obtain r w t' where p: "make_pipe k t = (r, w, t')" by (cases "make_pipe k t")
      note made = made_pipe [OF "1.prems" c(1,2,3,4) a p]
      show ?thesis
        using "1.IH"(1) [OF i(1,2) conjI [OF c(1,2)] refl c(3,4) p [symmetric] refl made] i c a l p
        by (simp add: connect_fds.simps [of i k ops] connect.simps [of i k aops])
    next
      case False
      then have "connect_fds i k ops t = None"
        using i by (auto simp: connect_fds.simps [of i k ops] split: operand.split)
      moreover have "connect i k aops = None"
      proof -
        have "\<not> (\<exists>a1 a0. 0 < i \<and> i + 1 < length aops \<and> aops ! (i + 1) = Cmd a1 \<and> aops ! (i - 1) = Cmd a0)"
        proof
          assume "\<exists>a1 a0. 0 < i \<and> i + 1 < length aops \<and> aops ! (i + 1) = Cmd a1 \<and> aops ! (i - 1) = Cmd a0"
          then obtain a1 a0 where a: "0 < i" "i + 1 < length ops" "aops ! (i + 1) = Cmd a1" "aops ! (i - 1) = Cmd a0"
            using l by auto
          then have "\<And>o'. ops ! (i + 1) \<noteq> Op o'" "\<And>o'. ops ! (i - 1) \<noteq> Op o'"
            using made_shape(1) [OF "1.prems"] i(1) by auto
          with False a show False by (cases "ops ! (i + 1)"; cases "ops ! (i - 1)") auto
        qed
        then show ?thesis using i l by (auto simp: connect.simps [of i k aops] split: operand.split)
      qed
      ultimately show ?thesis by simp
    qed
  qed
qed

section \<open>Running\<close>

text \<open>What a process is started with: its arguments and what its standard input and output are.\<close>

type_synonym launched = "string list \<times> description option \<times> description option"

definition launched :: "process \<Rightarrow> launched" where
  "launched p = (proc_args p, entry (proc_fds p) 0, entry (proc_fds p) 1)"

definition launch :: "channel command \<Rightarrow> launched" where
  "launch c = (args c, Some (case fd_input c of None \<Rightarrow> Std 0 | Some ch \<Rightarrow> Chan ch),
     Some (case fd_output c of None \<Rightarrow> Std 1 | Some ch \<Rightarrow> Chan ch))"

text \<open>The specification: the processes launched, the children not yet waited for, the inputs to
  come. Running a command adds one launch.\<close>

type_synonym world = "launched list \<times> int set \<times> turn list"

definition exec_channels :: "channel command \<Rightarrow> world option \<Rightarrow> bool \<times> world option" where
  "exec_channels c w = (case w of
      Some (log, kids, (pid, Some (wpid, status)) # turns) \<Rightarrow>
        (let log' = (if pid < 0 then log else log @ [launch c]);
             kids' = (if pid < 0 then kids else insert pid kids)
         in if wpid \<in> kids' then (status = Exited 0, Some (log', kids' - {wpid}, turns)) else (False, None))
    | _ \<Rightarrow> (False, None))"

fun world_of :: "(shell \<times> turn list) option \<Rightarrow> world option" where
  "world_of None = None"
| "world_of (Some (s, turns)) = Some (map launched (started s), children s, turns)"

definition tidy :: "fd_table \<Rightarrow> int command operand list \<Rightarrow> bool" where
  "tidy t ops \<longleftrightarrow> (\<forall>i b fd. holds ops i b fd \<longrightarrow> (\<exists>ch. entry t fd = Some (Chan ch)))
     \<and> (\<forall>i j a b fd. holds ops i a fd \<and> holds ops j b fd \<longrightarrow> i = j \<and> a = b)"

lemma made_tidy: "made opens t0 t ops aops \<Longrightarrow> tidy t ops"
  unfolding made_def tidy_def by blast

lemma holds_Cons:
  "holds (x # ops) i b fd \<longleftrightarrow> (if i = 0 then slot b x = Some fd \<and> 0 \<le> fd else holds ops (i - 1) b fd)"
  by (cases i) (auto simp: holds_def)

lemma tidy_Cons:
  assumes "tidy t (x # ops)"
  shows "tidy t ops"
    and "slot b x = Some fd \<Longrightarrow> 0 \<le> fd \<Longrightarrow> \<exists>ch. entry t fd = Some (Chan ch)"
    and "slot True x = Some fd \<Longrightarrow> 0 \<le> fd \<Longrightarrow> slot False x \<noteq> Some fd"
    and "slot b x = Some fd \<Longrightarrow> 0 \<le> fd \<Longrightarrow> \<not> holds ops i a fd"
proof -
  have h: "holds ops i b fd \<Longrightarrow> holds (x # ops) (Suc i) b fd"
    and z: "slot b x = Some fd \<Longrightarrow> 0 \<le> fd \<Longrightarrow> holds (x # ops) 0 b fd" for i b fd
    by (simp_all add: holds_Cons)
  show "tidy t ops" using assms h unfolding tidy_def by (metis nat.inject)
  show "slot b x = Some fd \<Longrightarrow> 0 \<le> fd \<Longrightarrow> \<exists>ch. entry t fd = Some (Chan ch)"
    using assms z unfolding tidy_def by blast
  show "slot True x = Some fd \<Longrightarrow> 0 \<le> fd \<Longrightarrow> slot False x \<noteq> Some fd"
    using assms z unfolding tidy_def by blast
  show "slot b x = Some fd \<Longrightarrow> 0 \<le> fd \<Longrightarrow> \<not> holds ops i a fd"
    using assms z h unfolding tidy_def by blast
qed

lemma entry_redirect:
  assumes "new = 0 \<or> new = 1" "std_open t" "\<And>fd. fdo = Some fd \<Longrightarrow> 0 \<le> fd \<Longrightarrow> \<exists>ch. entry t fd = Some (Chan ch)"
    and "entry t' 0 \<noteq> None" "entry t' 1 \<noteq> None" "\<And>fd. fdo = Some fd \<Longrightarrow> entry t' fd = entry t fd"
  shows "entry (redirect fdo new t') x = (if x = int new \<and> seen t fdo \<noteq> None then map_option Chan (seen t fdo)
    else if fdo = Some x then None else entry t' x)"
proof (cases fdo)
  case (Some fd)
  show ?thesis
  proof (cases "0 \<le> fd")
    case True
    with assms(3) Some obtain ch where ch: "entry t fd = Some (Chan ch)" by blast
    with assms(2) have "fd \<noteq> 0" "fd \<noteq> 1" by (auto simp: std_open_def)
    with assms(1,4,5) assms(6) [OF Some] Some ch show ?thesis
      by (auto simp: redirect_def seen_def entry_dup2)
  next
    case False
    with assms(1,4,5) Some show ?thesis
      by (auto simp: redirect_def seen_def entry_negative dup2_def)
  qed
qed (simp add: redirect_def seen_def)

lemma child_entries:
  assumes "std_open t" "tidy t (Cmd c # ops)"
  shows "entry (redirect (fd_output c) 1 (redirect (fd_input c) 0 t)) x =
     (if x = 1 \<and> seen t (fd_output c) \<noteq> None then map_option Chan (seen t (fd_output c))
      else if x = 0 \<and> seen t (fd_input c) \<noteq> None then map_option Chan (seen t (fd_input c))
      else if fd_output c = Some x \<or> fd_input c = Some x then None else entry t x)"
    and "fd_input c \<noteq> Some 0" "fd_input c \<noteq> Some 1" "fd_output c \<noteq> Some 0" "fd_output c \<noteq> Some 1"
proof -
  note tidy = tidy_Cons(2,3) [OF assms(2)]
  let ?t1 = "redirect (fd_input c) 0 t"
  have std: "entry t 0 = Some (Std 0)" "entry t 1 = Some (Std 1)" using assms(1) by (simp_all add: std_open_def)
  have i: "\<exists>ch. entry t fd = Some (Chan ch)" if "fd_input c = Some fd" "0 \<le> fd" for fd
    using tidy(1) [of True fd] that by simp
  have o: "\<exists>ch. entry t fd = Some (Chan ch)" if "fd_output c = Some fd" "0 \<le> fd" for fd
    using tidy(1) [of False fd] that by simp
  have t1: "entry ?t1 x = (if x = 0 \<and> seen t (fd_input c) \<noteq> None then map_option Chan (seen t (fd_input c))
      else if fd_input c = Some x then None else entry t x)" for x
    using entry_redirect [of 0 t "fd_input c" t x] assms(1) std i by auto
  have not01: "fd_input c \<noteq> Some 0" "fd_input c \<noteq> Some 1" "fd_output c \<noteq> Some 0" "fd_output c \<noteq> Some 1"
    using i o std by fastforce+
  have "entry ?t1 fd = entry t fd" if "fd_output c = Some fd" for fd
    using tidy(2) [of fd] that not01 by (cases "0 \<le> fd") (auto simp: t1 entry_negative)
  moreover have "entry ?t1 0 \<noteq> None" "entry ?t1 1 \<noteq> None" using std not01 by (auto simp: t1)
  ultimately have t2: "entry (redirect (fd_output c) 1 ?t1) x = (if x = 1 \<and> seen t (fd_output c) \<noteq> None
      then map_option Chan (seen t (fd_output c)) else if fd_output c = Some x then None else entry ?t1 x)" for x
    using entry_redirect [of 1 t "fd_output c" ?t1 x] assms(1) o by auto
  show "fd_input c \<noteq> Some 0" "fd_input c \<noteq> Some 1" "fd_output c \<noteq> Some 0" "fd_output c \<noteq> Some 1"
    using not01 by blast+
  show "entry (redirect (fd_output c) 1 (redirect (fd_input c) 0 t)) x =
     (if x = 1 \<and> seen t (fd_output c) \<noteq> None then map_option Chan (seen t (fd_output c))
      else if x = 0 \<and> seen t (fd_input c) \<noteq> None then map_option Chan (seen t (fd_input c))
      else if fd_output c = Some x \<or> fd_input c = Some x then None else entry t x)"
    unfolding t2 t1 using not01 by auto
qed

lemma launched_child:
  assumes "std_open t" "tidy t (Cmd c # ops)"
  shows "launched (child_process pid c t) = launch (seen_command t c)"
  using assms(1) child_entries(2-) [OF assms]
  by (auto simp: launched_def launch_def child_process_def seen_command_def child_entries(1) [OF assms] std_open_def
      simp del: One_nat_def split: option.splits)

lemma entry_close_modified [simp]:
  "entry (close_modified fdo t) x = (if fdo = Some x then None else entry t x)"
  by (auto simp: close_modified_def split: option.split)

lemma run_command_fds:
  "run_command turn c s = Some (status, s') \<Longrightarrow>
     fds s' = close_modified (fd_output c) (close_modified (fd_input c) (fds s))"
  by (auto simp: run_command_def Let_def split: prod.splits option.splits if_splits)

lemma run_command_refines:
  assumes "std_open (fds s)" "tidy (fds s) (Cmd c # ops)"
  shows "exec_channels (seen_command (fds s) c) (world_of (Some (s, turn # turns)))
    = (case run_command turn c s of None \<Rightarrow> (False, None)
        | Some (status, s') \<Rightarrow> (status = Exited 0, world_of (Some (s', turns))))"
  using launched_child [OF assms]
  by (cases turn) (auto simp: exec_channels_def run_command_def Let_def split: option.split)

lemma tidy_after:
  assumes "std_open t" "tidy t (Cmd c # ops)" and t': "t' = close_modified (fd_output c) (close_modified (fd_input c) t)"
  shows "std_open t'" "tidy t' ops"
    and "map (map_operand (seen_command t')) ops = map (map_operand (seen_command t)) ops"
proof -
  have chan: "\<exists>ch. entry t fd = Some (Chan ch)" if "fd_input c = Some fd \<or> fd_output c = Some fd" "0 \<le> fd" for fd
    using tidy_Cons(2) [OF assms(2), of True fd] tidy_Cons(2) [OF assms(2), of False fd] that by auto
  have not3: "fd_input c \<noteq> Some x \<and> fd_output c \<noteq> Some x" if "0 \<le> x" "entry t x = Some (Std k)" for x k
    using chan [of x] that by auto
  show "std_open t'" using assms(1) not3 by (auto simp: std_open_def t')
  have same: "entry t' fd = entry t fd" if "holds ops i b fd" for i b fd
  proof -
    from that have "0 \<le> fd" by (simp add: holds_def)
    with that tidy_Cons(4) [OF assms(2), of True fd] tidy_Cons(4) [OF assms(2), of False fd] show ?thesis
      by (auto simp: t')
  qed
  show "tidy t' ops" using tidy_Cons(1) [OF assms(2)] same unfolding tidy_def by metis
  have "map_operand (seen_command t') (ops ! i) = map_operand (seen_command t) (ops ! i)" if "i < length ops" for i
  proof (cases "ops ! i")
    case (Cmd d)
    have "seen t' (slot b (ops ! i)) = seen t (slot b (ops ! i))" for b
    proof (cases "slot b (ops ! i)")
      case (Some fd)
      have "entry t' fd = entry t fd"
        using same [of i b fd] Some that by (cases "0 \<le> fd") (simp_all add: holds_def entry_negative)
      then show ?thesis by (simp add: seen_def Some)
    qed (simp add: seen_def)
    from this [of True] this [of False] show ?thesis by (simp add: Cmd seen_command_def)
  qed simp
  then show "map (map_operand (seen_command t')) ops = map (map_operand (seen_command t)) ops"
    by (intro nth_equalityI) simp_all
qed

lemma run_undefined:
  assumes "\<And>c. exec c None = (False, None)"
  shows "snd (run exec ops ok None) = None"
proof (induction ops arbitrary: ok rule: length_induct)
  case (1 ops)
  show ?case
  proof (cases ops)
    case (Cons x xs)
    show ?thesis
    proof (cases x)
      case (Cmd c)
      with Cons 1 assms show ?thesis by simp
    next
      case (Op o')
      have "length (tl (dropWhile (\<lambda>x. \<not> other_op o' x) xs)) < length ops"
        using length_dropWhile_le [of "\<lambda>x. \<not> other_op o' x" xs] Cons by simp
      with Cons Op 1 show ?thesis by simp
    qed
  qed simp
qed

lemma exec_undefined [simp]: "exec_command c None = (False, None)" "exec_channels a None = (False, None)"
  by (simp_all add: exec_command_def exec_channels_def)

lemma stays_undefined: "snd (run exec_command ops ok None) = None" "snd (run exec_channels aops ok None) = None"
  by (rule run_undefined, simp)+

lemma other_op_map [simp]: "other_op o' (map_operand f x) = other_op o' x"
  by (cases x) simp_all

lemma map_skip:
  "map (map_operand f) (tl (dropWhile (\<lambda>x. \<not> other_op o' x) xs))
    = tl (dropWhile (\<lambda>x. \<not> other_op o' x) (map (map_operand f) xs))"
  by (simp add: dropWhile_map o_def map_tl)

lemma tidy_tl: "tidy t xs \<Longrightarrow> tidy t (tl xs)"
  by (cases xs) (auto dest: tidy_Cons(1))

lemma tidy_dropWhile: "tidy t xs \<Longrightarrow> tidy t (dropWhile P xs)"
  by (induction xs) (auto dest: tidy_Cons(1))

fun std_kept :: "(shell \<times> turn list) option \<Rightarrow> bool" where
  "std_kept None \<longleftrightarrow> True"
| "std_kept (Some (s, turns)) \<longleftrightarrow> std_open (fds s)"

theorem run_refines:
  assumes "std_open (fds s)" "tidy (fds s) ops"
  shows "world_of (snd (run exec_command ops ok (Some (s, turns))))
    = snd (run exec_channels (map (map_operand (seen_command (fds s))) ops) ok (world_of (Some (s, turns))))
    \<and> std_kept (snd (run exec_command ops ok (Some (s, turns))))"
  using assms
proof (induction ops arbitrary: ok s turns rule: length_induct)
  case (1 ops)
  show ?case
  proof (cases ops)
    case (Cons x xs)
    note tidy = "1.prems"(2) [unfolded Cons]
    have IH: "length ys < length ops \<Longrightarrow> std_open (fds s') \<Longrightarrow> tidy (fds s') ys \<Longrightarrow>
      world_of (snd (run exec_command ys ok' (Some (s', turns')))) =
      snd (run exec_channels (map (map_operand (seen_command (fds s'))) ys) ok' (world_of (Some (s', turns'))))
      \<and> std_kept (snd (run exec_command ys ok' (Some (s', turns'))))" for ys s' ok' turns'
      using "1.IH" by blast
    show ?thesis
    proof (cases x)
      case (Cmd c)
      show ?thesis
      proof (cases turns)
        case Nil
        then have "exec_command c (Some (s, turns)) = (False, None)"
          and "exec_channels (seen_command (fds s) c) (world_of (Some (s, turns))) = (False, None)"
          by (simp_all add: exec_command_def exec_channels_def)
        then show ?thesis
          by (simp add: \<open>ops = x # xs\<close> Cmd stays_undefined del: world_of.simps(2))
      next
        case (Cons turn turns')
        note ref = run_command_refines [OF "1.prems"(1) tidy [unfolded Cmd], of turn turns']
        show ?thesis
        proof (cases "run_command turn c s")
          case None
          then have "exec_command c (Some (s, turns)) = (False, None)"
            and "exec_channels (seen_command (fds s) c) (world_of (Some (s, turns))) = (False, None)"
            using ref by (simp_all add: exec_command_def Cons)
          then show ?thesis
            by (simp add: \<open>ops = x # xs\<close> Cmd stays_undefined del: world_of.simps(2))
        next
          case (Some r)
          obtain status s' where r: "r = (status, s')" by (cases r)
          have "exec_command c (Some (s, turns)) = (status = Exited 0, Some (s', turns'))"
            and "exec_channels (seen_command (fds s) c) (world_of (Some (s, turns))) = (status = Exited 0, world_of (Some (s', turns')))"
            using ref Some by (simp_all add: exec_command_def Cons r)
          moreover note tidy_after [OF "1.prems"(1) tidy [unfolded Cmd] run_command_fds [OF Some [unfolded r]]]
          ultimately show ?thesis
            using IH [of xs s' "status = Exited 0" turns'] by (simp add: \<open>ops = x # xs\<close> Cmd del: world_of.simps(2) map_eq_conv)
        qed
      qed
    next
      case (Op o')
      let ?ys = "tl (dropWhile (\<lambda>x. \<not> other_op o' x) xs)"
      have "length ?ys < length ops"
        using length_dropWhile_le [of "\<lambda>x. \<not> other_op o' x" xs] Cons by simp
      note jump = IH [OF this "1.prems"(1) tidy_tl [OF tidy_dropWhile [OF tidy_Cons(1) [OF tidy]]], of ok turns]
      have "length xs < length ops" using Cons by simp
      note next' = IH [OF this "1.prems"(1) tidy_Cons(1) [OF tidy], of ok turns]
      show ?thesis using jump next' by (simp add: Cons Op map_skip)
    qed
  qed (use "1.prems" in simp)
qed

end
