(* ===== verification/Shell_Pipeline.thy ===== *)
theory Shell_Pipeline imports Shell_Refine begin

text \<open>
  Pipelines in the shell with descriptors: which descriptors are open when each process starts
  and when the line is done.
\<close>

section \<open>No descriptor is lost\<close>

text \<open>Every descriptor that was opened is held by a command.\<close>

definition covers :: "fd_table \<Rightarrow> fd_table \<Rightarrow> int command operand list \<Rightarrow> bool" where
  "covers t0 t ops \<longleftrightarrow> (\<forall>fd. entry t fd \<noteq> None \<longrightarrow> entry t0 fd \<noteq> None \<or> (\<exists>i b. holds ops i b fd))"

lemma covers_set:
  assumes "covers t0 t ops" "x < length ops" "ops ! x = Cmd c" "install d t = (n, t')" "\<And>fd. \<not> holds ops x b fd"
  shows "covers t0 t' (ops[x := Cmd (set_slot b n c)])"
proof -
  note i = entry_install [OF assms(4)]
  note h = holds_set [OF assms(2,3) i(1), of b]
  show ?thesis unfolding covers_def
  proof (intro allI impI)
    fix fd assume "entry t' fd \<noteq> None"
    then consider "fd = n" | "entry t fd \<noteq> None" by (auto simp: i(3) split: if_splits)
    then show "entry t0 fd \<noteq> None \<or> (\<exists>i a. holds (ops[x := Cmd (set_slot b n c)]) i a fd)"
    proof cases
      case 1
      have "holds (ops[x := Cmd (set_slot b n c)]) x b n" using h [of x b n] by simp
      with 1 show ?thesis by blast
    next
      case 2
      then consider "entry t0 fd \<noteq> None" | i a where "holds ops i a fd"
        using assms(1) unfolding covers_def by blast
      then show ?thesis
      proof cases
        case 2
        with assms(5) h [of i a fd] have "holds (ops[x := Cmd (set_slot b n c)]) i a fd" by metis
        then show ?thesis by blast
      qed blast
    qed
  qed
qed

text \<open>The commands at the two sides of a pipe operator from \<open>i\<close> on have no channel there yet.\<close>

definition unpiped :: "nat \<Rightarrow> int command operand list \<Rightarrow> bool" where
  "unpiped i ops \<longleftrightarrow> (\<forall>j fd. i \<le> j \<and> 0 < j \<and> Suc j < length ops \<and> ops ! j = Op CONVEYOR
     \<longrightarrow> \<not> holds ops (Suc j) True fd \<and> \<not> holds ops (j - 1) False fd)"

lemma connect_covers:
  assumes "covers t0 t ops" "unpiped i ops" "connect_fds i k ops t = Some (ops', k', t')"
  shows "covers t0 t' ops'"
  using assms
proof (induction i k ops t rule: connect_fds.induct)
  case (1 i k ops t)
  show ?case
  proof (cases "i < length ops \<and> ops ! i = Op CONVEYOR")
    case True
    then obtain c1 c0 where c: "0 < i" "i + 1 < length ops" "ops ! (i + 1) = Cmd c1" "ops ! (i - 1) = Cmd c0"
      using "1.prems"(3) by (subst (asm) connect_fds.simps) (auto split: if_splits operand.splits)
    obtain r w u where p: "make_pipe k t = (r, w, u)" by (cases "make_pipe k t")
    then obtain t1 where t1: "install (Chan (Pipe_Read k)) t = (r, t1)" "install (Chan (Pipe_Write k)) t1 = (w, u)"
      by (auto simp: make_pipe_def split: prod.splits)
    let ?ops1 = "ops[i + 1 := Cmd (c1\<lparr>fd_input := Some r\<rparr>)]"
    let ?ops2 = "?ops1[i - 1 := Cmd (c0\<lparr>fd_output := Some w\<rparr>)]"
    have h1: "holds ?ops1 j a fd \<longleftrightarrow> (if j = i + 1 \<and> a = True then fd = r else holds ops j a fd)" for j a fd
      using holds_set [OF c(2,3) entry_install(1) [OF t1(1)], of True j a fd] by simp
    have c0: "i - 1 < length ?ops1" "?ops1 ! (i - 1) = Cmd c0" using c by simp_all
    have h2: "holds ?ops2 j a fd \<longleftrightarrow> (if j = i - 1 \<and> a = False then fd = w else holds ?ops1 j a fd)" for j a fd
      using holds_set [OF c0 entry_install(1) [OF t1(2)], of False j a fd] by simp
    have free: "\<not> holds ops (i + 1) True fd" "\<not> holds ops (i - 1) False fd" for fd
      using "1.prems"(2) c True by (auto simp: unpiped_def)
    have "covers t0 t1 ?ops1"
      using covers_set [OF "1.prems"(1) c(2,3) t1(1), of True] free by simp
    then have cov: "covers t0 u ?ops2"
      using covers_set [OF _ c0 t1(2), of t0 False] free h1 by simp
    have "unpiped (Suc i) ?ops2"
      using "1.prems"(2) c unfolding unpiped_def
      by (auto simp: h2 [unfolded h1, simplified] nth_list_update split: if_splits)
    with "1.IH"(1) [OF _ _ _ refl c(3,4) p [symmetric] refl cov] "1.prems"(3) True c p
    show ?thesis by (simp add: connect_fds.simps [of i k ops])
  next
    case False
    have "unpiped (Suc i) ops" using "1.prems"(2) by (auto simp: unpiped_def)
    with "1.IH"(2) [OF _ _ "1.prems"(1)] "1.prems"(1,3) False show ?thesis
      by (auto simp: connect_fds.simps [of i k ops] split: if_splits)
  qed
qed

text \<open>Words open nothing.\<close>

lemma open_loop_words:
  "open_loop opens ts c t = Some (c', t') \<Longrightarrow> ''<'' \<notin> set ts \<Longrightarrow> ''>'' \<notin> set ts \<Longrightarrow> t' = t"
  by (induction opens ts c t rule: open_loop.induct) (auto split: if_splits)

lemma assemble_words:
  "assemble_fds opens ts acc ops t = Some (ops', t') \<Longrightarrow> ''<'' \<notin> set (acc @ ts) \<Longrightarrow> ''>'' \<notin> set (acc @ ts) \<Longrightarrow> t' = t"
proof (induction opens ts acc ops t rule: assemble_fds.induct)
  case (1 opens acc ops t)
  then show ?case by (auto simp: new_fd_command_def split: if_splits option.splits dest: open_loop_words)
next
  case (2 opens a ts acc ops t)
  show ?case
  proof (cases "is_operator a")
    case True
    with "2.prems"(1) obtain c u o' where c: "new_fd_command opens acc t = Some (c, u)" "operator_of a = Some o'"
      "assemble_fds opens ts [] (ops @ [Cmd c, Op o']) u = Some (ops', t')"
      by (auto split: option.splits)
    have "u = t" using c(1) "2.prems"(2,3) by (auto simp: new_fd_command_def dest: open_loop_words)
    with "2.IH"(2) [OF _ c(1) refl c(2) c(3)] True "2.prems"(2,3) show ?thesis by simp
  qed (use "2.IH"(1) "2.prems" in simp)
qed

section \<open>Running the commands one after the other\<close>

abbreviation steps :: "'c list \<Rightarrow> 'c operand list" where
  "steps cs \<equiv> flat (map (\<lambda>d. (CONVEYOR, d)) cs)"

lemma run_pipeline: "cs \<noteq> [] \<Longrightarrow> run exec (pipeline cs) ok s = run exec (steps cs) ok s"
  by (cases cs) (simp_all add: pipeline_def)

text \<open>The turn of a command whose process is the one waited for.\<close>

definition own_turn :: "int \<times> exit_status \<Rightarrow> turn" where
  "own_turn p = (fst p, Some p)"

definition report_of :: "int \<times> exit_status \<Rightarrow> int \<times> nat" where
  "report_of p = (fst p, exit_code (snd p))"

lemma run_own_turn:
  assumes "children s = {}" "0 \<le> fst p"
  shows "run_command (own_turn p) c s = Some (snd p, s\<lparr>
      started := started s @ [child_process (fst p) c (fds s)], slave_pids := slave_pids s - {fst p},
      fds := close_modified (fd_output c) (close_modified (fd_input c) (fds s)),
      reports := reports s @ [report_of p]\<rparr>)"
  using assms by (cases p) (simp add: run_command_def own_turn_def report_of_def)

definition holds_fd :: "int command \<Rightarrow> int \<Rightarrow> bool" where
  "holds_fd c fd \<longleftrightarrow> fd_input c = Some fd \<or> fd_output c = Some fd"

text \<open>What may be open in the \<open>n\<close>-th process besides its own channels: what is open before and held
  by none of the commands up to it.\<close>

definition only_later :: "fd_table \<Rightarrow> int command list \<Rightarrow> nat \<Rightarrow> process \<Rightarrow> bool" where
  "only_later t cs n p \<longleftrightarrow> (\<forall>fd ch. entry (proc_fds p) fd = Some (Chan ch) \<longrightarrow>
     Some ch = seen t (fd_input (cs ! n)) \<or> Some ch = seen t (fd_output (cs ! n))
     \<or> (entry t fd = Some (Chan ch) \<and> (\<forall>c\<in>set (take (Suc n) cs). \<not> holds_fd c fd)))"

lemma child_only_later:
  assumes "std_open t" "tidy t (Cmd c # ops)"
  shows "only_later t (c # cs) 0 (child_process pid c t)"
  unfolding only_later_def
proof (intro allI impI)
  fix fd ch
  assume "entry (proc_fds (child_process pid c t)) fd = Some (Chan ch)"
  moreover note e = child_entries [OF assms]
  ultimately show "Some ch = seen t (fd_input ((c # cs) ! 0)) \<or> Some ch = seen t (fd_output ((c # cs) ! 0))
     \<or> (entry t fd = Some (Chan ch) \<and> (\<forall>d\<in>set (take (Suc 0) (c # cs)). \<not> holds_fd d fd))"
    by (auto simp: child_process_def e holds_fd_def simp del: One_nat_def split: if_splits)
qed

lemma run_steps:
  assumes "std_open (fds s)" "tidy (fds s) (steps cs)" "children s = {}"
    and "length ps = length cs" "\<forall>p\<in>set ps. 0 \<le> fst p"
  shows "\<exists>s' new. snd (run exec_command (steps cs) ok (Some (s, map own_turn ps))) = Some (s', [])
     \<and> started s' = started s @ new \<and> map launched new = map (\<lambda>c. launch (seen_command (fds s) c)) cs
     \<and> (\<forall>n<length cs. only_later (fds s) cs n (new ! n))
     \<and> (\<forall>fd. entry (fds s') fd = (if \<exists>c\<in>set cs. holds_fd c fd then None else entry (fds s) fd))
     \<and> children s' = {} \<and> reports s' = reports s @ map report_of ps"
  using assms
proof (induction cs arbitrary: s ps ok)
  case Nil
  then show ?case by auto
next
  case (Cons c cs)
  obtain p ps' where ps: "ps = p # ps'" using Cons.prems(4) by (cases ps) auto
  have t: "tidy (fds s) (Cmd c # steps cs)" using Cons.prems(2) by (simp add: tidy_Cons(1))
  let ?s = "s\<lparr>started := started s @ [child_process (fst p) c (fds s)], slave_pids := slave_pids s - {fst p},
      fds := close_modified (fd_output c) (close_modified (fd_input c) (fds s)), reports := reports s @ [report_of p]\<rparr>"
  have r: "run_command (own_turn p) c s = Some (snd p, ?s)"
    using run_own_turn Cons.prems(3,5) by (simp add: ps)
  note after = tidy_after [OF Cons.prems(1) t run_command_fds [OF r]]
  have "length ps' = length cs" "\<forall>p\<in>set ps'. 0 \<le> fst p" "children ?s = {}" using Cons.prems by (auto simp: ps)
  from Cons.IH [OF after(1,2) this(3,1,2), of "snd p = Exited 0"]
  obtain s' new where IH:
    "snd (run exec_command (steps cs) (snd p = Exited 0) (Some (?s, map own_turn ps'))) = Some (s', [])"
    "started s' = started ?s @ new" "map launched new = map (\<lambda>c. launch (seen_command (fds ?s) c)) cs"
    "\<forall>n<length cs. only_later (fds ?s) cs n (new ! n)"
    "\<forall>fd. entry (fds s') fd = (if \<exists>c\<in>set cs. holds_fd c fd then None else entry (fds ?s) fd)"
    "children s' = {}" "reports s' = reports ?s @ map report_of ps'" by blast
  let ?new = "child_process (fst p) c (fds s) # new"
  have same: "seen_command (fds ?s) d = seen_command (fds s) d" if "d \<in> set cs" for d
  proof -
    have "Cmd d \<in> set (steps cs)" using that by auto
    with after(3) show ?thesis unfolding map_eq_conv by fastforce
  qed
  have "snd (run exec_command (steps (c # cs)) ok (Some (s, map own_turn ps))) = Some (s', [])"
    using IH(1) r by (simp add: ps exec_command_def)
  moreover have "started s' = started s @ ?new" using IH(2) by simp
  moreover have "map launched ?new = map (\<lambda>c. launch (seen_command (fds s) c)) (c # cs)"
    using IH(3) launched_child [OF Cons.prems(1) t] same by simp
  moreover have "only_later (fds s) (c # cs) n (?new ! n)" if "n < length (c # cs)" for n
  proof (cases n)
    case 0
    then show ?thesis using child_only_later [OF Cons.prems(1) t] by simp
  next
    case (Suc m)
    with that IH(4) have m: "only_later (fds ?s) cs m (new ! m)" "m < length cs" by auto
    from same [OF nth_mem [OF m(2)]]
    have io: "seen (fds ?s) (fd_input (cs ! m)) = seen (fds s) (fd_input (cs ! m))"
      "seen (fds ?s) (fd_output (cs ! m)) = seen (fds s) (fd_output (cs ! m))"
      by (simp_all add: seen_command_def)
    have open': "entry (fds s) fd = Some (Chan ch) \<and> \<not> holds_fd c fd" if "entry (fds ?s) fd = Some (Chan ch)" for fd ch
      using that by (auto simp: holds_fd_def split: if_splits)
    show ?thesis unfolding only_later_def
    proof (intro allI impI)
      fix fd ch assume "entry (proc_fds (?new ! n)) fd = Some (Chan ch)"
      then have "entry (proc_fds (new ! m)) fd = Some (Chan ch)" by (simp add: Suc)
      with m(1) consider "Some ch = seen (fds ?s) (fd_input (cs ! m))" | "Some ch = seen (fds ?s) (fd_output (cs ! m))"
        | "entry (fds ?s) fd = Some (Chan ch)" "\<forall>d\<in>set (take (Suc m) cs). \<not> holds_fd d fd"
        unfolding only_later_def by blast
      then show "Some ch = seen (fds s) (fd_input ((c # cs) ! n)) \<or> Some ch = seen (fds s) (fd_output ((c # cs) ! n))
        \<or> (entry (fds s) fd = Some (Chan ch) \<and> (\<forall>d\<in>set (take (Suc n) (c # cs)). \<not> holds_fd d fd))"
      proof cases
        case 1
        then show ?thesis unfolding io by (simp add: Suc)
      next
        case 2
        then show ?thesis unfolding io by (simp add: Suc)
      next
        case 3
        then show ?thesis using open' [OF 3(1)] by (simp add: Suc)
      qed
    qed
  qed
  moreover have "\<forall>fd. entry (fds s') fd = (if \<exists>d\<in>set (c # cs). holds_fd d fd then None else entry (fds s) fd)"
    using IH(5) by (auto simp: holds_fd_def)
  moreover have "reports s' = reports s @ map report_of ps" using IH(7) by (simp add: ps)
  ultimately show ?case using IH(6) by blast
qed

end
