(* ===== verification/Shell_Props.thy ===== *)
theory Shell_Props imports Shell begin

text \<open>
  The properties of the shell of p4: parsing inverts printing and loses nothing, redirections,
  pipelines, and that running a list of commands joined by \<open>&&\<close> and \<open>||\<close> is reading it from
  the left.
\<close>

section \<open>Parsing\<close>

text \<open>Parsing the tokens of a line, written with single blanks between them, gives the same
  tokens: words, operators, redirections and quotations (blanks and operators inside
  included).\<close>

theorem parse_roundtrip:
  assumes "\<forall>t\<in>set ts. token t"
  shows "parse (unwords ts) = ts"
  by (rule parse_unwords [OF assms])

lemma token_examples: "token ''ls''" "token ''&&''" "token [CHR 0x22, CHR ''a'', CHR '' '', CHR ''b'', CHR 0x22]"
proof -
  show "token ''ls''" "token ''&&''"
    by (simp_all add: token_def word_token_def op_token_def is_wordchar_def is_opchar_def isspace_def
        is_single_def is_quote_def)
  have "quote_token (CHR 0x22 # [CHR ''a'', CHR '' '', CHR ''b''] @ [CHR 0x22])"
    unfolding quote_token_def
    by (rule exI [of _ "CHR 0x22"], rule exI [of _ "[CHR ''a'', CHR '' '', CHR ''b'']"]) (simp add: is_quote_def)
  then show "token [CHR 0x22, CHR ''a'', CHR '' '', CHR ''b'', CHR 0x22]" by (simp add: token_def)
qed

theorem parse_roundtrip_witness:
  "parse (''ls && '' @ [CHR 0x22, CHR ''a'', CHR '' '', CHR ''b'', CHR 0x22])
     = [''ls'', ''&&'', [CHR 0x22, CHR ''a'', CHR '' '', CHR ''b'', CHR 0x22]]"
  using parse_roundtrip [of "[''ls'', ''&&'', [CHR 0x22, CHR ''a'', CHR '' '', CHR ''b'', CHR 0x22]]"]
  by (simp add: token_examples)

text \<open>C40: The operands of any line are its tokens: cut at blanks, the characters \<open><\<close>, \<open>>\<close> and \<open>;\<close> by
  themselves, words and runs of \<open>&\<close> and \<open>|\<close> as long as they go on, quotations with their marks, an
  unclosed one dropped with the rest of the line. Writing the operands with single blanks and parsing
  again changes nothing.\<close>

theorem parse_is_tokens:
  "parse s = line_tokens s \<and> (\<forall>t\<in>set (parse s). token t) \<and> parse (unwords (parse s)) = parse s"
  using parse_tokens_of_line parse_tokens parse_unwords by blast

theorem parse_is_tokens_witness:
  "parse ''a&&b c>f'' = [''a'', ''&&'', ''b'', ''c'', ''>'', ''f''] \<and> parse ''ls|sort;'' = line_tokens ''ls|sort;''
     \<and> parse (unwords (parse ''ls|sort;'')) = parse ''ls|sort;'' \<and> token ''&&''"
proof -
  have "parse ''a&&b c>f'' = [''a'', ''&&'', ''b'', ''c'', ''>'', ''f'']" by code_simp
  moreover from parse_is_tokens [of "''a&&b c>f''"] this have "token ''&&''" by simp
  ultimately show ?thesis using parse_is_tokens [of "''ls|sort;''"] by blast
qed

text \<open>A line without quotation marks loses nothing but its white space: the operands one
  after the other are its other characters.\<close>

theorem parse_keeps_text:
  assumes "\<forall>c\<in>set s. \<not> is_quote c"
  shows "concat (parse s) = filter (\<lambda>c. \<not> isspace c) s"
  by (rule parse_no_quote [OF assms])

theorem parse_keeps_text_witness: "concat (parse ''cat<a |b'') = ''cat<a|b''"
proof -
  have "\<forall>c\<in>set ''cat<a |b''. \<not> is_quote c" by (simp add: is_quote_def)
  from parse_keeps_text [OF this] show ?thesis by (simp add: isspace_def)
qed

section \<open>Redirections\<close>

datatype piece = Arg string | In string | Out string

fun piece_tokens :: "piece \<Rightarrow> string list" where
  "piece_tokens (Arg t) = [t]"
| "piece_tokens (In f) = [''<'', f]"
| "piece_tokens (Out f) = [''>'', f]"

fun piece_ok :: "piece \<Rightarrow> bool" where
  "piece_ok (Arg t) \<longleftrightarrow> t \<noteq> ''<'' \<and> t \<noteq> ''>''"
| "piece_ok _ \<longleftrightarrow> True"

fun apply_piece :: "piece \<Rightarrow> channel command \<Rightarrow> channel command" where
  "apply_piece (Arg t) c = c\<lparr>args := args c @ [t]\<rparr>"
| "apply_piece (In f) c = c\<lparr>fd_input := Some (Read_File f)\<rparr>"
| "apply_piece (Out f) c = c\<lparr>fd_output := Some (Write_File f)\<rparr>"

lemma command_loop_arg:
  "t \<noteq> ''<'' \<Longrightarrow> t \<noteq> ''>'' \<Longrightarrow> command_loop (t # ts) c = command_loop ts (c\<lparr>args := args c @ [t]\<rparr>)"
  by (cases ts) simp_all

lemma command_loop_pieces:
  "\<forall>p\<in>set ps. piece_ok p \<Longrightarrow> command_loop (concat (map piece_tokens ps) @ ts) c = command_loop ts (fold apply_piece ps c)"
proof (induction ps arbitrary: c)
  case (Cons p ps)
  then show ?case by (cases p) (auto simp: command_loop_arg)
qed simp

lemma fold_pieces:
  "args (fold apply_piece ps c) = args c @ concat (map (\<lambda>p. case p of Arg t \<Rightarrow> [t] | _ \<Rightarrow> []) ps)"
  "fd_input (fold apply_piece ps c) = (case rev (concat (map (\<lambda>p. case p of In f \<Rightarrow> [f] | _ \<Rightarrow> []) ps)) of
     [] \<Rightarrow> fd_input c | f # _ \<Rightarrow> Some (Read_File f))"
  "fd_output (fold apply_piece ps c) = (case rev (concat (map (\<lambda>p. case p of Out f \<Rightarrow> [f] | _ \<Rightarrow> []) ps)) of
     [] \<Rightarrow> fd_output c | f # _ \<Rightarrow> Some (Write_File f))"
  by (induction ps arbitrary: c rule: rev_induct) (auto split: piece.split)

text \<open>The constructor of \<open>Command\<close> takes the words in order as arguments, wherever the
  redirections stand among them; of several input (output) files the last counts. A
  redirection at the end without a file reads beyond the vector.\<close>

theorem redirections:
  assumes "\<forall>p\<in>set ps. piece_ok p"
  shows "(\<exists>c. new_command (concat (map piece_tokens ps)) = Some c
      \<and> args c = concat (map (\<lambda>p. case p of Arg t \<Rightarrow> [t] | _ \<Rightarrow> []) ps)
      \<and> fd_input c = (case rev (concat (map (\<lambda>p. case p of In f \<Rightarrow> [f] | _ \<Rightarrow> []) ps)) of
           [] \<Rightarrow> None | f # _ \<Rightarrow> Some (Read_File f))
      \<and> fd_output c = (case rev (concat (map (\<lambda>p. case p of Out f \<Rightarrow> [f] | _ \<Rightarrow> []) ps)) of
           [] \<Rightarrow> None | f # _ \<Rightarrow> Some (Write_File f)))
    \<and> new_command (concat (map piece_tokens ps) @ [''<'']) = None
    \<and> new_command (concat (map piece_tokens ps) @ [''>'']) = None"
proof -
  let ?c0 = "\<lparr>args = [], fd_input = None, fd_output = None\<rparr>"
  have "new_command (concat (map piece_tokens ps) @ ts) = command_loop ts (fold apply_piece ps ?c0)" for ts
    unfolding new_command_def by (rule command_loop_pieces [OF assms])
  from this [of "[]"] this [of "[''<'']"] this [of "[''>'']"] show ?thesis
    by (simp add: fold_pieces cong: list.case_cong)
qed

theorem redirections_witness:
  "\<exists>c. new_command [''>'', ''b'', ''cat'', ''<'', ''a'', ''x''] = Some c \<and> args c = [''cat'', ''x'']
     \<and> fd_input c = Some (Read_File ''a'') \<and> fd_output c = Some (Write_File ''b'')"
  using redirections [of "[Out ''b'', Arg ''cat'', In ''a'', Arg ''x'']"] by auto

section \<open>Running\<close>

text \<open>C17: Running commands joined by \<open>&&\<close> and \<open>||\<close> is reading them from the left with equal
  precedence: each is run if and only if the status so far is a success for \<open>&&\<close>, a failure
  for \<open>||\<close>; the jump over several operands computes exactly that.\<close>

theorem run_reads_from_left:
  assumes "\<forall>oc\<in>set rest. fst oc = LOGICAL_AND \<or> fst oc = LOGICAL_OR"
  shows "run exec (chain c rest) ok s = fold (and_or exec) rest (exec c s)"
  by (rule run_chain [OF assms])

abbreviation simple :: "string list \<Rightarrow> channel command" where
  "simple ts \<equiv> \<lparr>args = ts, fd_input = None, fd_output = None\<rparr>"

text \<open>A world that records the commands run; \<open>true\<close> succeeds and \<open>false\<close> fails.\<close>

definition toy_exec :: "channel command \<Rightarrow> string list list \<Rightarrow> bool \<times> string list list" where
  "toy_exec c s = (hd (args c) \<noteq> ''false'', s @ [args c])"

theorem run_reads_from_left_witness:
  "run toy_exec (chain (simple [''false'']) [(LOGICAL_AND, simple [''a'']), (LOGICAL_AND, simple [''b'']), (LOGICAL_OR, simple [''c''])]) True []
     = (True, [[''false''], [''c'']])"
  using run_reads_from_left [of "[(LOGICAL_AND, simple [''a'']), (LOGICAL_AND, simple [''b'']), (LOGICAL_OR, simple [''c''])]"
      toy_exec "simple [''false'']" True "[]"]
  by (simp add: toy_exec_def and_or_def)

section \<open>Whole lines\<close>

definition argument :: "string \<Rightarrow> bool" where
  "argument t \<longleftrightarrow> word_token t \<or> quote_token t"

lemma argument_not_special:
  assumes "argument t"
  shows "\<not> is_operator t" "t \<noteq> ''<''" "t \<noteq> ''>''" "token t"
proof -
  have "\<not> is_opchar (hd t) \<and> \<not> is_single (hd t)"
    using assms char_classes(4,5) [of "hd t"]
    by (cases t) (auto simp: argument_def word_token_def quote_token_def)
  then show "\<not> is_operator t" "t \<noteq> ''<''" "t \<noteq> ''>''"
    by (auto simp: is_operator_def is_opchar_def is_single_def)
  show "token t" using assms by (auto simp: argument_def token_def)
qed

lemma new_command_arguments:
  "\<forall>t\<in>set ts. argument t \<Longrightarrow> new_command ts = Some (simple ts)"
proof -
  assume a: "\<forall>t\<in>set ts. argument t"
  have "command_loop ts c = Some (c\<lparr>args := args c @ ts\<rparr>)" for c
    using a by (induction ts arbitrary: c) (auto simp: command_loop_arg argument_not_special)
  then show ?thesis by (simp add: new_command_def)
qed

text \<open>Lines of simple commands joined by operators.\<close>

definition op_text :: "op_type \<Rightarrow> string" where
  "op_text o' = (case o' of LOGICAL_AND \<Rightarrow> ''&&'' | LOGICAL_OR \<Rightarrow> ''||'' | CONVEYOR \<Rightarrow> ''|''
     | BACKGROUND_MODE \<Rightarrow> ''&'' | SEPARATOR \<Rightarrow> '';'')"

definition joined :: "string list \<Rightarrow> (op_type \<times> string list) list \<Rightarrow> string" where
  "joined ts rest = unwords (ts @ concat (map (\<lambda>(o', us). op_text o' # us) rest))"

definition arguments :: "string list \<Rightarrow> bool" where
  "arguments ts \<longleftrightarrow> ts \<noteq> [] \<and> (\<forall>t\<in>set ts. argument t)"

lemma parse_joined:
  assumes "arguments ts" "\<forall>r\<in>set rest. fst r \<noteq> SEPARATOR \<and> arguments (snd r)"
  shows "parse (joined ts rest) = ts @ concat (map (\<lambda>(o', us). op_text o' # us) rest)"
proof -
  have "token (op_text o')" if "o' \<noteq> SEPARATOR" for o'
    using that by (cases o') (simp_all add: op_text_def token_def op_token_def is_opchar_def)
  then have "\<forall>t\<in>set (ts @ concat (map (\<lambda>(o', us). op_text o' # us) rest)). token t"
    using assms argument_not_special(4) by (fastforce simp: arguments_def)
  then show ?thesis unfolding joined_def by (rule parse_unwords)
qed

lemma assemble_joined:
  assumes "arguments ts" "\<forall>r\<in>set rest. fst r \<noteq> SEPARATOR \<and> arguments (snd r)"
  shows "assemble (parse (joined ts rest)) [] [] = Some (chain (simple ts) (map (\<lambda>(o', us). (o', simple us)) rest))"
    and "parse (joined ts rest) \<noteq> []"
proof -
  let ?ts = "ts @ concat (map (\<lambda>(o', us). op_text o' # us) rest)"
  have o: "is_operator (op_text o') \<and> operator_of (op_text o') = Some o'" if "o' \<noteq> SEPARATOR" for o'
    using that by (cases o') (simp_all add: op_text_def token_def op_token_def is_opchar_def is_operator_def operator_of_def)
  have p: "parse (joined ts rest) = ?ts" by (rule parse_joined [OF assms])
  then show "parse (joined ts rest) \<noteq> []" using assms(1) by (simp add: arguments_def)
  have plain: "plain us" if "arguments us" for us
    using that argument_not_special(1) by (auto simp: arguments_def plain_def)
  have "concat (map (\<lambda>(o', us). op_text o' # us) rest) = concat (map (\<lambda>(o', us). o' # us) (map (\<lambda>(o', us). (op_text o', us)) rest))"
    by (induction rest) auto
  moreover have "\<forall>(o', us)\<in>set (map (\<lambda>(o', us). (op_text o', us)) rest). is_operator o' \<and> plain us"
    using assms(2) o plain by fastforce
  moreover have "map (\<lambda>(o', us). (operator_of o', new_command us)) (map (\<lambda>(o', us). (op_text o', us)) rest)
      = map (\<lambda>(o', c). (Some o', Some c)) (map (\<lambda>(o', us). (o', simple us)) rest)"
    using assms(2) o new_command_arguments by (auto simp: arguments_def)
  moreover have "new_command ts = Some (simple ts)"
    by (rule new_command_arguments) (use assms(1) in \<open>simp add: arguments_def\<close>)
  ultimately show "assemble (parse (joined ts rest)) [] [] = Some (chain (simple ts) (map (\<lambda>(o', us). (o', simple us)) rest))"
    using assemble_chain [OF plain [OF assms(1)]] p by (metis append_Nil)
qed

lemma connect_simple_pipeline:
  "connect 0 k (chain c (map (\<lambda>d. (CONVEYOR, d)) ds)) = Some (pipeline (piped k c ds))"
proof -
  have "connect 0 k (chain c (map (\<lambda>d. (CONVEYOR, d)) ds)) = connect 1 k (chain c (map (\<lambda>d. (CONVEYOR, d)) ds))"
    by (subst connect.simps) simp
  with connect_pipeline [of "[]" k c ds] show ?thesis by simp
qed

lemma last_chain: "last (chain c rest) \<noteq> Op o'"
proof (induction rest rule: rev_induct)
  case (snoc r rest)
  then show ?case by (cases r) simp
qed simp

text \<open>From text to execution: a line of simple commands joined by \<open>&&\<close> and \<open>||\<close> runs in the
  foreground exactly the commands the reading from the left runs, with its final status.\<close>

theorem and_or_line_runs:
  assumes "arguments ts" "\<forall>r\<in>set rest. (fst r = LOGICAL_AND \<or> fst r = LOGICAL_OR) \<and> arguments (snd r)"
  shows "\<exists>ops. shell_line k (joined ts rest) = Some (Some (False, ops))
     \<and> run exec ops ok s = fold (and_or exec) (map (\<lambda>(o', us). (o', simple us)) rest) (exec (simple ts) s)"
proof -
  let ?rest = "map (\<lambda>(o', us). (o', simple us)) rest"
  have "\<forall>r\<in>set rest. fst r \<noteq> SEPARATOR \<and> arguments (snd r)" using assms(2) by auto
  note asm = assemble_joined [OF assms(1) this]
  have ao: "\<forall>oc\<in>set ?rest. fst oc = LOGICAL_AND \<or> fst oc = LOGICAL_OR" using assms(2) by auto
  have "Op CONVEYOR \<notin> set (chain c rest')" if "\<forall>oc\<in>set rest'. fst oc = LOGICAL_AND \<or> fst oc = LOGICAL_OR" for c rest'
    using that by (induction rest') auto
  note nc = this [OF ao]
  then have "connect 0 k (chain (simple ts) ?rest) = Some (chain (simple ts) ?rest)"
    by (intro connect_no_pipe) (simp only: drop_0 not_False_eq_True)
  moreover have "last (chain (simple ts) ?rest) \<noteq> Op BACKGROUND_MODE" by (rule last_chain)
  ultimately have "shell_line k (joined ts rest) = Some (Some (False, chain (simple ts) ?rest))"
    using asm by (simp add: shell_line_def Let_def del: chain.simps)
  with run_chain [OF ao, of exec "simple ts" ok s] show ?thesis by (intro exI conjI)
qed

lemma arguments_examples: "arguments [''true'']" "arguments [''ls'']" "arguments [''sort'']"
  by (simp_all add: arguments_def argument_def word_token_def is_wordchar_def isspace_def is_single_def
      is_opchar_def is_quote_def)

theorem and_or_line_runs_witness:
  "\<exists>ops. shell_line 0 ''true || ls && sort'' = Some (Some (False, ops))
     \<and> run toy_exec ops True [] = (True, [[''true''], [''sort'']])"
proof -
  have "joined [''true''] [(LOGICAL_OR, [''ls'']), (LOGICAL_AND, [''sort''])] = ''true || ls && sort''"
    by (simp add: joined_def op_text_def)
  then show ?thesis
    using and_or_line_runs [of "[''true'']" "[(LOGICAL_OR, [''ls'']), (LOGICAL_AND, [''sort''])]" 0 toy_exec True "[]"]
    by (simp add: arguments_examples toy_exec_def and_or_def)
qed

text \<open>From text to pipes: a line of simple commands joined by \<open>|\<close> becomes those commands in
  order, the output of each but the last being a pipe of its own that is the input of the next;
  no other channel is set.\<close>

theorem pipeline_line_connects:
  assumes "arguments ts" "\<forall>us\<in>set rest. arguments us"
  shows "shell_line k (joined ts (map (\<lambda>us. (CONVEYOR, us)) rest)) =
     Some (Some (False, pipeline (piped k (simple ts) (map simple rest))))"
proof -
  let ?rest = "map (\<lambda>us. (CONVEYOR, us)) rest"
  have "\<forall>r\<in>set ?rest. fst r \<noteq> SEPARATOR \<and> arguments (snd r)" using assms(2) by auto
  note asm = assemble_joined [OF assms(1) this]
  have m: "map (\<lambda>(o', us). (o', simple us)) ?rest = map (\<lambda>d. (CONVEYOR, d)) (map simple rest)" by simp
  note c = connect_simple_pipeline [of k "simple ts" "map simple rest"]
  have "\<exists>d. last (pipeline (piped k c ds)) = Cmd d" for k c ds
  proof (induction ds arbitrary: k c)
    case (Cons d ds)
    then show ?case by (cases ds) (auto simp: pipeline_def)
  qed (simp add: pipeline_def)
  then have "last (pipeline (piped k (simple ts) (map simple rest))) \<noteq> Op BACKGROUND_MODE"
    by (metis operand.distinct(1))
  with asm c show ?thesis unfolding m by (simp add: shell_line_def Let_def del: chain.simps)
qed

theorem pipeline_line_connects_witness:
  "shell_line 0 ''ls | sort | ls'' = Some (Some (False,
     [Cmd (simple [''ls''] \<lparr>fd_output := Some (Pipe_Write 0)\<rparr>), Op CONVEYOR,
      Cmd (simple [''sort''] \<lparr>fd_input := Some (Pipe_Read 0), fd_output := Some (Pipe_Write 1)\<rparr>), Op CONVEYOR,
      Cmd (simple [''ls''] \<lparr>fd_input := Some (Pipe_Read 1)\<rparr>)]))"
proof -
  have "joined [''ls''] (map (\<lambda>us. (CONVEYOR, us)) [[''sort''], [''ls'']]) = ''ls | sort | ls''"
    by (simp add: joined_def op_text_def)
  with pipeline_line_connects [of "[''ls'']" "[[''sort''], [''ls'']]" 0] show ?thesis
    by (simp add: arguments_examples pipeline_def)
qed

end
