(* ===== verification/Shell_Process_Props.thy ===== *)
theory Shell_Process_Props imports Shell_Pipeline Shell_Props begin

text \<open>
  The properties of the processes of the shell of p4: a line starts the processes the reading
  with channels says, a pipeline leaves no descriptor open, and what goes wrong when a command is
  skipped or a job runs in the background.
\<close>

section \<open>Any line\<close>

lemma last_map_operand: "ops \<noteq> [] \<Longrightarrow> last (map (map_operand f) ops) = Op o' \<longleftrightarrow> last ops = Op o'"
  by (cases "last ops") (simp_all add: last_map)

lemma assemble_nonempty:
  "assemble ts acc ops = Some ops' \<Longrightarrow> ts \<noteq> [] \<or> acc \<noteq> [] \<or> ops \<noteq> [] \<Longrightarrow> ops' \<noteq> []"
  by (induction ts acc ops rule: assemble.induct) (auto split: if_splits option.splits)

lemma connect_length: "connect i k ops = Some ops' \<Longrightarrow> length ops' = length ops"
proof (induction i k ops rule: connect.induct)
  case (1 i k ops)
  show ?case
  proof (cases "i < length ops \<and> ops ! i = Op CONVEYOR")
    case True
    then obtain c1 c0 where c: "0 < i" "i + 1 < length ops" "ops ! (i + 1) = Cmd c1" "ops ! (i - 1) = Cmd c0"
      using "1.prems" by (subst (asm) connect.simps) (auto split: if_splits operand.splits)
    show ?thesis
      using "1.IH"(1) [OF _ _ _ refl c(3,4)] c(1,2) "1.prems" True
      by (simp add: connect.simps [of i k ops] c(3,4) [simplified])
  next
    case False
    with "1.IH"(2) "1.prems" show ?thesis
      by (auto simp: connect.simps [of i k ops] split: if_splits)
  qed
qed

text \<open>C10: A line that is not put in the background starts exactly the processes the reading with
  channels says, each with the arguments and the standard input and output it says, and a file that
  cannot be opened leaving the standard one; a line in the background starts a copy of the shell and
  nothing else; a line that is undefined in one is undefined in the other.\<close>

theorem line_refines:
  assumes "std_open (fds s)"
  shows "case shell_line (next_pipe s) line of
      None \<Rightarrow> process_line opens reaped pid turns line s = None
    | Some None \<Rightarrow> process_line opens reaped pid turns line s
        = Some (s\<lparr>children := children s - reaped, slave_pids := {}\<rparr>, turns)
    | Some (Some (bg, ops)) \<Rightarrow>
        (if bg then \<exists>t k. process_line opens reaped pid turns line s
             = Some (background pid (s\<lparr>children := children s - reaped, slave_pids := {}, fds := t, next_pipe := k\<rparr>), turns)
         else world_of (process_line opens reaped pid turns line s)
           = snd (run exec_channels (map (map_operand (opened opens)) ops) True
               (Some (map launched (started s), children s - reaped, turns)))
           \<and> std_kept (process_line opens reaped pid turns line s))"
proof (cases "parse line = []")
  case True
  then show ?thesis by (simp add: shell_line_def process_line_def)
next
  case tokens: False
  from assemble_refines [OF made_Nil, of opens "fds s" "parse line" "[]"] show ?thesis
  proof cases
    case None
    with tokens show ?thesis by (simp add: shell_line_def process_line_def)
  next
    case (Some x aops)
    obtain ops t where x: "x = (ops, t)" by (cases x)
    note asm = Some(1) [unfolded x] Some(2)
    have m: "made opens (fds s) t ops aops" using Some(3) by (simp add: x)
    have ne: "aops \<noteq> []" using assemble_nonempty [OF asm(2)] tokens by simp
    from connect_refines [OF m, of 0 "next_pipe s"] show ?thesis
    proof cases
      case None
      with tokens asm show ?thesis by (simp add: shell_line_def process_line_def)
    next
      case (Some y aops')
      obtain ops' k' t' where y: "y = (ops', k', t')" by (cases y)
      note con = Some(1) [unfolded y] Some(2)
      have m': "made opens (fds s) t' ops' aops'" using Some(3) by (simp add: y)
      have l: "length ops' = length aops'" "aops' \<noteq> []"
        using made_length [OF m'] connect_length [OF con(2)] ne by auto
      have bg: "last ops' = Op BACKGROUND_MODE \<longleftrightarrow> last aops' = Op BACKGROUND_MODE"
        using last_map_operand [of ops' "seen_command t'"] last_map_operand [of aops' "opened opens"] madeD(5) [OF m'] l
        by fastforce
      have std: "std_open t'" using assms madeD(1) [OF m'] by (simp add: std_open_def extends_def)
      let ?s = "s\<lparr>children := children s - reaped, slave_pids := {}, fds := t', next_pipe := k'\<rparr>"
      have "std_open (fds ?s)" "tidy (fds ?s) ops'" using std made_tidy [OF m'] by simp_all
      from run_refines [OF this, of True turns] madeD(5) [OF m']
      show ?thesis using tokens asm con bg by (auto simp: shell_line_def process_line_def)
    qed
  qed
qed

theorem line_refines_witness:
  "\<exists>s' turns'. process_line (\<lambda>ch. ch \<noteq> Read_File ''g'') {} 0 [(8, Some (8, Exited 0)), (9, Some (9, Exited 1))]
       ''cat <f && cat <g'' (start_shell 7) = Some (s', turns')
     \<and> map launched (started s') = [([''cat''], Some (Chan (Read_File ''f'')), Some (Std 1)), ([''cat''], Some (Std 0), Some (Std 1))]"
proof -
  let ?opens = "\<lambda>ch. ch \<noteq> Read_File ''g''" and ?line = "''cat <f && cat <g''"
  let ?turns = "[(8, Some (8, Exited 0)), (9, Some (9, Exited 1))] :: turn list"
  have std: "std_open (fds (start_shell 7))" by (simp add: std_open_def entry_def start_shell_def)
  have sl: "shell_line 0 ?line = Some (Some (False, [Cmd \<lparr>args = [''cat''], fd_input = Some (Read_File ''f''), fd_output = None\<rparr>,
      Op LOGICAL_AND, Cmd \<lparr>args = [''cat''], fd_input = Some (Read_File ''g''), fd_output = None\<rparr>]))"
    by code_simp
  have n: "next_pipe (start_shell 7) = 0" "started (start_shell 7) = []" "children (start_shell 7) = {}"
    by (simp_all add: start_shell_def)
  have "world_of (process_line ?opens {} 0 ?turns ?line (start_shell 7))
    = Some ([([''cat''], Some (Chan (Read_File ''f'')), Some (Std 1)), ([''cat''], Some (Std 0), Some (Std 1))], {}, [])"
    using line_refines [OF std, where line = ?line and opens = ?opens and reaped = "{}" and pid = 0 and turns = ?turns]
    by (simp add: n sl exec_channels_def opened_def launch_def Let_def)
  then show ?thesis
    by (cases "process_line ?opens {} 0 ?turns ?line (start_shell 7)") auto
qed

section \<open>Pipelines\<close>

lemma pipeline_shape:
  "map (map_operand f) ops = map (map_operand g) (pipeline as) \<Longrightarrow> \<exists>cs. ops = pipeline cs \<and> map f cs = map g as"
proof -
  have steps: "map (map_operand f) ops = map (map_operand g) (steps as) \<Longrightarrow> \<exists>cs. ops = steps cs \<and> map f cs = map g as" for ops as
  proof (induction as arbitrary: ops)
    case (Cons a as)
    then obtain x y ops' where ops: "ops = x # y # ops'" by (cases ops rule: list.exhaust; cases "tl ops") auto
    with Cons.prems have "x = Op CONVEYOR" "map (map_operand f) ops' = map (map_operand g) (steps as)"
      by (cases x; simp)+
    moreover obtain c where "y = Cmd c" "f c = g a" using Cons.prems by (cases y) (auto simp: ops)
    moreover obtain cs where "ops' = steps cs" "map f cs = map g as" using Cons.IH calculation(2) by blast
    ultimately show ?case by (intro exI [of _ "c # cs"]) (simp add: ops)
  qed simp
  assume A: "map (map_operand f) ops = map (map_operand g) (pipeline as)"
  show ?thesis
  proof (cases as)
    case Nil
    with A show ?thesis by (intro exI [of _ "[]"]) (simp add: pipeline_def)
  next
    case (Cons a as')
    with A obtain c ops' where "ops = Cmd c # ops'" "f c = g a" "map (map_operand f) ops' = map (map_operand g) (steps as')"
      by (cases ops; cases "hd ops") (auto simp: pipeline_def)
    moreover from steps [OF this(3)] obtain cs where "ops' = steps cs" "map f cs = map g as'" by blast
    ultimately show ?thesis by (intro exI [of _ "c # cs"]) (simp add: pipeline_def Cons)
  qed
qed

lemma piped_nth:
  "length (piped k c ds) = Suc (length ds)"
  "i \<le> length ds \<Longrightarrow> fd_input (piped k c ds ! i) = (if i = 0 then fd_input c else Some (Pipe_Read (k + i - 1)))"
  "i \<le> length ds \<Longrightarrow> fd_output (piped k c ds ! i) = (if i < length ds then Some (Pipe_Write (k + i)) else fd_output ((c # ds) ! i))"
  by (induction ds arbitrary: k c i) (auto simp: nth_Cons split: nat.split)

lemma opened_piped: "map (opened opens) (piped k (simple ts) (map simple rest)) = piped k (simple ts) (map simple rest)"
proof -
  have "opened opens (piped k (simple ts) (map simple rest) ! i) = piped k (simple ts) (map simple rest) ! i"
    if "i < Suc (length rest)" for i
    using piped_nth(2,3) [of i "map simple rest" k "simple ts"] that
    by (auto simp: opened_def nth_Cons split: nat.split)
  then show ?thesis by (intro nth_equalityI) (simp_all add: piped_nth)
qed

text \<open>The shell before the commands of a pipeline run.\<close>

lemma pipeline_prepared:
  assumes "arguments ts" "\<forall>us\<in>set rest. arguments us"
  obtains cs k' t' ops where
    "assemble_fds opens (parse (joined ts (map (\<lambda>us. (CONVEYOR, us)) rest))) [] [] t = Some (ops, t)"
    "connect_fds 0 k ops t = Some (pipeline cs, k', t')"
    "made opens t t' (pipeline cs) (pipeline (piped k (simple ts) (map simple rest)))"
    "covers t t' (pipeline cs)" "map (seen_command t') cs = piped k (simple ts) (map simple rest)"
proof -
  let ?rest = "map (\<lambda>us. (CONVEYOR, us)) rest" and ?line = "joined ts (map (\<lambda>us. (CONVEYOR, us)) rest)"
  let ?aops = "chain (simple ts) (map (\<lambda>d. (CONVEYOR, d)) (map simple rest))"
  let ?pipe = "pipeline (piped k (simple ts) (map simple rest))"
  have r: "\<forall>r\<in>set ?rest. fst r \<noteq> SEPARATOR \<and> arguments (snd r)" using assms(2) by auto
  have m: "map (\<lambda>(o', us). (o', simple us)) ?rest = map (\<lambda>d. (CONVEYOR, d)) (map simple rest)" by simp
  have asm: "assemble (parse ?line) [] [] = Some ?aops" using assemble_joined(1) [OF assms(1) r] unfolding m .
  from assemble_refines [OF made_Nil, of opens t "parse ?line" "[]"] asm
  obtain ops t1 where ops: "assemble_fds opens (parse ?line) [] [] t = Some (ops, t1)" "made opens t t1 ops ?aops"
    by (auto elim: option.rel_cases simp del: chain.simps)
  have words: "''<'' \<notin> set (parse ?line)" "''>'' \<notin> set (parse ?line)"
    using parse_joined [OF assms(1) r] assms argument_not_special(2,3)
    by (auto simp: arguments_def op_text_def)
  have t1: "t1 = t" using assemble_words [OF ops(1)] words by simp
  note made = ops(2) [unfolded t1]
  have none: "\<not> holds ops i b fd" for i b fd
  proof
    assume h: "holds ops i b fd"
    then have i: "i < length ops" by (simp add: holds_def)
    obtain c where c: "ops ! i = Cmd c" using h by (cases "ops ! i") (simp_all add: holds_def)
    obtain a where a: "?aops ! i = Cmd a" using made_shape(2) [OF made i c] by blast
    then have "Cmd a \<in> set ?aops" using i made_length [OF made] by (metis nth_mem)
    then have "fd_input a = None" "fd_output a = None" by (auto split: if_splits)
    moreover have "seen_command t c = opened opens a"
      using madeD(5) [OF made] i c a made_length [OF made] by (metis nth_map operand.inject(1) operand.map(1))
    ultimately have "seen t (slot b (ops ! i)) = None"
      by (cases b) (simp_all add: c seen_command_def opened_def)
    moreover obtain ch where "entry t fd = Some (Chan ch)" using madeD(3) [OF made h] by blast
    ultimately show False using h by (simp add: holds_def seen_def)
  qed
  have con: "connect 0 k ?aops = Some ?pipe" by (rule connect_simple_pipeline)
  from connect_refines [OF made, of 0 k] con
  obtain ops' k' t' where ops': "connect_fds 0 k ops t = Some (ops', k', t')" "made opens t t' ops' ?pipe"
    by (auto elim: option.rel_cases simp del: chain.simps)
  obtain cs where cs: "ops' = pipeline cs" "map (seen_command t') cs = map (opened opens) (piped k (simple ts) (map simple rest))"
    using pipeline_shape [OF madeD(5) [OF ops'(2)]] by blast
  have "covers t t' (pipeline cs)"
    by (rule connect_covers [OF _ _ ops'(1) [unfolded cs(1)]]) (auto simp: covers_def unpiped_def none)
  with that ops(1) ops' cs show ?thesis by (simp add: t1 opened_piped)
qed

lemma tidy_Op:
  assumes "tidy t ops"
  shows "tidy t (Op o' # ops)"
proof -
  have h: "holds (Op o' # ops) i b fd \<longleftrightarrow> 0 < i \<and> holds ops (i - 1) b fd" for i b fd
    by (simp add: holds_Cons)
  have "i = j \<and> a = b" if "holds (Op o' # ops) i a fd" "holds (Op o' # ops) j b fd" for i j a b fd
  proof -
    from that have "0 < i" "0 < j" "holds ops (i - 1) a fd" "holds ops (j - 1) b fd" by (simp_all add: h)
    moreover from this(3,4) assms have "i - 1 = j - 1 \<and> a = b" unfolding tidy_def by blast
    ultimately show ?thesis by auto
  qed
  with assms show ?thesis unfolding tidy_def h by blast
qed

lemma tidy_steps: "tidy t (pipeline cs) \<Longrightarrow> tidy t (steps cs)"
  using tidy_Op [of t "pipeline cs" CONVEYOR] by (cases cs) (simp_all add: pipeline_def)

lemma set_pipeline: "set (pipeline cs) \<subseteq> insert (Op CONVEYOR) (Cmd ` set cs)"
  by (cases cs) (auto simp: pipeline_def)

lemma holds_pipeline:
  assumes h: "holds (pipeline cs) i b fd"
  shows "\<exists>n<length cs. slot b (Cmd (cs ! n)) = Some fd"
proof -
  from h have "pipeline cs ! i \<in> set (pipeline cs)" "slot b (pipeline cs ! i) = Some fd" by (simp_all add: holds_def)
  with set_pipeline [of cs] obtain c where "c \<in> set cs" "slot b (Cmd c) = Some fd" by fastforce
  then show ?thesis by (auto simp: in_set_conv_nth)
qed

text \<open>The shell's write ends of pipes have numbers below the next one.\<close>

definition pipes_below :: "nat \<Rightarrow> fd_table \<Rightarrow> bool" where
  "pipes_below k t \<longleftrightarrow> (\<forall>fd j. entry t fd = Some (Chan (Pipe_Write j)) \<longrightarrow> j < k)"

text \<open>A process that reads a pipe holds no write end of it.\<close>

definition sees_end :: "process \<Rightarrow> bool" where
  "sees_end p \<longleftrightarrow> (\<forall>j fd. entry (proc_fds p) 0 = Some (Chan (Pipe_Read j)) \<longrightarrow> entry (proc_fds p) fd \<noteq> Some (Chan (Pipe_Write j)))"

lemma pipeline_sees_end:
  assumes m: "made opens t t' (pipeline cs) (pipeline (piped k (simple ts) (map simple rest)))"
    and cov: "covers t t' (pipeline cs)" and cs: "map (seen_command t') cs = piped k (simple ts) (map simple rest)"
    and below: "pipes_below k t" and n: "n < length cs" and p: "only_later t' cs n p"
    and l: "launched p = launch (seen_command t' (cs ! n))"
  shows "sees_end p"
  unfolding sees_end_def
proof (intro allI impI notI)
  fix j fd
  assume r: "entry (proc_fds p) 0 = Some (Chan (Pipe_Read j))" and w: "entry (proc_fds p) fd = Some (Chan (Pipe_Write j))"
  have len: "length cs = Suc (length rest)" using arg_cong [OF cs, of length] by (simp add: piped_nth)
  have seen: "seen t' (fd_input (cs ! i)) = (if i = 0 then None else Some (Pipe_Read (k + i - 1)))"
    "seen t' (fd_output (cs ! i)) = (if i < length rest then Some (Pipe_Write (k + i)) else None)" if "i < length cs" for i
  proof -
    have "seen_command t' (cs ! i) = piped k (simple ts) (map simple rest) ! i"
      using cs that by (metis nth_map)
    from arg_cong [OF this, of fd_input] arg_cong [OF this, of fd_output] show "seen t' (fd_input (cs ! i)) = (if i = 0 then None else Some (Pipe_Read (k + i - 1)))"
      "seen t' (fd_output (cs ! i)) = (if i < length rest then Some (Pipe_Write (k + i)) else None)"
      using piped_nth(2,3) [of i "map simple rest" k "simple ts"] that len
      by (cases i; simp add: seen_command_def)+
  qed
  from l r have "seen t' (fd_input (cs ! n)) = Some (Pipe_Read j)"
    by (auto simp: launched_def launch_def seen_command_def split: option.splits)
  with seen(1) [OF n] have j: "0 < n" "j = k + n - 1" by (auto split: if_splits)
  from p w consider "Some (Pipe_Write j) = seen t' (fd_input (cs ! n))" | "Some (Pipe_Write j) = seen t' (fd_output (cs ! n))"
    | "entry t' fd = Some (Chan (Pipe_Write j))" "\<forall>c\<in>set (take (Suc n) cs). \<not> holds_fd c fd"
    unfolding only_later_def by blast
  then show False
  proof cases
    case 3
    have "\<not> j < k" using j by simp
    then have "entry t fd \<noteq> Some (Chan (Pipe_Write j))" using below by (auto simp: pipes_below_def)
    then have "entry t fd = None" using madeD(1) [OF m] 3(1) by (fastforce simp: extends_def)
    then obtain i b where "holds (pipeline cs) i b fd" using cov 3(1) by (auto simp: covers_def)
    then obtain i where i: "i < length cs" "slot b (Cmd (cs ! i)) = Some fd" using holds_pipeline by blast
    then have "seen t' (slot b (Cmd (cs ! i))) = Some (Pipe_Write j)" by (simp add: seen_def 3(1))
    with seen [OF i(1)] j have "i = n - 1" by (cases b) (auto split: if_splits)
    then have "cs ! i \<in> set (take (Suc n) cs)"
      using i(1) by (metis diff_le_self in_set_conv_nth le_imp_less_Suc length_take min_less_iff_conj nth_take)
    moreover have "holds_fd (cs ! i) fd" using i(2) by (cases b) (simp_all add: holds_fd_def)
    ultimately show False using 3(2) by blast
  qed (use seen [OF n] j in \<open>auto split: if_splits\<close>)
qed

text \<open>Closing what the commands of a pipeline hold leaves what was open before.\<close>

lemma pipeline_restores:
  assumes m: "made opens t t' (pipeline cs) aops" and cov: "covers t t' (pipeline cs)"
  shows "(if \<exists>c\<in>set cs. holds_fd c fd then None else entry t' fd) = entry t fd"
proof (cases "entry t fd")
  case None
  show ?thesis
  proof (cases "entry t' fd = None")
    case False
    with None cov obtain i b where "holds (pipeline cs) i b fd" by (auto simp: covers_def)
    then obtain n where "n < length cs" "slot b (Cmd (cs ! n)) = Some fd" using holds_pipeline by blast
    then have "\<exists>c\<in>set cs. holds_fd c fd" by (cases b) (auto simp: holds_fd_def)
    with None show ?thesis by simp
  qed (use None in simp)
next
  case (Some d)
  then have t': "entry t' fd = Some d" using madeD(1) [OF m] by (auto simp: extends_def)
  have "\<not> holds_fd c fd" if c: "c \<in> set cs" for c
  proof
    assume "holds_fd c fd"
    then obtain b where b: "slot b (Cmd c) = Some fd" by (metis holds_fd_def slot_simps(2,3))
    have "0 \<le> fd" using Some by (auto simp: entry_def split: if_splits)
    moreover have "Cmd c \<in> set (pipeline cs)" using c by (cases cs) (auto simp: pipeline_def)
    then obtain i where "i < length (pipeline cs)" "pipeline cs ! i = Cmd c" by (auto simp: in_set_conv_nth)
    ultimately have "holds (pipeline cs) i b fd" using b by (simp add: holds_def)
    then show False using madeD(2) [OF m] Some by fastforce
  qed
  with Some t' show ?thesis by auto
qed



section \<open>What goes wrong\<close>

text \<open>\<open>false && ls | sort\<close>: the jump over \<open>ls\<close> ends at the pipe operator, so \<open>sort\<close> is run. The write end
  of its pipe is open in it and in the shell: it never sees the end of its input.\<close>

theorem skipped_writer_blocks_reader:
  "case process_line (\<lambda>_. True) {} 0 [(8, Some (8, Exited 1)), (9, Some (9, Exited 0))] ''false && ls | sort'' (start_shell 7) of
     None \<Rightarrow> False
   | Some (s, _) \<Rightarrow> map proc_args (started s) = [[''false''], [''sort'']] \<and> entry (fds s) 4 = Some (Chan (Pipe_Write 0))
       \<and> (let p = started s ! 1 in entry (proc_fds p) 0 = Some (Chan (Pipe_Read 0)) \<and> entry (proc_fds p) 4 = Some (Chan (Pipe_Write 0)))"
  by code_simp

text \<open>After a line in the background the shell still holds its descriptors, and \<open>master_pid\<close> is the child's, so
  that SIGINT in the shell is passed to no one.\<close>

theorem background_leaks:
  "case process_line (\<lambda>_. True) {} 8 [] ''cat <f &'' (start_shell 7) of
     None \<Rightarrow> False
   | Some (s, _) \<Rightarrow> entry (fds s) 3 = Some (Chan (Read_File ''f'')) \<and> slave_pids s = {8} \<and> handler 7 s = ({}, False)"
  by code_simp

text \<open>\<open>wait\<close> may return a job in the background: then \<open>false && ls\<close> runs \<open>ls\<close>.\<close>

theorem wait_takes_background_status:
  "case process_line (\<lambda>_. True) {} 8 [] ''sleep &'' (start_shell 7) of
     None \<Rightarrow> False
   | Some (s, _) \<Rightarrow>
      (case process_line (\<lambda>_. True) {} 0 [(9, Some (8, Exited 0)), (10, Some (10, Exited 0))] ''false && ls'' s of
         None \<Rightarrow> False
       | Some (s', _) \<Rightarrow> map proc_args (started s') = [[''false''], [''ls'']] \<and> children s' = {9})"
  by code_simp

end
