(* ===== verification/Shell_Failed.thy ===== *)
theory Shell_Failed imports Shell_Process_Props begin

text \<open>
  A child of the shell of p4 whose \<open>execvp\<close> fails (p4/Operand.cpp, main.cpp): nothing follows the call
  in \<open>Command::run\<close>, so the child returns from it and goes on with the line, and then with the lines to
  come, as a second shell. Its field \<open>status\<close> was never written.
\<close>

section \<open>The child\<close>

text \<open>The child after \<open>Command::run\<close>: the shell with the redirected descriptors and no children. What it
  starts and reports is counted from here.\<close>

definition failed_child :: "int command \<Rightarrow> shell \<Rightarrow> shell" where
  "failed_child c s = s\<lparr>fds := redirect (fd_output c) 1 (redirect (fd_input c) 0 (fds s)), children := {}, started := [], reports := []\<rparr>"

text \<open>The rest of \<open>run\<close> in the child. Copying the status is taken to be harmless; it is looked at if the next operator is \<open>&&\<close> or \<open>||\<close>, which is
  undefined, and otherwise not before the next command has written it.\<close>

definition failed_rest :: "int command operand list \<Rightarrow> turn list \<Rightarrow> shell \<Rightarrow> (shell \<times> turn list) option" where
  "failed_rest ops turns s =
     (if ops \<noteq> [] \<and> (hd ops = Op LOGICAL_AND \<or> hd ops = Op LOGICAL_OR) then None
      else snd (run exec_command ops True (Some (s, turns))))"

text \<open>A line in the foreground in the child of its first command; \<open>turns\<close> are the child's own.\<close>

definition failed_line :: "(channel \<Rightarrow> bool) \<Rightarrow> int set \<Rightarrow> turn list \<Rightarrow> string \<Rightarrow> shell \<Rightarrow> (shell \<times> turn list) option" where
  "failed_line opens reaped turns line s =
     (let s1 = s\<lparr>children := children s - reaped, slave_pids := {}\<rparr> in
      case assemble_fds opens (parse line) [] [] (fds s1) of
        None \<Rightarrow> None
      | Some (ops, t) \<Rightarrow> (case connect_fds 0 (next_pipe s1) ops t of
          Some (Cmd c # ops', k, t') \<Rightarrow>
            (if last (Cmd c # ops') = Op BACKGROUND_MODE then None
             else failed_rest ops' turns (failed_child c (s1\<lparr>fds := t', next_pipe := k\<rparr>)))
        | _ \<Rightarrow> None))"

section \<open>A second shell\<close>

lemma single_prepared:
  assumes "arguments ts"
  shows "assemble_fds opens (parse (joined ts [])) [] [] t = Some ([Cmd \<lparr>args = ts, fd_input = None, fd_output = None\<rparr>], t)"
proof -
  have p: "parse (joined ts []) = ts" using parse_joined [OF assms, of "[]"] by simp
  have args: "\<forall>t\<in>set ts. argument t" "ts \<noteq> []" using assms by (auto simp: arguments_def)
  have loop: "open_loop opens us c t = Some (c\<lparr>args := args c @ us\<rparr>, t)"
    if "\<forall>t\<in>set us. t \<noteq> ''<'' \<and> t \<noteq> ''>''" for us and c :: "int command"
    using that by (induction opens us c t rule: open_loop.induct) simp_all
  have words: "\<forall>t\<in>set ts. t \<noteq> ''<'' \<and> t \<noteq> ''>'' \<and> \<not> is_operator t" using args argument_not_special by auto
  have "assemble_fds opens us acc ops t = assemble_fds opens [] (acc @ us) ops t" if "\<forall>u\<in>set us. \<not> is_operator u" for us acc ops
    using that by (induction us arbitrary: acc) simp_all
  from this [of ts "[]" "[]"] loop [of ts] words args(2) show ?thesis by (simp add: new_fd_command_def p)
qed

text \<open>After a line with an unknown program there are two shells: the child is the shell itself with its
  descriptors and reads the next line, while the first waits for it. SIGINT ends the child, since it is
  not the process \<open>shell_pid\<close> names.\<close>

theorem unknown_command_second_shell:
  assumes "arguments ts"
  shows "failed_line opens reaped turns (joined ts []) s = Some (s\<lparr>children := {}, slave_pids := {}, started := [], reports := []\<rparr>, turns)"
    and "self \<noteq> shell_pid s \<Longrightarrow> self \<noteq> master_pid s \<Longrightarrow>
      handler self (s\<lparr>children := {}, slave_pids := {}, started := [], reports := []\<rparr>) = ({}, True)"
proof -
  have "connect_fds 0 k [Cmd c] t = Some ([Cmd c], k, t)" for k c t by (simp add: connect_fds.simps)
  then show "failed_line opens reaped turns (joined ts []) s = Some (s\<lparr>children := {}, slave_pids := {}, started := [], reports := []\<rparr>, turns)"
    by (cases s) (simp add: failed_line_def single_prepared [OF assms] failed_rest_def failed_child_def redirect_def)
qed (simp add: handler_def)

section \<open>A pipeline that waits for itself\<close>

text \<open>The descriptors of the child of the first command of a pipeline, and those of a command it then
  starts which reads the pipe.\<close>

lemma failed_writer_tables:
  assumes std: "std_open t" and tidy: "tidy t [Cmd c0, Op CONVEYOR, Cmd c1]"
    and seen: "seen t (fd_output c0) = Some (Pipe_Write k)" "seen t (fd_input c1) = Some (Pipe_Read k)" "seen t (fd_output c1) = None"
  defines "u \<equiv> redirect (fd_output c0) 1 (redirect (fd_input c0) 0 t)"
  shows "entry (close_modified (fd_output c1) (close_modified (fd_input c1) u)) 1 = Some (Chan (Pipe_Write k))"
    and "entry (proc_fds (child_process pid c1 u)) 0 = Some (Chan (Pipe_Read k))"
    and "entry (proc_fds (child_process pid c1 u)) 1 = Some (Chan (Pipe_Write k))"
proof -
  have tidy1: "tidy t [Cmd c1]" using tidy tidy_Cons(1) by blast
  obtain r where r: "fd_input c1 = Some r" "entry t r = Some (Chan (Pipe_Read k))" "0 \<le> r"
    using seen(2) by (auto simp: seen_def entry_def split: option.splits description.splits if_splits)
  note u = child_entries [OF std tidy, folded u_def]
  note c1 = child_entries(2-) [OF std tidy1]
  have r01: "r \<noteq> 0" "r \<noteq> 1" using c1(1,2) r(1) by auto
  have u1: "entry u 1 = Some (Chan (Pipe_Write k))" using seen(1) by (simp add: u(1) del: One_nat_def)
  have "fd_output c0 \<noteq> Some r" "fd_input c0 \<noteq> Some r"
    using tidy_Cons(4) [OF tidy, of False r 1 True] tidy_Cons(4) [OF tidy, of True r 1 True] r(1,3)
    by (auto simp: holds_Cons)
  then have ur: "entry u r = Some (Chan (Pipe_Read k))" using r01 by (simp add: u(1) r(2) del: One_nat_def)
  have u0: "entry u 0 \<noteq> None" using std u(2,4) by (simp add: u(1) std_open_def del: One_nat_def)
  have keep: "redirect (fd_output c1) 1 t' = t'" for t'
  proof (cases "fd_output c1")
    case (Some fd)
    have "\<not> 0 \<le> fd" using tidy_Cons(2) [OF tidy1, of False fd] Some seen(3) by (auto simp: seen_def)
    with Some show ?thesis by (simp add: redirect_def dup2_def close_fd_def entry_negative)
  qed (simp add: redirect_def)
  have "proc_fds (child_process pid c1 u) = close_fd r (dup2 r 0 u)"
    unfolding child_process_def process.simps keep by (simp add: r(1) redirect_def [of "Some r"])
  with r01 u0 ur u1 show "entry (proc_fds (child_process pid c1 u)) 0 = Some (Chan (Pipe_Read k))"
    "entry (proc_fds (child_process pid c1 u)) 1 = Some (Chan (Pipe_Write k))" by (simp_all add: entry_dup2)
  show "entry (close_modified (fd_output c1) (close_modified (fd_input c1) u)) 1 = Some (Chan (Pipe_Write k))"
    using c1(2,4) r01 u1 by simp
qed

text \<open>C35: \<open>ts | us\<close> with an unknown program \<open>ts\<close>: the child of \<open>ts\<close>, whose standard output is the pipe, goes on
  and starts \<open>us\<close> itself, which reads the pipe and writes into it, and waits for it. A reader that waits
  for the end of its input waits for ever: its own standard output and that of the child waiting for
  it are write ends of the pipe.\<close>

theorem unknown_writer_hangs:
  assumes "std_open (fds s)" "arguments ts" "arguments us" "0 \<le> pid"
  shows "\<exists>s' p. failed_line opens reaped [(pid, Some (pid, status))] (joined ts [(CONVEYOR, us)]) s = Some (s', [])
    \<and> started s' = [p] \<and> proc_args p = us
    \<and> entry (proc_fds p) 0 = Some (Chan (Pipe_Read (next_pipe s)))
    \<and> entry (proc_fds p) 1 = Some (Chan (Pipe_Write (next_pipe s)))
    \<and> entry (fds s') 1 = Some (Chan (Pipe_Write (next_pipe s)))"
proof -
  let ?t = "fds s" and ?k = "next_pipe s"
  have rest: "\<forall>us'\<in>set [us]. arguments us'" using assms(3) by simp
  obtain cs k' t' ops where prep: "assemble_fds opens (parse (joined ts (map (\<lambda>us. (CONVEYOR, us)) [us]))) [] [] ?t = Some (ops, ?t)"
    "connect_fds 0 ?k ops ?t = Some (pipeline cs, k', t')"
    "made opens ?t t' (pipeline cs) (pipeline (piped ?k (simple ts) (map simple [us])))"
    "map (seen_command t') cs = piped ?k (simple ts) (map simple [us])"
    by (rule pipeline_prepared [OF assms(2) rest])
  then obtain c0 c1 where cs: "cs = [c0, c1]"
    "seen_command t' c0 = (simple ts)\<lparr>fd_output := Some (Pipe_Write ?k)\<rparr>"
    "seen_command t' c1 = (simple us)\<lparr>fd_input := Some (Pipe_Read ?k)\<rparr>" by (auto simp: map_eq_Cons_conv)
  have ops: "pipeline cs = [Cmd c0, Op CONVEYOR, Cmd c1]" by (simp add: cs(1) pipeline_def)
  have std: "std_open t'" using assms(1) madeD(1) [OF prep(3)] by (simp add: std_open_def extends_def)
  have tidy: "tidy t' [Cmd c0, Op CONVEYOR, Cmd c1]" using made_tidy [OF prep(3)] by (simp only: ops)
  have seen: "seen t' (fd_output c0) = Some (Pipe_Write ?k)" "seen t' (fd_input c1) = Some (Pipe_Read ?k)"
    "seen t' (fd_output c1) = None" "args c1 = us"
    using cs(2,3) by (auto simp: seen_command_def dest: arg_cong [of _ _ fd_output] arg_cong [of _ _ fd_input] arg_cong [of _ _ args])
  let ?u = "redirect (fd_output c0) 1 (redirect (fd_input c0) 0 t')"
  let ?s = "s\<lparr>children := {}, slave_pids := {}, fds := ?u, next_pipe := k', started := [], reports := []\<rparr>"
  let ?p = "child_process pid c1 ?u"
  have run: "run_command (pid, Some (pid, status)) c1 ?s = Some (status, ?s\<lparr>started := [?p], slave_pids := {},
      fds := close_modified (fd_output c1) (close_modified (fd_input c1) ?u), reports := [(pid, exit_code status)]\<rparr>)" (is "_ = Some (_, ?s')")
    using assms(4) by (simp add: run_command_def Let_def)
  have "failed_line opens reaped [(pid, Some (pid, status))] (joined ts [(CONVEYOR, us)]) s
      = snd (run exec_command [Op CONVEYOR, Cmd c1] True (Some (?s, [(pid, Some (pid, status))])))"
    using prep(1,2) by (cases s) (simp add: failed_line_def ops failed_rest_def failed_child_def)
  also have "\<dots> = Some (?s', [])" by (simp add: exec_command_def run del: One_nat_def)
  finally have "failed_line opens reaped [(pid, Some (pid, status))] (joined ts [(CONVEYOR, us)]) s = Some (?s', [])" .
  moreover have "proc_args ?p = us" by (simp add: child_process_def seen(4))
  ultimately show ?thesis using failed_writer_tables [OF std tidy seen(1-3)]
    by (intro exI [of _ ?s'] exI [of _ ?p]) simp
qed

theorem unknown_writer_hangs_witness:
  "\<exists>s' p. failed_line (\<lambda>_. True) {} [(9, Some (9, Exited 0))] ''nosuch | sort'' (start_shell 7) = Some (s', [])
    \<and> started s' = [p] \<and> proc_args p = [''sort''] \<and> entry (proc_fds p) 0 = Some (Chan (Pipe_Read 0))
    \<and> entry (proc_fds p) 1 = Some (Chan (Pipe_Write 0)) \<and> entry (fds s') 1 = Some (Chan (Pipe_Write 0))"
proof -
  have s: "std_open (fds (start_shell 7))" "next_pipe (start_shell 7) = 0" by (simp_all add: std_open_def entry_def start_shell_def)
  have a: "arguments [''nosuch'']" "arguments [''sort'']"
    by (simp_all add: arguments_examples) (simp_all add: arguments_def argument_def word_token_def is_wordchar_def
        isspace_def is_single_def is_opchar_def is_quote_def)
  have "joined [''nosuch''] [(CONVEYOR, [''sort''])] = ''nosuch | sort''" by (simp add: joined_def op_text_def)
  with unknown_writer_hangs [OF s(1) a, of 9 "\<lambda>_. True" "{}" "Exited 0"] s(2) show ?thesis by simp
qed

end
