(* ===== verification/Trie_Model.thy ===== *)
theory Trie_Model imports Prelude Scan "HOL-Library.List_Lexorder" begin

text \<open>
  The dictionary of the hint server (p7/Trie.h, p7/Trie.cpp): a trie over the 26 letters. Nodes
  are numbered in the order they are made, the head is number 0; a pointer is a number or
  NULL. Upper and lower case letters share an edge, and a node keeps the letter it was made
  with.
\<close>

section \<open>Data\<close>

definition NUM_LATIN_LETTERS :: nat where "NUM_LATIN_LETTERS = 26"
definition NUM_WORDS :: nat where "NUM_WORDS = 10"

datatype trie_error = NoPrefix | NotAllowedSymbol char

record tnode =
  p_next :: "nat option list"
  is_final :: bool
  t_char :: char

type_synonym trie = "tnode list"

section \<open>Operations\<close>

definition get_char_index :: "char \<Rightarrow> trie_error + nat" where
  "get_char_index c =
     (if (97::nat) \<le> of_char c \<and> of_char c \<le> (122::nat) then Inr (of_char c - 97)
      else if (65::nat) \<le> of_char c \<and> of_char c \<le> (90::nat) then Inr (of_char c - 65)
      else Inl (NotAllowedSymbol c))"

definition new_tnode :: "char \<Rightarrow> tnode" where
  "new_tnode ch = \<lparr>p_next = replicate NUM_LATIN_LETTERS None, is_final = False, t_char = ch\<rparr>"

definition get_new_node :: "char \<Rightarrow> trie \<Rightarrow> nat \<times> trie" where
  "get_new_node ch t = (length t, t @ [new_tnode ch])"

definition empty_trie :: trie where
  "empty_trie = snd (get_new_node CHR 0x00 [])"

definition set_child :: "nat \<Rightarrow> nat \<Rightarrow> nat \<Rightarrow> trie \<Rightarrow> trie" where
  "set_child p i q t = t[p := (t ! p)\<lparr>p_next := (p_next (t ! p))[i := Some q]\<rparr>]"

text \<open>The loop of \<open>add_new_word\<close> from node \<open>p_node\<close> on. A letter that is not allowed leaves
  the nodes made before it.\<close>

fun add_loop :: "string \<Rightarrow> nat \<Rightarrow> trie \<Rightarrow> (trie_error, nat, trie) outcome" where
  "add_loop [] p_node t = (Inr p_node, t)"
| "add_loop (ch # w) p_node t = (case get_char_index ch of
      Inl e \<Rightarrow> (Inl e, t)
    | Inr i \<Rightarrow> (case p_next (t ! p_node) ! i of
        None \<Rightarrow> (let (q, t1) = get_new_node ch t in add_loop w q (set_child p_node i q t1))
      | Some q \<Rightarrow> add_loop w q t))"

definition add_new_word :: "string \<Rightarrow> trie \<Rightarrow> (trie_error, unit, trie) outcome" where
  "add_new_word word t = (case add_loop word 0 t of
      (Inl e, t1) \<Rightarrow> (Inl e, t1)
    | (Inr p_node, t1) \<Rightarrow> (Inr (), t1[p_node := (t1 ! p_node)\<lparr>is_final := True\<rparr>]))"

fun prefix_loop :: "string \<Rightarrow> nat \<Rightarrow> trie \<Rightarrow> trie_error + nat" where
  "prefix_loop [] p_node t = Inr p_node"
| "prefix_loop (ch # w) p_node t = (case get_char_index ch of
      Inl e \<Rightarrow> Inl e
    | Inr i \<Rightarrow> (case p_next (t ! p_node) ! i of
        Some q \<Rightarrow> prefix_loop w q t
      | None \<Rightarrow> Inl NoPrefix))"

definition get_node_prefix :: "string \<Rightarrow> trie \<Rightarrow> trie_error + nat" where
  "get_node_prefix prefix t = prefix_loop prefix 0 t"

text \<open>The traversal of \<open>get_words\<close> with its two stacks (the top is the head of the list). The
  children are pushed from the last letter to the first.\<close>

definition push_children :: "tnode \<Rightarrow> nat list \<times> bool list \<Rightarrow> nat list \<times> bool list" where
  "push_children n stacks = fold (\<lambda>i (nodes, is_visited).
     case p_next n ! (NUM_LATIN_LETTERS - 1 - i) of
       None \<Rightarrow> (nodes, is_visited)
     | Some q \<Rightarrow> (q # nodes, False # is_visited)) [0..<NUM_LATIN_LETTERS] stacks"

partial_function (option) words_loop ::
    "trie \<Rightarrow> nat list \<Rightarrow> bool list \<Rightarrow> string \<Rightarrow> string list \<Rightarrow> string list option" where
  "words_loop t nodes is_visited word words =
     (if nodes = [] then Some words
      else (let vis = hd is_visited;
                p_node = hd nodes;
                word1 = (if \<not> vis then word @ [t_char (t ! p_node)] else word);
                is_visited1 = True # tl is_visited
            in if \<not> vis then
                 (let words1 = (if is_final (t ! p_node) then words @ [word1] else words)
                  in if is_final (t ! p_node) \<and> length words1 = NUM_WORDS then Some words1
                     else (case push_children (t ! p_node) (nodes, is_visited1) of
                         (nodes2, is_visited2) \<Rightarrow>
                           if p_node = hd nodes2
                           then words_loop t (tl nodes2) (tl is_visited2) (butlast word1) words1
                           else words_loop t nodes2 is_visited2 word1 words1))
               else words_loop t (tl nodes) (tl is_visited1) (butlast word1) words))"

text \<open>An empty prefix has no last character to take off (\<open>pop_back\<close> of an empty string is
  undefined): that is None, like a traversal that does not end.\<close>

definition get_words :: "string \<Rightarrow> trie \<Rightarrow> (trie_error + string list) option" where
  "get_words prefix t =
     (if prefix = [] then None
      else (case get_node_prefix prefix t of
          Inl e \<Rightarrow> Some (Inl e)
        | Inr p_node \<Rightarrow> map_option Inr (words_loop t [p_node] [False] (butlast prefix) [])))"

text \<open>
  The constructor: \<open>fgets\<close> with a buffer of 64 bytes yields up to 63 characters through the
  first newline; the last one is cut off, whatever it is, and the rest is added. An exception
  leaves the constructor. The file has no NUL characters.
\<close>

lemma fgets_63: "(buffer, rest) = fgets 63 s \<Longrightarrow> s \<noteq> [] \<Longrightarrow> length rest < length s"
  using fgets_shorter [of s 62] by (metis Suc_numeral semiring_norm(5) snd_conv add_num_simps(5) add_num_simps(1))

function load_loop :: "string \<Rightarrow> trie \<Rightarrow> (trie_error, unit, trie) outcome" where
  "load_loop content t =
     (if content = [] then (Inr (), t)
      else (case fgets 63 content of (buffer, rest) \<Rightarrow>
        (case add_new_word (butlast buffer) t of
           (Inl e, t1) \<Rightarrow> (Inl e, t1)
         | (Inr _, t1) \<Rightarrow> load_loop rest t1)))"
  by pat_completeness auto
termination
  by (relation "measure (\<lambda>(content, t). length content)") (auto dest: fgets_63)

declare load_loop.simps [simp del]

end
