(* ===== verification/Trie_Inv.thy ===== *)
theory Trie_Inv imports Trie_Model "HOL-Library.Sublist" begin

text \<open>
  The trie as a set of words: paths from the head, the invariant (every node is reached by one
  path, its letter fits the edge that leads to it), and what adding a word does.
\<close>

section \<open>Letters\<close>

definition letter :: "char \<Rightarrow> bool" where
  "letter ch \<longleftrightarrow> (case get_char_index ch of Inl _ \<Rightarrow> False | Inr _ \<Rightarrow> True)"

definition idx :: "char \<Rightarrow> nat" where
  "idx ch = (case get_char_index ch of Inl _ \<Rightarrow> 0 | Inr i \<Rightarrow> i)"

abbreviation letters :: "string \<Rightarrow> bool" where
  "letters w \<equiv> \<forall>ch\<in>set w. letter ch"

text \<open>A word without the distinction of upper and lower case: the numbers of its letters.\<close>

definition key :: "string \<Rightarrow> nat list" where
  "key w = map idx w"

definition idxs :: "nat list \<Rightarrow> bool" where
  "idxs u \<longleftrightarrow> (\<forall>i\<in>set u. i < NUM_LATIN_LETTERS)"

lemma key_simps [simp]: "key [] = []" "key (ch # w) = idx ch # key w" "key (v @ w) = key v @ key w"
  by (simp_all add: key_def)

lemma idxs_simps [simp]: "idxs []" "idxs (i # u) \<longleftrightarrow> i < NUM_LATIN_LETTERS \<and> idxs u" "idxs (u @ v) \<longleftrightarrow> idxs u \<and> idxs v"
  by (auto simp: idxs_def)

lemma char_index_letter: "letter ch \<Longrightarrow> get_char_index ch = Inr (idx ch)"
  by (auto simp: letter_def idx_def split: sum.splits)

lemma char_index_bad: "\<not> letter ch \<Longrightarrow> get_char_index ch = Inl (NotAllowedSymbol ch)"
  by (auto simp: letter_def get_char_index_def split: if_splits)

lemma idx_less: "letter ch \<Longrightarrow> idx ch < NUM_LATIN_LETTERS"
  by (auto simp: letter_def idx_def get_char_index_def NUM_LATIN_LETTERS_def split: if_splits)

lemma idxs_key: "letters w \<Longrightarrow> idxs (key w)"
  by (induction w) (auto simp: idx_less)

lemma char_index_Inr: "get_char_index ch = Inr i \<Longrightarrow> letter ch \<and> idx ch = i"
  by (simp add: letter_def idx_def)

section \<open>Paths\<close>

fun walk :: "trie \<Rightarrow> nat \<Rightarrow> nat list \<Rightarrow> nat option" where
  "walk t p [] = Some p"
| "walk t p (i # u) = (case p_next (t ! p) ! i of None \<Rightarrow> None | Some q \<Rightarrow> walk t q u)"

lemma walk_append: "walk t p (u @ v) = (case walk t p u of None \<Rightarrow> None | Some q \<Rightarrow> walk t q v)"
  by (induction u arbitrary: p) (auto split: option.split)

definition node_ok :: "trie \<Rightarrow> nat \<Rightarrow> bool" where
  "node_ok t p \<longleftrightarrow> length (p_next (t ! p)) = NUM_LATIN_LETTERS
     \<and> (\<forall>i<NUM_LATIN_LETTERS. \<forall>q. p_next (t ! p) ! i = Some q \<longrightarrow>
          p < q \<and> q < length t \<and> get_char_index (t_char (t ! q)) = Inr i)"

definition trie_inv :: "trie \<Rightarrow> bool" where
  "trie_inv t \<longleftrightarrow> t \<noteq> [] \<and> (\<forall>p<length t. node_ok t p)
     \<and> (\<forall>u v q. idxs u \<longrightarrow> idxs v \<longrightarrow> walk t 0 u = Some q \<longrightarrow> walk t 0 v = Some q \<longrightarrow> u = v)"

definition accepts :: "trie \<Rightarrow> nat list set" where
  "accepts t = {u. idxs u \<and> (\<exists>q. walk t 0 u = Some q \<and> is_final (t ! q))}"

lemma trie_inv_child:
  assumes "trie_inv t" "p < length t" "i < NUM_LATIN_LETTERS" "p_next (t ! p) ! i = Some q"
  shows "p < q" "q < length t" "get_char_index (t_char (t ! q)) = Inr i"
  using assms unfolding trie_inv_def node_ok_def by blast+

lemma trie_inv_len: "trie_inv t \<Longrightarrow> p < length t \<Longrightarrow> length (p_next (t ! p)) = NUM_LATIN_LETTERS"
  unfolding trie_inv_def node_ok_def by blast

lemma trie_inv_unique: "trie_inv t \<Longrightarrow> idxs u \<Longrightarrow> idxs v \<Longrightarrow> walk t 0 u = Some q \<Longrightarrow> walk t 0 v = Some q \<Longrightarrow> u = v"
  unfolding trie_inv_def by blast

lemma walk_range: "trie_inv t \<Longrightarrow> p < length t \<Longrightarrow> idxs u \<Longrightarrow> walk t p u = Some q \<Longrightarrow> q < length t"
  by (induction u arbitrary: p) (auto split: option.splits dest: trie_inv_child)

lemma trie_inv_head: "trie_inv t \<Longrightarrow> 0 < length t"
  by (simp add: trie_inv_def)

lemma empty_trie_inv: "trie_inv empty_trie \<and> accepts empty_trie = {}"
proof -
  have w: "idxs u \<Longrightarrow> walk empty_trie 0 u = Some q \<Longrightarrow> u = [] \<and> q = 0" for u q
    by (cases u) (auto simp: empty_trie_def get_new_node_def new_tnode_def idxs_def)
  then have "trie_inv empty_trie"
    unfolding trie_inv_def by (auto simp: node_ok_def empty_trie_def get_new_node_def new_tnode_def)
  moreover have "\<not> is_final (empty_trie ! 0)"
    by (simp add: empty_trie_def get_new_node_def new_tnode_def)
  then have "accepts empty_trie = {}" unfolding accepts_def using w by blast
  ultimately show ?thesis ..
qed

section \<open>Adding a word\<close>

definition grow :: "nat \<Rightarrow> nat \<Rightarrow> char \<Rightarrow> trie \<Rightarrow> trie" where
  "grow p i ch t = set_child p i (length t) (t @ [new_tnode ch])"

lemma grow_nth:
  assumes "p < length t" "i < NUM_LATIN_LETTERS" "length (p_next (t ! p)) = NUM_LATIN_LETTERS"
  shows "length (grow p i ch t) = Suc (length t)" "grow p i ch t ! length t = new_tnode ch"
    and "q < length t \<Longrightarrow> is_final (grow p i ch t ! q) = is_final (t ! q)"
    and "q < length t \<Longrightarrow> t_char (grow p i ch t ! q) = t_char (t ! q)"
    and "q < length t \<Longrightarrow> length (p_next (grow p i ch t ! q)) = length (p_next (t ! q))"
    and "q < length t \<Longrightarrow> p_next (grow p i ch t ! q) ! j
      = (if q = p \<and> j = i then Some (length t) else p_next (t ! q) ! j)"
  using assms by (auto simp: grow_def set_child_def nth_append nth_list_update)

lemma grow_inv:
  assumes inv: "trie_inv t" and u: "idxs u" "walk t 0 u = Some p" and i: "i < NUM_LATIN_LETTERS"
    and none: "p_next (t ! p) ! i = None" and ch: "get_char_index ch = Inr i"
  shows "trie_inv (grow p i ch t)" "walk (grow p i ch t) 0 (u @ [i]) = Some (length t)"
    and "accepts (grow p i ch t) = accepts t"
    and "idxs v \<Longrightarrow> walk (grow p i ch t) 0 v \<noteq> None \<longleftrightarrow> walk t 0 v \<noteq> None \<or> v = u @ [i]"
    and "idxs v \<Longrightarrow> walk t 0 v = Some r \<Longrightarrow> walk (grow p i ch t) 0 v = Some r"
proof -
  let ?t = "grow p i ch t" and ?n = "length t"
  have p: "p < ?n" by (rule walk_range [OF inv trie_inv_head [OF inv] u])
  note g = grow_nth [OF p i trie_inv_len [OF inv p], where ch = ch]
  have edge: "p_next (t ! q) ! j = Some r \<Longrightarrow> q < ?n \<Longrightarrow> p_next (?t ! q) ! j = Some r" for q j r
    using g(6) none by auto
  have up: "walk t q v = Some r \<Longrightarrow> q < ?n \<Longrightarrow> idxs v \<Longrightarrow> walk ?t q v = Some r" for q v r
  proof (induction v arbitrary: q)
    case (Cons j v)
    then obtain q' where q': "p_next (t ! q) ! j = Some q'" "walk t q' v = Some r" by (auto split: option.splits)
    with Cons trie_inv_child(2) [OF inv, of q j q'] edge show ?case by simp
  qed simp
  have down: "walk ?t 0 v = Some q \<Longrightarrow> idxs v \<Longrightarrow> walk t 0 v = Some q \<and> q < ?n \<or> v = u @ [i] \<and> q = ?n" for v q
  proof (induction v arbitrary: q rule: rev_induct)
    case Nil
    then show ?case using trie_inv_head [OF inv] by simp
  next
    case (snoc j v)
    then obtain r where r: "walk ?t 0 v = Some r" "p_next (?t ! r) ! j = Some q" and j: "j < NUM_LATIN_LETTERS" "idxs v"
      by (auto simp: walk_append split: option.splits)
    from snoc.IH [OF r(1) j(2)] show ?case
    proof
      assume a: "walk t 0 v = Some r \<and> r < ?n"
      show ?thesis
      proof (cases "r = p \<and> j = i")
        case True
        then have "v = u" using a trie_inv_unique [OF inv j(2) u(1)] u(2) by blast
        with True r a g(6) show ?thesis by auto
      next
        case False
        then have "p_next (t ! r) ! j = Some q" using r(2) a g(6) by auto
        with a trie_inv_child(2) [OF inv _ j(1) this] show ?thesis by (simp add: walk_append)
      qed
    next
      assume "v = u @ [i] \<and> r = ?n"
      then have "p_next (?t ! r) ! j = None" using g(2) j(1) by (simp add: new_tnode_def)
      with r(2) show ?thesis by simp
    qed
  qed
  show w: "walk ?t 0 (u @ [i]) = Some ?n"
    using up [OF u(2) trie_inv_head [OF inv] u(1)] p g(6) by (simp add: walk_append)
  show "idxs v \<Longrightarrow> walk t 0 v = Some r \<Longrightarrow> walk ?t 0 v = Some r"
    using up trie_inv_head [OF inv] by blast
  show "walk ?t 0 v \<noteq> None \<longleftrightarrow> walk t 0 v \<noteq> None \<or> v = u @ [i]" if "idxs v"
    using down [OF _ that] up [OF _ trie_inv_head [OF inv] that] w by blast
  show "trie_inv ?t"
  proof -
    have "node_ok ?t q" if "q < Suc ?n" for q
    proof (cases "q = ?n")
      case True
      then show ?thesis using g(2) by (simp add: node_ok_def new_tnode_def)
    next
      case False
      then have q: "q < ?n" using that by simp
      have "node_ok t q" using inv q by (simp add: trie_inv_def)
      then show ?thesis using q g ch p by (auto simp: node_ok_def new_tnode_def)
    qed
    moreover have "v = v'" if "idxs v" "idxs v'" "walk ?t 0 v = Some q" "walk ?t 0 v' = Some q" for v v' q
      using down [OF that(3,1)] down [OF that(4,2)] trie_inv_unique [OF inv that(1,2)] by auto
    moreover have "?t \<noteq> []" using g(1) by auto
    ultimately show ?thesis unfolding trie_inv_def using g(1) by (simp only:) blast
  qed
  show "accepts ?t = accepts t"
  proof (intro set_eqI iffI)
    fix v assume "v \<in> accepts ?t"
    then obtain q where q: "idxs v" "walk ?t 0 v = Some q" "is_final (?t ! q)" by (auto simp: accepts_def)
    from down [OF q(2,1)] q(3) g(2) have "walk t 0 v = Some q \<and> q < ?n" by (auto simp: new_tnode_def)
    with q g(3) show "v \<in> accepts t" by (auto simp: accepts_def)
  next
    fix v assume "v \<in> accepts t"
    then obtain q where q: "idxs v" "walk t 0 v = Some q" "is_final (t ! q)" by (auto simp: accepts_def)
    with up [OF q(2) trie_inv_head [OF inv] q(1)] walk_range [OF inv trie_inv_head [OF inv] q(1,2)] g(3)
    show "v \<in> accepts ?t" by (auto simp: accepts_def)
  qed
qed

lemma add_loop_letters:
  assumes "trie_inv t" "idxs u" "walk t 0 u = Some p" "letters w"
  shows "\<exists>q t'. add_loop w p t = (Inr q, t') \<and> trie_inv t' \<and> walk t' 0 (u @ key w) = Some q \<and> accepts t' = accepts t
    \<and> (\<forall>v. idxs v \<longrightarrow> walk t' 0 v \<noteq> None \<longrightarrow> walk t 0 v \<noteq> None \<or> prefix v (u @ key w))"
  using assms
proof (induction w arbitrary: u p t)
  case (Cons ch w)
  then have ch: "letter ch" and i: "get_char_index ch = Inr (idx ch)" "idx ch < NUM_LATIN_LETTERS"
    using char_index_letter idx_less by auto
  show ?case
  proof (cases "p_next (t ! p) ! idx ch")
    case None
    note g = grow_inv [OF Cons.prems(1-3) i(2) None i(1)]
    have "idxs (u @ [idx ch])" using Cons.prems(2) i(2) by simp
    from Cons.IH [OF g(1) this g(2)] Cons.prems(4) obtain q t' where IH:
      "add_loop w (length t) (grow p (idx ch) ch t) = (Inr q, t')" "trie_inv t'"
      "walk t' 0 (u @ key (ch # w)) = Some q" "accepts t' = accepts t"
      "\<And>v. idxs v \<Longrightarrow> walk t' 0 v \<noteq> None \<Longrightarrow> walk (grow p (idx ch) ch t) 0 v \<noteq> None \<or> prefix v (u @ key (ch # w))"
      using g(3) by auto
    have "walk t 0 v \<noteq> None \<or> prefix v (u @ key (ch # w))" if "idxs v" "walk t' 0 v \<noteq> None" for v
      using IH(5) [OF that] g(4) [OF that(1)] by auto
    with IH None i(1) show ?thesis
      by (auto simp: get_new_node_def grow_def)
  next
    case (Some q)
    then have "walk t 0 (u @ [idx ch]) = Some q" using Cons.prems(3) by (simp add: walk_append)
    with Cons.IH [of t "u @ [idx ch]" q] Cons.prems i Some show ?thesis by auto
  qed
qed auto

lemma add_loop_bad:
  assumes "trie_inv t" "idxs u" "walk t 0 u = Some p" "letters v" "\<not> letter ch"
  shows "\<exists>t'. add_loop (v @ ch # w) p t = (Inl (NotAllowedSymbol ch), t') \<and> trie_inv t' \<and> accepts t' = accepts t"
proof -
  have "add_loop (v @ ch # w) p t = (case add_loop v p t of (Inl e, t1) \<Rightarrow> (Inl e, t1) | (Inr q, t1) \<Rightarrow> add_loop (ch # w) q t1)"
    by (induction v p t rule: add_loop.induct) (auto split: sum.split option.split simp: get_new_node_def)
  with add_loop_letters [OF assms(1-4)] assms(5) show ?thesis by (auto simp: char_index_bad)
qed

lemma final_inv:
  assumes inv: "trie_inv t" and u: "idxs u" "walk t 0 u = Some q"
  shows "trie_inv (t[q := (t ! q)\<lparr>is_final := True\<rparr>])" (is "trie_inv ?t")
    and "accepts (t[q := (t ! q)\<lparr>is_final := True\<rparr>]) = insert u (accepts t)"
    and "walk (t[q := (t ! q)\<lparr>is_final := True\<rparr>]) r v = walk t r v"
proof -
  have q: "q < length t" by (rule walk_range [OF inv trie_inv_head [OF inv] u])
  have f: "p_next (?t ! r) = p_next (t ! r)" "t_char (?t ! r) = t_char (t ! r)"
    "is_final (?t ! r) = (is_final (t ! r) \<or> r = q)" for r
    using q by (cases "r = q"; simp)+
  have w: "walk ?t r v = walk t r v" for r v
    by (induction v arbitrary: r) (auto simp: f split: option.split)
  show "walk ?t r v = walk t r v" by (rule w)
  have no: "node_ok ?t r = node_ok t r" for r by (simp add: node_ok_def f)
  show "trie_inv ?t"
    using inv unfolding trie_inv_def no w length_list_update list_update_nonempty .
  have "v \<in> accepts ?t \<longleftrightarrow> v = u \<or> v \<in> accepts t" for v
  proof -
    have "v \<in> accepts ?t \<longleftrightarrow> idxs v \<and> (\<exists>r. walk t 0 v = Some r \<and> (is_final (t ! r) \<or> r = q))"
      unfolding accepts_def w f by simp
    also have "\<dots> \<longleftrightarrow> v \<in> accepts t \<or> idxs v \<and> walk t 0 v = Some q"
      unfolding accepts_def by blast
    also have "idxs v \<and> walk t 0 v = Some q \<longleftrightarrow> v = u"
      using trie_inv_unique [OF inv _ u(1) _ u(2), of v] u by blast
    finally show ?thesis by blast
  qed
  then show "accepts ?t = insert u (accepts t)" by blast
qed

text \<open>No dead ends: every path from the head is the beginning of a word.\<close>

definition alive :: "trie \<Rightarrow> bool" where
  "alive t \<longleftrightarrow> (\<forall>v. v \<noteq> [] \<longrightarrow> idxs v \<longrightarrow> walk t 0 v \<noteq> None \<longrightarrow> (\<exists>u\<in>accepts t. prefix v u))"

lemma alive_empty: "alive empty_trie"
proof -
  have "walk empty_trie 0 v = None" if "v \<noteq> []" "idxs v" for v
    using that by (cases v) (auto simp: empty_trie_def get_new_node_def new_tnode_def idxs_def)
  then show ?thesis by (auto simp: alive_def)
qed

lemma alive_walk:
  assumes "alive t" "idxs v" "v \<noteq> []"
  shows "walk t 0 v = None \<longleftrightarrow> {u \<in> accepts t. prefix v u} = {}"
proof -
  have "walk t 0 v \<noteq> None" if "u \<in> accepts t" "prefix v u" for u
    using that by (auto simp: accepts_def prefix_def walk_append split: option.splits)
  with assms show ?thesis unfolding alive_def by blast
qed

lemma add_new_word_letters:
  assumes "trie_inv t" "letters w"
  shows "\<exists>t'. add_new_word w t = (Inr (), t') \<and> trie_inv t' \<and> accepts t' = insert (key w) (accepts t)
    \<and> (alive t \<longrightarrow> alive t')"
proof -
  obtain q t' where a: "add_loop w 0 t = (Inr q, t')" "trie_inv t'" "walk t' 0 (key w) = Some q" "accepts t' = accepts t"
    "\<And>v. idxs v \<Longrightarrow> walk t' 0 v \<noteq> None \<Longrightarrow> walk t 0 v \<noteq> None \<or> prefix v (key w)"
    using add_loop_letters [of t "[]" 0 w] assms by auto
  note f = final_inv [OF a(2) idxs_key [OF assms(2)] a(3)]
  have "alive (t'[q := (t' ! q)\<lparr>is_final := True\<rparr>])" if "alive t"
    using that a(4,5) f(2,3) unfolding alive_def by (metis insertCI)
  with f a show ?thesis by (simp add: add_new_word_def)
qed

lemma add_new_word_bad:
  assumes "trie_inv t" "letters v" "\<not> letter ch"
  shows "\<exists>t'. add_new_word (v @ ch # w) t = (Inl (NotAllowedSymbol ch), t') \<and> trie_inv t' \<and> accepts t' = accepts t"
  using add_loop_bad [of t "[]" 0 v ch w] assms by (auto simp: add_new_word_def)

section \<open>Following a prefix\<close>

lemma prefix_loop_letters:
  "letters w \<Longrightarrow> prefix_loop w p t = (case walk t p (key w) of None \<Rightarrow> Inl NoPrefix | Some q \<Rightarrow> Inr q)"
  by (induction w arbitrary: p) (auto simp: char_index_letter split: option.split)

lemma prefix_loop_bad:
  "letters v \<Longrightarrow> \<not> letter ch \<Longrightarrow> prefix_loop (v @ ch # w) p t
     = (case walk t p (key v) of None \<Rightarrow> Inl NoPrefix | Some q \<Rightarrow> Inl (NotAllowedSymbol ch))"
  by (induction v arbitrary: p) (auto simp: char_index_letter char_index_bad split: option.split)

end
