(* ===== verification/Trie_Words.thy ===== *)
theory Trie_Words imports Trie_Inv begin

text \<open>
  The traversal of \<open>get_words\<close>: the loop with the two stacks yields the first ten words of the
  recursive preorder, and the preorder lists the words below a node in alphabetical order.
\<close>

section \<open>The preorder\<close>

function words_of :: "trie \<Rightarrow> nat \<Rightarrow> string \<Rightarrow> string list" where
  "words_of t p w =
     (if p < length t
      then (if is_final (t ! p) then [w @ [t_char (t ! p)]] else [])
        @ concat (map (\<lambda>i. case p_next (t ! p) ! i of None \<Rightarrow> []
            | Some q \<Rightarrow> if p < q then words_of t q (w @ [t_char (t ! p)]) else []) [0..<NUM_LATIN_LETTERS])
      else [])"
  by pat_completeness auto
termination
  by (relation "measure (\<lambda>(t, p, w). length t - p)") auto

declare words_of.simps [simp del]

definition children :: "tnode \<Rightarrow> nat list" where
  "children n = concat (map (\<lambda>i. case p_next n ! i of None \<Rightarrow> [] | Some q \<Rightarrow> [q]) [0..<NUM_LATIN_LETTERS])"

lemma children_iff: "q \<in> set (children n) \<longleftrightarrow> (\<exists>i<NUM_LATIN_LETTERS. p_next n ! i = Some q)"
  by (force simp: children_def split: option.splits)

lemma children_child:
  "trie_inv t \<Longrightarrow> p < length t \<Longrightarrow> q \<in> set (children (t ! p)) \<Longrightarrow> p < q \<and> q < length t"
  unfolding children_iff using trie_inv_child(1,2) by blast

lemma words_of_children:
  assumes "trie_inv t" "p < length t"
  shows "words_of t p w = (if is_final (t ! p) then [w @ [t_char (t ! p)]] else [])
     @ concat (map (\<lambda>q. words_of t q (w @ [t_char (t ! p)])) (children (t ! p)))"
proof -
  have "concat (map (\<lambda>i. case p_next (t ! p) ! i of None \<Rightarrow> []
            | Some q \<Rightarrow> if p < q then words_of t q v else []) is)
      = concat (map (\<lambda>q. words_of t q v) (concat (map (\<lambda>i. case p_next (t ! p) ! i of None \<Rightarrow> [] | Some q \<Rightarrow> [q]) is)))"
    if "\<forall>i\<in>set is. i < NUM_LATIN_LETTERS" for v "is"
    using that by (induction "is") (auto split: option.split dest: trie_inv_child [OF assms])
  from this [of "[0..<NUM_LATIN_LETTERS]"] show ?thesis
    using assms(2) by (subst words_of.simps) (simp add: children_def)
qed

lemma words_of_letters:
  assumes "trie_inv t" "p < length t" "letters w" "letter (t_char (t ! p))"
  shows "\<forall>x\<in>set (words_of t p w). letters x"
  using assms(2-)
proof (induction "length t - p" arbitrary: p w rule: less_induct)
  case less
  have "\<forall>x\<in>set (words_of t q (w @ [t_char (t ! p)])). letters x" if "q \<in> set (children (t ! p))" for q
  proof -
    from that obtain i where "i < NUM_LATIN_LETTERS" "p_next (t ! p) ! i = Some q" unfolding children_iff by blast
    note q = trie_inv_child [OF assms(1) less.prems(1) this]
    have l: "letters (w @ [t_char (t ! p)])" using less.prems by auto
    show ?thesis
      by (rule less.hyps [OF _ q(2) l char_index_Inr [OF q(3), THEN conjunct1]]) (use q less.prems in auto)
  qed
  with less.prems show ?case
    by (auto simp: words_of_children [OF assms(1) less.prems(1)] split: if_splits)
qed

section \<open>The loop with two stacks\<close>

lemma push_children_from:
  assumes "m \<le> NUM_LATIN_LETTERS"
  shows "fold (\<lambda>i (nodes, is_visited). case p_next n ! (NUM_LATIN_LETTERS - 1 - i) of
       None \<Rightarrow> (nodes, is_visited) | Some q \<Rightarrow> (q # nodes, False # is_visited)) [0..<m] (ns, vs)
    = (let cs = concat (map (\<lambda>i. case p_next n ! i of None \<Rightarrow> [] | Some q \<Rightarrow> [q]) [NUM_LATIN_LETTERS - m..<NUM_LATIN_LETTERS])
       in (cs @ ns, replicate (length cs) False @ vs))"
  using assms
proof (induction m)
  case (Suc m)
  then have "[NUM_LATIN_LETTERS - Suc m..<NUM_LATIN_LETTERS]
      = (NUM_LATIN_LETTERS - 1 - m) # [NUM_LATIN_LETTERS - m..<NUM_LATIN_LETTERS]"
    by (simp add: upt_conv_Cons Suc_diff_Suc)
  with Suc show ?case by (auto simp: Let_def split: option.split)
qed simp

lemma push_children_eq:
  "push_children n (ns, vs) = (children n @ ns, replicate (length (children n)) False @ vs)"
  using push_children_from [of NUM_LATIN_LETTERS n ns vs]
  by (simp add: push_children_def children_def Let_def)

definition loop_ok :: "trie \<Rightarrow> nat \<Rightarrow> bool" where
  "loop_ok t p \<longleftrightarrow> (\<forall>ns vs w out. length out < NUM_WORDS \<longrightarrow>
     words_loop t (p # ns) (False # vs) w out =
       (if NUM_WORDS \<le> length (out @ words_of t p w) then Some (take NUM_WORDS (out @ words_of t p w))
        else words_loop t ns vs w (out @ words_of t p w)))"

lemma loop_children:
  assumes "\<forall>q\<in>set qs. loop_ok t q" "length out < NUM_WORDS"
  shows "words_loop t (qs @ ns) (replicate (length qs) False @ vs) w out =
    (let all = out @ concat (map (\<lambda>q. words_of t q w) qs)
     in if NUM_WORDS \<le> length all then Some (take NUM_WORDS all) else words_loop t ns vs w all)"
  using assms
proof (induction qs arbitrary: out)
  case (Cons q qs)
  let ?out = "out @ words_of t q w"
  have q: "words_loop t (q # qs @ ns) (False # replicate (length qs) False @ vs) w out =
      (if NUM_WORDS \<le> length ?out then Some (take NUM_WORDS ?out)
       else words_loop t (qs @ ns) (replicate (length qs) False @ vs) w ?out)"
    using Cons.prems unfolding loop_ok_def by (metis list.set_intros(1))
  show ?case
  proof (cases "NUM_WORDS \<le> length ?out")
    case True
    with q show ?thesis by (simp add: Let_def)
  next
    case False
    with q Cons.IH [of ?out] Cons.prems show ?thesis by (simp add: Let_def)
  qed
qed simp

lemma words_loop_node:
  assumes inv: "trie_inv t" and p: "p < length t"
  shows "loop_ok t p"
  using p
proof (induction "length t - p" arbitrary: p rule: less_induct)
  case less
  let ?n = "t ! p"
  let ?cs = "children ?n"
  have kids: "\<forall>q\<in>set ?cs. loop_ok t q"
    using less children_child [OF inv less.prems] by (auto simp: diff_less_mono2)
  have hd: "p \<noteq> hd (?cs @ p # ns) \<longleftrightarrow> ?cs \<noteq> []" for ns
    using children_child [OF inv less.prems] by (cases ?cs) auto
  show ?case unfolding loop_ok_def
  proof (intro allI impI)
    fix ns vs w out assume out: "length (out :: string list) < NUM_WORDS"
    let ?w = "w @ [t_char ?n]" and ?out = "out @ (if is_final ?n then [w @ [t_char ?n]] else [])"
    let ?all = "?out @ concat (map (\<lambda>q. words_of t q (w @ [t_char ?n])) ?cs)"
    have all: "out @ words_of t p w = ?all"
      by (simp add: words_of_children [OF inv less.prems])
    show "words_loop t (p # ns) (False # vs) w out =
       (if NUM_WORDS \<le> length (out @ words_of t p w) then Some (take NUM_WORDS (out @ words_of t p w))
        else words_loop t ns vs w (out @ words_of t p w))"
    proof (cases "is_final ?n \<and> length ?out = NUM_WORDS")
      case True
      then have f: "is_final ?n" and n: "NUM_WORDS = Suc (length out)" by (auto split: if_splits)
      have "words_loop t (p # ns) (False # vs) w out = Some (out @ [?w])"
        by (subst words_loop.simps) (simp add: Let_def f n)
      then show ?thesis unfolding all by (simp add: f n)
    next
      case False
      then have out': "length ?out < NUM_WORDS" using out by (auto split: if_splits)
      have "words_loop t (p # ns) (False # vs) w out =
          (if ?cs = [] then words_loop t ns vs w ?out
           else words_loop t (?cs @ p # ns) (replicate (length ?cs) False @ True # vs) ?w ?out)"
        using False hd [of ns] by (subst words_loop.simps) (auto simp: Let_def push_children_eq)
      also have "\<dots> = (if NUM_WORDS \<le> length ?all then Some (take NUM_WORDS ?all) else words_loop t ns vs w ?all)"
      proof (cases "?cs = []")
        case True
        with out' show ?thesis by simp
      next
        case False
        have "words_loop t (p # ns) (True # vs) ?w ?all = words_loop t ns vs w ?all"
          by (subst words_loop.simps) (simp add: Let_def)
        with False loop_children [OF kids out', of "p # ns" "True # vs" ?w] show ?thesis
          by (simp add: Let_def)
      qed
      finally show ?thesis unfolding all .
    qed
  qed
qed

lemma words_loop_take:
  assumes "trie_inv t" "p < length t"
  shows "words_loop t [p] [False] w [] = Some (take NUM_WORDS (words_of t p w))"
proof -
  have "words_loop t [] [] w out = Some out" for out by (simp add: words_loop.simps)
  with words_loop_node [OF assms] show ?thesis
    unfolding loop_ok_def by (auto simp: NUM_WORDS_def)
qed

section \<open>Alphabetical order\<close>

lemma prefix_less: "ps @ xs < ps @ ys \<longleftrightarrow> xs < (ys :: nat list)"
  by (induction ps) auto

lemma sorted_concat:
  assumes "\<And>i. i < n \<Longrightarrow> sorted_wrt (<) (f i)"
    and "\<And>i j x y. i < j \<Longrightarrow> j < n \<Longrightarrow> x \<in> set (f i) \<Longrightarrow> y \<in> set (f j) \<Longrightarrow> x < (y :: nat list)"
  shows "sorted_wrt (<) (concat (map f [0..<n]))"
  using assms
proof (induction n)
  case (Suc n)
  then have "sorted_wrt (<) (concat (map f [0..<n]))" by (simp add: less_SucI)
  moreover have "sorted_wrt (<) (f n)" using Suc.prems(1) by simp
  moreover have "x < y" if "x \<in> set (concat (map f [0..<n]))" "y \<in> set (f n)" for x y
    using that Suc.prems(2) [of _ n] by auto
  ultimately show ?case by (simp add: sorted_wrt_append)
qed simp

lemma set_map_concat: "set (map g (concat (map f [0..<n]))) = (\<Union>i<n. set (map g (f i)))"
  by (auto simp: atLeast0LessThan)

lemma union_blocks:
  assumes "\<And>i. i < n \<Longrightarrow> A i = {g i u |u. P i u}"
  shows "(\<Union>i<(n :: nat). A i) = {g i u |i u. i < n \<and> P i u}"
  using assms by fastforce

definition below :: "trie \<Rightarrow> nat \<Rightarrow> nat list set" where
  "below t p = {u. idxs u \<and> (\<exists>q. walk t p u = Some q \<and> is_final (t ! q))}"

lemma words_of_below:
  assumes inv: "trie_inv t" and p: "p < length t"
  shows "sorted_wrt (<) (map key (words_of t p w))
    \<and> set (map key (words_of t p w)) = (\<lambda>u. key w @ idx (t_char (t ! p)) # u) ` below t p"
  using p
proof (induction "length t - p" arbitrary: p w rule: less_induct)
  case less
  let ?w = "w @ [t_char (t ! p)]"
  let ?f = "\<lambda>i. case p_next (t ! p) ! i of None \<Rightarrow> [] | Some q \<Rightarrow> if p < q then words_of t q ?w else []"
  let ?fin = "if is_final (t ! p) then [?w] else []"
  have W: "words_of t p w = ?fin @ concat (map ?f [0..<NUM_LATIN_LETTERS])"
    using less.prems by (subst words_of.simps) simp
  have block: "sorted_wrt (<) (map key (?f i))
      \<and> set (map key (?f i)) = {key ?w @ i # u |u. idxs u \<and> (\<exists>q r. p_next (t ! p) ! i = Some q \<and> walk t q u = Some r \<and> is_final (t ! r))}"
    if i: "i < NUM_LATIN_LETTERS" for i
  proof (cases "p_next (t ! p) ! i")
    case None
    then show ?thesis by simp
  next
    case (Some q)
    note q = trie_inv_child [OF inv less.prems i Some]
    have "idx (t_char (t ! q)) = i" using char_index_Inr [OF q(3)] by simp
    moreover have "length t - q < length t - p" using q less.prems by simp
    from less.hyps [OF this q(2), of ?w] have "sorted_wrt (<) (map key (words_of t q ?w))"
      "set (map key (words_of t q ?w)) = (\<lambda>u. key ?w @ idx (t_char (t ! q)) # u) ` below t q" by auto
    ultimately show ?thesis using Some q(1) by (auto simp: below_def)
  qed
  have blocks: "sorted_wrt (<) (map key (concat (map ?f [0..<NUM_LATIN_LETTERS])))"
  proof -
    have "sorted_wrt (<) (concat (map (\<lambda>i. map key (?f i)) [0..<NUM_LATIN_LETTERS]))"
    proof (rule sorted_concat)
      show "sorted_wrt (<) (map key (?f i))" if "i < NUM_LATIN_LETTERS" for i using block [OF that] by blast
      fix i j x y assume ij: "i < j" "j < NUM_LATIN_LETTERS" and xy: "x \<in> set (map key (?f i))" "y \<in> set (map key (?f j))"
      then obtain u v where "x = key ?w @ i # u" "y = key ?w @ j # v"
        using block [of i] block [of j] by (auto simp del: set_map)
      then show "x < y" using ij(1) by (simp only: prefix_less) simp
    qed
    then show ?thesis by (simp add: map_concat comp_def)
  qed
  have rest: "set (map key (concat (map ?f [0..<NUM_LATIN_LETTERS])))
      = {key ?w @ i # u |i u. i < NUM_LATIN_LETTERS \<and> idxs u \<and> (\<exists>q r. p_next (t ! p) ! i = Some q \<and> walk t q u = Some r \<and> is_final (t ! r))}"
    unfolding set_map_concat
    by (rule union_blocks, rule block [THEN conjunct2]) simp
  have "key ?w < y" if "y \<in> set (map key (concat (map ?f [0..<NUM_LATIN_LETTERS])))" for y
  proof -
    from that obtain i u where "y = key ?w @ i # u" unfolding rest by blast
    then show ?thesis using prefix_less [of "key ?w" "[]" "i # u"] by simp
  qed
  with blocks have "sorted_wrt (<) (map key (words_of t p w))"
    unfolding W map_append sorted_wrt_append by (cases "is_final (t ! p)") (simp_all del: set_map)
  moreover have "below t p = (if is_final (t ! p) then {[]} else {}) \<union>
      {i # u |i u. i < NUM_LATIN_LETTERS \<and> idxs u \<and> (\<exists>q r. p_next (t ! p) ! i = Some q \<and> walk t q u = Some r \<and> is_final (t ! r))}"
  proof (rule set_eqI)
    fix u
    show "u \<in> below t p \<longleftrightarrow> u \<in> (if is_final (t ! p) then {[]} else {}) \<union>
      {i # u |i u. i < NUM_LATIN_LETTERS \<and> idxs u \<and> (\<exists>q r. p_next (t ! p) ! i = Some q \<and> walk t q u = Some r \<and> is_final (t ! r))}"
      by (cases u) (auto simp: below_def split: option.splits)
  qed
  then have "set (map key (words_of t p w)) = (\<lambda>u. key w @ idx (t_char (t ! p)) # u) ` below t p"
    unfolding W map_append set_append rest by auto
  ultimately show ?case ..
qed

text \<open>The words below the node of a prefix are the words of the trie with that prefix.\<close>

lemma below_prefix:
  assumes "trie_inv t" "idxs v" "walk t 0 v = Some p"
  shows "(\<lambda>u. v @ u) ` below t p = {u \<in> accepts t. prefix v u}"
  using assms by (auto simp: below_def accepts_def walk_append prefix_def)

lemma get_words_take:
  assumes inv: "trie_inv t" and w: "letters w" "w \<noteq> []"
  shows "get_words w t = (case walk t 0 (key w) of None \<Rightarrow> Some (Inl NoPrefix)
     | Some p \<Rightarrow> Some (Inr (take NUM_WORDS (words_of t p (butlast w)))))"
proof (cases "walk t 0 (key w)")
  case None
  then show ?thesis using w(2) prefix_loop_letters [OF w(1), of 0 t] by (simp add: get_words_def get_node_prefix_def)
next
  case (Some p)
  have "p < length t" by (rule walk_range [OF inv trie_inv_head [OF inv] idxs_key [OF w(1)] Some])
  with words_loop_take [OF inv] Some show ?thesis
    using w(2) prefix_loop_letters [OF w(1), of 0 t] by (simp add: get_words_def get_node_prefix_def)
qed

text \<open>The node of a prefix was made for the last letter of it, in upper or lower case.\<close>

lemma walk_node:
  assumes inv: "trie_inv t" and w: "letters w" "w \<noteq> []" and p: "walk t 0 (key w) = Some p"
  shows "p < length t" "get_char_index (t_char (t ! p)) = Inr (idx (last w))"
proof -
  show "p < length t" by (rule walk_range [OF inv trie_inv_head [OF inv] idxs_key [OF w(1)] p])
  have "walk t 0 (key (butlast w) @ [idx (last w)]) = Some p"
    using p w(2) by (metis append_butlast_last_id key_simps(1,2,3))
  then obtain q where q: "walk t 0 (key (butlast w)) = Some q" "p_next (t ! q) ! idx (last w) = Some p"
    by (auto simp: walk_append split: option.splits)
  have l: "letter (last w)" "letters (butlast w)" using w by (auto dest: in_set_butlastD)
  have "q < length t" by (rule walk_range [OF inv trie_inv_head [OF inv] idxs_key [OF l(2)] q(1)])
  from trie_inv_child(3) [OF inv this idx_less [OF l(1)] q(2)]
  show "get_char_index (t_char (t ! p)) = Inr (idx (last w))" .
qed

lemma words_of_sorted:
  assumes inv: "trie_inv t" and w: "letters w" "w \<noteq> []" and p: "walk t 0 (key w) = Some p"
  shows "map key (words_of t p (butlast w)) = sorted_list_of_set {u \<in> accepts t. prefix (key w) u}"
proof -
  note pl = walk_node(1) [OF inv w p]
  have "idx (t_char (t ! p)) = idx (last w)"
    using char_index_Inr [OF walk_node(2) [OF inv w p]] by simp
  then have k: "key (butlast w) @ [idx (t_char (t ! p))] = key w"
    using w(2) by (metis append_butlast_last_id key_simps(1,2,3))
  from words_of_below [OF inv pl, of "butlast w"] have sorted: "sorted_wrt (<) (map key (words_of t p (butlast w)))"
    and set: "set (map key (words_of t p (butlast w))) = (\<lambda>u. key w @ u) ` below t p"
    using k by (auto simp flip: k)
  have "set (map key (words_of t p (butlast w))) = {u \<in> accepts t. prefix (key w) u}"
    unfolding set by (rule below_prefix [OF inv idxs_key [OF w(1)] p])
  with sorted show ?thesis
    by (metis sorted_list_of_set.idem_if_sorted_distinct strict_sorted_iff)
qed

end
