(* ===== verification/Trie_Load.thy ===== *)
theory Trie_Load imports Trie_Words begin

text \<open>
  Reading the dictionary (the constructor of \<open>Trie\<close> with a file name): which words a file
  gives, and that every trie that was read is well formed, has no dead ends and no word of
  more than 62 letters.
\<close>

definition new_trie :: "string \<Rightarrow> (trie_error, unit, trie) outcome" where
  "new_trie content = load_loop content empty_trie"

section \<open>Lines\<close>

lemma letter_no_newline: "letters l \<Longrightarrow> CHR 0x0A \<notin> set l"
  by (auto simp: letter_def get_char_index_def)

lemma load_line:
  assumes "letters l" "length l \<le> 62" "trie_inv t" "alive t"
  shows "\<exists>t'. load_loop (l @ newline @ rest) t = load_loop rest t' \<and> trie_inv t' \<and> alive t'
     \<and> accepts t' = insert (key l) (accepts t)"
proof -
  have "fgets 63 (l @ newline @ rest) = (l @ newline, rest)"
    using fgets_line [OF letter_no_newline [OF assms(1)], of 63 rest] assms(2) by (simp add: newline_def)
  moreover obtain t' where "add_new_word l t = (Inr (), t')" "trie_inv t'" "alive t'" "accepts t' = insert (key l) (accepts t)"
    using add_new_word_letters [OF assms(3,1)] assms(4) by blast
  ultimately have "load_loop (l @ newline @ rest) t = load_loop rest t'"
    by (subst load_loop.simps) (simp add: newline_def)
  with \<open>trie_inv t'\<close> \<open>alive t'\<close> \<open>accepts t' = _\<close> show ?thesis by blast
qed

lemma load_lines:
  assumes "\<forall>l\<in>set ls. letters l \<and> length l \<le> 62" "trie_inv t" "alive t"
  shows "\<exists>t'. load_loop (concat (map (\<lambda>l. l @ newline) ls) @ rest) t = load_loop rest t' \<and> trie_inv t' \<and> alive t'
     \<and> accepts t' = key ` set ls \<union> accepts t"
  using assms
proof (induction ls arbitrary: t)
  case (Cons l ls)
  then obtain t1 where "load_loop (l @ newline @ concat (map (\<lambda>l. l @ newline) ls) @ rest) t
      = load_loop (concat (map (\<lambda>l. l @ newline) ls) @ rest) t1" "trie_inv t1" "alive t1"
      "accepts t1 = insert (key l) (accepts t)"
    using load_line [of l t] by (metis list.set_intros(1))
  with Cons.IH [of t1] Cons.prems show ?case by auto
qed auto

lemma load_rest:
  assumes "letters r" "length r \<le> 63" "r \<noteq> []" "trie_inv t" "alive t"
  shows "\<exists>t'. load_loop r t = (Inr (), t') \<and> trie_inv t' \<and> alive t' \<and> accepts t' = insert (key (butlast r)) (accepts t)"
proof -
  have "letters (butlast r)" using assms(1) by (auto dest: in_set_butlastD)
  then obtain t' where "add_new_word (butlast r) t = (Inr (), t')" "trie_inv t'" "alive t'"
      "accepts t' = insert (key (butlast r)) (accepts t)"
    using add_new_word_letters [OF assms(4)] assms(5) by blast
  moreover have "load_loop [] t' = (Inr (), t')" by (simp add: load_loop.simps)
  ultimately have "load_loop r t = (Inr (), t')"
    using assms(3) fgets_end [OF letter_no_newline [OF assms(1)] assms(2)] by (subst load_loop.simps) simp
  with \<open>trie_inv t'\<close> \<open>alive t'\<close> \<open>accepts t' = _\<close> show ?thesis by blast
qed

lemma dictionary_loaded:
  assumes "\<forall>l\<in>set ls. letters l \<and> length l \<le> 62"
  shows "\<exists>t. new_trie (concat (map (\<lambda>l. l @ newline) ls)) = (Inr (), t) \<and> trie_inv t \<and> accepts t = key ` set ls"
  using load_lines [OF assms, of empty_trie "[]"] empty_trie_inv alive_empty
  by (auto simp: new_trie_def load_loop.simps [of "[]"])

section \<open>Every file\<close>

lemma add_new_word_only_letters:
  assumes "trie_inv t" "add_new_word w t = (Inr (), t')"
  shows "letters w"
proof (rule ccontr)
  assume "\<not> letters w"
  then obtain v ch w' where "w = v @ ch # w'" "letters v" "\<not> letter ch"
    using split_list_first_prop [of w "\<lambda>c. \<not> letter c"] by blast
  with add_new_word_bad [OF assms(1), of v ch w'] assms(2) show False by auto
qed

lemma add_new_word_any:
  assumes "trie_inv t" "alive t" "add_new_word w t = (Inr (), t')"
  shows "trie_inv t' \<and> alive t' \<and> accepts t' = insert (key w) (accepts t)"
  using add_new_word_letters [OF assms(1) add_new_word_only_letters [OF assms(1,3)]] assms(2,3) by auto

lemma load_loop_ok:
  assumes "load_loop content t = (Inr (), t')" "trie_inv t" "alive t" "\<forall>u\<in>accepts t. length u \<le> 62"
  shows "trie_inv t' \<and> alive t' \<and> (\<forall>u\<in>accepts t'. length u \<le> 62)"
  using assms
proof (induction content t rule: load_loop.induct)
  case (1 content t)
  show ?case
  proof (cases "content = []")
    case True
    with "1.prems" show ?thesis by (simp add: load_loop.simps)
  next
    case False
    obtain line rest where f: "fgets 63 content = (line, rest)" by (cases "fgets 63 content")
    obtain r t1 where a: "add_new_word (butlast line) t = (r, t1)" by (cases "add_new_word (butlast line) t")
    have "load_loop content t = (case r of Inl e \<Rightarrow> (Inl e, t1) | Inr _ \<Rightarrow> load_loop rest t1)"
      by (subst load_loop.simps) (simp add: False f a)
    with "1.prems"(1) have r: "r = Inr ()" and l: "load_loop rest t1 = (Inr (), t')" by (cases r; simp)+
    have n: "length (key (butlast line)) \<le> 62" using fgets_max [of 63 content] f by (simp add: key_def)
    have w: "trie_inv t1 \<and> alive t1 \<and> accepts t1 = insert (key (butlast line)) (accepts t)"
      using add_new_word_any [OF "1.prems"(2,3)] a r by blast
    then have "\<forall>u\<in>accepts t1. length u \<le> 62" using n "1.prems"(4) by (simp only: ball_simps)
    with w show ?thesis by (intro "1.IH" [OF False f [symmetric] a [symmetric] r l]) blast+
  qed
qed

definition dict_ok :: "trie \<Rightarrow> bool" where
  "dict_ok t \<longleftrightarrow> trie_inv t \<and> alive t \<and> (\<forall>u\<in>accepts t. length u \<le> 62)"

lemma new_trie_ok: "new_trie content = (Inr (), t) \<Longrightarrow> dict_ok t"
  unfolding new_trie_def dict_ok_def
  by (rule load_loop_ok) (use empty_trie_inv alive_empty in auto)

section \<open>The words for a prefix\<close>

text \<open>The words found below a prefix: the ten first of the dictionary, or an error when there
  are none.\<close>

lemma get_words_ok:
  assumes "dict_ok t" "letters w" "w \<noteq> []"
  defines "H \<equiv> {u \<in> accepts t. prefix (key w) u}"
  shows "if H = {} then get_words w t = Some (Inl NoPrefix)
    else \<exists>out. get_words w t = Some (Inr out) \<and> map key out = take NUM_WORDS (sorted_list_of_set H)"
proof -
  have inv: "trie_inv t" "alive t" using assms(1) by (simp_all add: dict_ok_def)
  have k: "idxs (key w)" "key w \<noteq> []" using idxs_key [OF assms(2)] assms(3) by (simp_all add: key_def)
  note none = alive_walk [OF inv(2) k]
  show ?thesis
  proof (cases "walk t 0 (key w)")
    case None
    then show ?thesis using none get_words_take [OF inv(1) assms(2,3)] by (simp add: H_def)
  next
    case (Some p)
    then have "get_words w t = Some (Inr (take NUM_WORDS (words_of t p (butlast w))))" "H \<noteq> {}"
      using none get_words_take [OF inv(1) assms(2,3)] by (auto simp: H_def)
    moreover have "map key (take NUM_WORDS (words_of t p (butlast w))) = take NUM_WORDS (sorted_list_of_set H)"
      by (simp add: take_map [symmetric] words_of_sorted [OF inv(1) assms(2,3) Some] H_def)
    ultimately show ?thesis by simp
  qed
qed

lemma get_words_bad:
  assumes "letters v" "\<not> letter ch"
  shows "\<exists>e. get_words (v @ ch # w) t = Some (Inl e)"
  using prefix_loop_bad [OF assms, of w 0 t] by (auto simp: get_words_def get_node_prefix_def split: option.split)

lemma get_words_total:
  assumes "dict_ok t" "w \<noteq> []"
  shows "\<exists>r. get_words w t = Some r"
proof (cases "letters w")
  case True
  then show ?thesis using get_words_ok [OF assms(1) True assms(2)] by (auto split: if_splits)
next
  case False
  then obtain v ch w' where "w = v @ ch # w'" "letters v" "\<not> letter ch"
    using split_list_first_prop [of w "\<lambda>c. \<not> letter c"] by blast
  with get_words_bad show ?thesis by blast
qed

lemma get_words_length:
  assumes "dict_ok t" "w \<noteq> []" "get_words w t = Some (Inr out)"
  shows "length out \<le> NUM_WORDS \<and> (\<forall>v\<in>set out. length v \<le> 62 \<and> letters v)"
proof -
  have inv: "trie_inv t" using assms(1) by (simp add: dict_ok_def)
  have w: "letters w"
  proof (rule ccontr)
    assume "\<not> letters w"
    then obtain v ch w' where "w = v @ ch # w'" "letters v" "\<not> letter ch"
      using split_list_first_prop [of w "\<lambda>c. \<not> letter c"] by blast
    with get_words_bad [of v ch w' t] assms(3) show False by auto
  qed
  let ?H = "{u \<in> accepts t. prefix (key w) u}"
  have k: "map key out = take NUM_WORDS (sorted_list_of_set ?H)"
    using get_words_ok [OF assms(1) w assms(2)] assms(3) by (auto split: if_splits)
  have "length v \<le> 62" if "v \<in> set out" for v
  proof -
    from that have "key v \<in> set (map key out)" by simp
    then have "key v \<in> set (sorted_list_of_set ?H)" unfolding k by (rule in_set_takeD)
    then have "key v \<in> accepts t" by (cases "finite ?H") auto
    with assms(1) have "length (key v) \<le> 62" unfolding dict_ok_def by blast
    then show ?thesis by (simp add: key_def)
  qed
  moreover have "letters v" if "v \<in> set out" for v
  proof -
    obtain p where p: "walk t 0 (key w) = Some p" "out = take NUM_WORDS (words_of t p (butlast w))"
      using assms(3) get_words_take [OF inv w assms(2)] by (auto split: option.splits)
    note node = walk_node [OF inv w assms(2) p(1)]
    have "letters (butlast w)" using w by (auto dest: in_set_butlastD)
    from words_of_letters [OF inv node(1) this char_index_Inr [OF node(2), THEN conjunct1]] that p(2)
    show ?thesis by (auto dest: in_set_takeD)
  qed
  moreover have "length out = length (map key out)" by simp
  then have "length out \<le> NUM_WORDS" unfolding k by simp
  ultimately show ?thesis by blast
qed

end
