(* ===== verification/Hint_Server.thy ===== *)
theory Hint_Server imports Trie_Load Sockets begin

text \<open>
  The server of p7 (p7/Server.cpp): it keeps the dictionary, reads prefixes from its clients
  and answers with words. Inputs: what \<open>accept\<close> and \<open>recv\<close> deliver, the clock, the time stamp
  and the text of the dictionary file. \<open>None\<close> is undefined behaviour (a write beyond an array,
  \<open>pop_back\<close> of an empty string); an exception is the left value of a sum.
\<close>

section \<open>One request\<close>

definition trie_what :: "trie_error \<Rightarrow> string" where
  "trie_what e = (case e of
      NoPrefix \<Rightarrow> ''There are no words with such prefix''
    | NotAllowedSymbol c \<Rightarrow> ''There is symbol '' @ [CHR 0x27, c, CHR 0x27] @ '' that is not supported'')"

text \<open>The words, the buffer and \<open>er\<close> after the call; \<open>buffer_\<close> has 256 characters.\<close>

definition proccess_message_from_client :: "trie \<Rightarrow> string \<Rightarrow> (string list \<times> string \<times> int) option" where
  "proccess_message_from_client p_dict buf =
     (case scan_word (c_string buf) of
        None \<Rightarrow> Some ([], buf, -1)
      | Some (buffer', _) \<Rightarrow>
         (if 256 \<le> length buffer' then None
          else (case get_words buffer' p_dict of
              None \<Rightarrow> None
            | Some (Inr words) \<Rightarrow> Some (words, ''OK'' @ newline, 0)
            | Some (Inl err) \<Rightarrow> Some ([], ''FAIL: '' @ trie_what err @ newline, 1))))"

section \<open>State and events\<close>

definition MAX_BUF_SIZE :: nat where "MAX_BUF_SIZE = 1024"

datatype hint_exception = System_Error | Trie_Error trie_error

record hint_server =
  p_dict :: trie
  buffer :: string
  slave_sockets :: "int set"
  sent :: "(int \<times> string) list"
  closed :: "int list"

definition send_message_to_client :: "int \<Rightarrow> hint_server \<Rightarrow> hint_server" where
  "send_message_to_client fd s = s\<lparr>sent := sent s @ [(fd, c_string (buffer s) @ [CHR 0x00])]\<rparr>"

definition disconnect_client :: "int \<Rightarrow> hint_server \<Rightarrow> hint_server" where
  "disconnect_client fd s = s\<lparr>slave_sockets := slave_sockets s - {fd}, closed := closed s @ [fd]\<rparr>"

text \<open>The terminating NUL is written at the index \<open>recv_size\<close>, which may be the size of the
  buffer.\<close>

definition recv_message_from_client ::
    "int \<Rightarrow> recv_result \<Rightarrow> hint_server \<Rightarrow> (hint_exception, bool, hint_server) outcome option" where
  "recv_message_from_client fd res s = (case res of
      Data d \<Rightarrow> (if length d < MAX_BUF_SIZE then Some (Inr True, s\<lparr>buffer := d @ [CHR 0x00]\<rparr>) else None)
    | Closed \<Rightarrow> Some (Inr False, disconnect_client fd s)
    | Recv_Error \<Rightarrow> Some (Inl System_Error, s))"

text \<open>The loop over the words found; a reply with its NUL has to fit the buffer.\<close>

fun send_words :: "int \<Rightarrow> string list \<Rightarrow> hint_server \<Rightarrow> hint_server option" where
  "send_words fd [] s = Some s"
| "send_words fd (w # ws) s =
     (let reply = ''OK: '' @ w @ newline in
      if length reply < MAX_BUF_SIZE
      then send_words fd ws (send_message_to_client fd (s\<lparr>buffer := reply\<rparr>)) else None)"

definition process_client_event ::
    "int \<Rightarrow> recv_result \<Rightarrow> bool \<Rightarrow> hint_server \<Rightarrow> (hint_exception, unit, hint_server) outcome option" where
  "process_client_event fd res hup s =
     (case recv_message_from_client fd res s of
        None \<Rightarrow> None
      | Some (Inl e, s1) \<Rightarrow> Some (Inl e, s1)
      | Some (Inr False, s1) \<Rightarrow> Some (Inr (), s1)
      | Some (Inr True, s1) \<Rightarrow>
         (case proccess_message_from_client (p_dict s1) (buffer s1) of
            None \<Rightarrow> None
          | Some (words, buf, err) \<Rightarrow>
             (let s2 = s1\<lparr>buffer := buf\<rparr> in
              (case (if err = 0 then send_words fd words (send_message_to_client fd s2)
                     else if err = 1 then Some (send_message_to_client fd s2) else Some s2) of
                 None \<Rightarrow> None
               | Some s3 \<Rightarrow> Some (Inr (), if hup then disconnect_client fd s3 else s3)))))"

text \<open>The sockets \<open>accept\<close> returns in this round; those not positive are errors.\<close>

fun process_master_event :: "int list \<Rightarrow> hint_server \<Rightarrow> hint_server" where
  "process_master_event [] s = s"
| "process_master_event (fd # fds) s = process_master_event fds
     (if fd > 0 then s\<lparr>slave_sockets := insert fd (slave_sockets s),
                      sent := sent s @ [(fd, ''Welcome!'' @ newline)]\<rparr> else s)"

section \<open>The event loop\<close>

datatype event = Master "int list" | Client int recv_result bool

definition process_event :: "event \<Rightarrow> hint_server \<Rightarrow> (hint_exception, unit, hint_server) outcome option" where
  "process_event e s = (case e of
      Master fds \<Rightarrow> Some (Inr (), process_master_event fds s)
    | Client fd res hup \<Rightarrow> process_client_event fd res hup s)"

fun process_events :: "event list \<Rightarrow> hint_server \<Rightarrow> (hint_exception, unit, hint_server) outcome option" where
  "process_events [] s = Some (Inr (), s)"
| "process_events (e # es) s = (case process_event e s of
      Some (Inr _, s1) \<Rightarrow> process_events es s1 | r \<Rightarrow> r)"

text \<open>One turn of \<open>start\<close>: the dictionary is read again if the file is from the future.\<close>

definition hint_turn :: "int \<Rightarrow> int \<Rightarrow> string \<Rightarrow> event list \<Rightarrow> hint_server
    \<Rightarrow> (hint_exception, unit, hint_server) outcome option" where
  "hint_turn st_mtime now content es s =
     (if st_mtime > now then
        (case new_trie content of
           (Inl e, t) \<Rightarrow> Some (Inl (Trie_Error e), s)
         | (Inr _, t) \<Rightarrow> process_events es (s\<lparr>p_dict := t\<rparr>))
      else process_events es s)"

text \<open>The constructor reads the dictionary first.\<close>

definition new_hint_server :: "string \<Rightarrow> trie_error + hint_server" where
  "new_hint_server content = (case new_trie content of
      (Inl e, t) \<Rightarrow> Inl e
    | (Inr _, t) \<Rightarrow> Inr \<lparr>p_dict = t, buffer = [], slave_sockets = {}, sent = [], closed = []\<rparr>)"

text \<open>Turns with the clock, the time stamp and the file of each.\<close>

fun hint_turns :: "(int \<times> int \<times> string \<times> event list) list \<Rightarrow> hint_server
    \<Rightarrow> (hint_exception, unit, hint_server) outcome option" where
  "hint_turns [] s = Some (Inr (), s)"
| "hint_turns ((st_mtime, now, content, es) # ts) s = (case hint_turn st_mtime now content es s of
      Some (Inr _, s1) \<Rightarrow> hint_turns ts s1 | r \<Rightarrow> r)"

section \<open>The dictionary does not change\<close>

lemma client_frame [frame]: "p_dict (send_message_to_client fd s) = p_dict s" "p_dict (disconnect_client fd s) = p_dict s"
  by (simp_all add: send_message_to_client_def disconnect_client_def)

lemma send_words_frame: "send_words fd ws s = Some s' \<Longrightarrow> p_dict s' = p_dict s"
  by (induction fd ws s rule: send_words.induct) (auto simp: Let_def frame split: if_splits)

lemma recv_frame: "recv_message_from_client fd res s = Some (r, s') \<Longrightarrow> p_dict s' = p_dict s"
  by (auto simp: recv_message_from_client_def frame split: recv_result.splits if_splits)

lemma client_event_frame: "process_client_event fd res hup s = Some (r, s') \<Longrightarrow> p_dict s' = p_dict s"
  by (auto simp: process_client_event_def Let_def frame dest!: send_words_frame recv_frame
      split: option.splits sum.splits prod.splits bool.splits if_splits)

lemma master_event_frame: "p_dict (process_master_event fds s) = p_dict s"
  by (induction fds s rule: process_master_event.induct) auto

lemma process_events_frame: "process_events es s = Some (r, s') \<Longrightarrow> p_dict s' = p_dict s"
proof (induction es s rule: process_events.induct)
  case (2 e es s)
  then show ?case
    by (auto simp: process_event_def master_event_frame dest: client_event_frame split: event.splits option.splits sum.splits prod.splits)
qed simp

section \<open>Requests that are answered\<close>

lemma send_words_eq:
  assumes "\<forall>w\<in>set ws. length w \<le> 62 \<and> CHR 0x00 \<notin> set w"
  shows "\<exists>buf. send_words fd ws s = Some (s\<lparr>buffer := buf, sent := sent s @ map (\<lambda>w. (fd, ''OK: '' @ w @ newline @ [CHR 0x00])) ws\<rparr>)"
  using assms
proof (induction ws arbitrary: s)
  case Nil
  then show ?case by (auto intro: exI [of _ "buffer s"])
next
  case (Cons w ws)
  have c: "c_string (''OK: '' @ w @ newline) = ''OK: '' @ w @ newline"
    by (rule c_string_id) (use Cons.prems in \<open>auto simp: newline_def\<close>)
  have l: "length (''OK: '' @ w @ newline) < MAX_BUF_SIZE"
    using Cons.prems by (auto simp: newline_def MAX_BUF_SIZE_def)
  let ?s = "send_message_to_client fd (s\<lparr>buffer := ''OK: '' @ w @ newline\<rparr>)"
  have "\<exists>buf. send_words fd ws ?s = Some (?s\<lparr>buffer := buf, sent := sent ?s @ map (\<lambda>w. (fd, ''OK: '' @ w @ newline @ [CHR 0x00])) ws\<rparr>)"
    using Cons.IH [of ?s] Cons.prems by simp
  with c l show ?case by (simp add: Let_def send_message_to_client_def del: append.simps) simp
qed

end
