(* ===== verification/Trie_Free.thy ===== *)
theory Trie_Free imports Trie_Load begin

text \<open>
  The destructor of \<open>Trie\<close>: a traversal like that of \<open>get_words\<close> that deletes every node after
  its children. Reading or deleting a node a second time is undefined behaviour, \<open>None\<close>.
\<close>

section \<open>The loop\<close>

partial_function (option) destroy_loop :: "trie \<Rightarrow> nat list \<Rightarrow> bool list \<Rightarrow> nat list \<Rightarrow> nat list option" where
  "destroy_loop t nodes is_visited freed =
     (if nodes = [] then Some freed
      else (let p_node = hd nodes;
                is_visited1 = True # tl is_visited
            in if p_node \<in> set freed then None
               else if \<not> hd is_visited then
                 (case push_children (t ! p_node) (nodes, is_visited1) of
                    (nodes2, is_visited2) \<Rightarrow>
                      if p_node = hd nodes2
                      then destroy_loop t (tl nodes2) (tl is_visited2) (freed @ [p_node])
                      else destroy_loop t nodes2 is_visited2 freed)
               else destroy_loop t (tl nodes) (tl is_visited1) (freed @ [p_node])))"

definition destroy_trie :: "trie \<Rightarrow> nat list option" where
  "destroy_trie t = destroy_loop t [0] [False] []"

section \<open>The postorder\<close>

function post :: "trie \<Rightarrow> nat \<Rightarrow> nat list" where
  "post t p =
     (if p < length t
      then concat (map (\<lambda>i. case p_next (t ! p) ! i of None \<Rightarrow> []
             | Some q \<Rightarrow> if p < q then post t q else []) [0..<NUM_LATIN_LETTERS]) @ [p]
      else [])"
  by pat_completeness auto
termination
  by (relation "measure (\<lambda>(t, p). length t - p)") auto

declare post.simps [simp del]

lemma post_children:
  assumes "trie_inv t" "p < length t"
  shows "post t p = concat (map (post t) (children (t ! p))) @ [p]"
proof -
  have "concat (map (\<lambda>i. case p_next (t ! p) ! i of None \<Rightarrow> [] | Some q \<Rightarrow> if p < q then post t q else []) is)
      = concat (map (post t) (concat (map (\<lambda>i. case p_next (t ! p) ! i of None \<Rightarrow> [] | Some q \<Rightarrow> [q]) is)))"
    if "\<forall>i\<in>set is. i < NUM_LATIN_LETTERS" for "is"
    using that by (induction "is") (auto split: option.split dest: trie_inv_child [OF assms])
  from this [of "[0..<NUM_LATIN_LETTERS]"] show ?thesis
    using assms(2) by (subst post.simps) (simp add: children_def)
qed

lemma distinct_children:
  assumes "trie_inv t" "p < length t"
  shows "distinct (children (t ! p))"
proof -
  let ?f = "\<lambda>q. idx (t_char (t ! q))"
  have "map ?f (concat (map (\<lambda>i. case p_next (t ! p) ! i of None \<Rightarrow> [] | Some q \<Rightarrow> [q]) is))
      = filter (\<lambda>i. p_next (t ! p) ! i \<noteq> None) is" if "\<forall>i\<in>set is. i < NUM_LATIN_LETTERS" for "is"
    using that by (induction "is") (auto split: option.split dest: trie_inv_child(3) [OF assms, THEN char_index_Inr])
  from this [of "[0..<NUM_LATIN_LETTERS]"] have "distinct (map ?f (children (t ! p)))"
    by (simp add: children_def)
  then show ?thesis by (simp add: distinct_map)
qed

lemma set_post:
  assumes "trie_inv t" "p < length t"
  shows "q \<in> set (post t p) \<longleftrightarrow> (\<exists>u. idxs u \<and> walk t p u = Some q)"
  using assms(2)
proof (induction "length t - p" arbitrary: p rule: less_induct)
  case less
  have kid: "q \<in> set (post t r) \<longleftrightarrow> (\<exists>u. idxs u \<and> walk t r u = Some q)" if "r \<in> set (children (t ! p))" for r
    using less children_child [OF assms(1) less.prems that] by auto
  have "q \<in> set (post t p) \<longleftrightarrow> q = p \<or> (\<exists>r\<in>set (children (t ! p)). \<exists>u. idxs u \<and> walk t r u = Some q)"
    using kid by (auto simp: post_children [OF assms(1) less.prems])
  also have "\<dots> \<longleftrightarrow> (\<exists>u. idxs u \<and> walk t p u = Some q)"
  proof
    assume "q = p \<or> (\<exists>r\<in>set (children (t ! p)). \<exists>u. idxs u \<and> walk t r u = Some q)"
    then show "\<exists>u. idxs u \<and> walk t p u = Some q"
    proof
      assume "q = p"
      then show ?thesis by (intro exI [of _ "[]"]) simp
    next
      assume "\<exists>r\<in>set (children (t ! p)). \<exists>u. idxs u \<and> walk t r u = Some q"
      then obtain r u i where "idxs u" "walk t r u = Some q" "i < NUM_LATIN_LETTERS" "p_next (t ! p) ! i = Some r"
        by (auto simp: children_iff)
      then show ?thesis by (intro exI [of _ "i # u"]) simp
    qed
  next
    assume "\<exists>u. idxs u \<and> walk t p u = Some q"
    then obtain u where u: "idxs u" "walk t p u = Some q" by blast
    then show "q = p \<or> (\<exists>r\<in>set (children (t ! p)). \<exists>u. idxs u \<and> walk t r u = Some q)"
      by (cases u) (auto split: option.splits intro!: children_iff [THEN iffD2])
  qed
  finally show ?case .
qed

lemma distinct_concat_disjoint:
  assumes "distinct cs" "\<And>c. c \<in> set cs \<Longrightarrow> distinct (f c)"
    and "\<And>c d. c \<in> set cs \<Longrightarrow> d \<in> set cs \<Longrightarrow> c \<noteq> d \<Longrightarrow> set (f c) \<inter> set (f d) = {}"
  shows "distinct (concat (map f cs))"
  using assms
proof (induction cs)
  case (Cons c cs)
  have "set (f c) \<inter> set (f d) = {}" if "d \<in> set cs" for d
    using Cons.prems(1,3) that by auto
  with Cons show ?case by auto
qed simp

lemma distinct_post:
  assumes inv: "trie_inv t" and v: "idxs v" "walk t 0 v = Some p"
  shows "distinct (post t p)"
  using v
proof (induction "length t - p" arbitrary: p v rule: less_induct)
  case less
  have p: "p < length t" by (rule walk_range [OF inv trie_inv_head [OF inv] less.prems])
  have step: "\<exists>i. i < NUM_LATIN_LETTERS \<and> p_next (t ! p) ! i = Some r \<and> walk t 0 (v @ [i]) = Some r"
    if "r \<in> set (children (t ! p))" for r
    using that less.prems(2) by (auto simp: children_iff walk_append)
  have kid: "distinct (post t r)" if r: "r \<in> set (children (t ! p))" for r
  proof -
    obtain i where "i < NUM_LATIN_LETTERS" "walk t 0 (v @ [i]) = Some r" using step [OF r] by blast
    then show ?thesis using less.hyps [of r "v @ [i]"] less.prems(1) children_child [OF inv p r] p by auto
  qed
  have disj: "set (post t r) \<inter> set (post t r') = {}"
    if r: "r \<in> set (children (t ! p))" "r' \<in> set (children (t ! p))" "r \<noteq> r'" for r r'
  proof (rule ccontr)
    assume "set (post t r) \<inter> set (post t r') \<noteq> {}"
    then obtain q u u' where q: "idxs u" "walk t r u = Some q" "idxs u'" "walk t r' u' = Some q"
      using children_child [OF inv p] r set_post [OF inv] by auto
    obtain i i' where i: "i < NUM_LATIN_LETTERS" "walk t 0 (v @ [i]) = Some r" "i' < NUM_LATIN_LETTERS" "walk t 0 (v @ [i']) = Some r'"
      using step r by meson
    have "walk t 0 ((v @ [i]) @ u) = Some q" "walk t 0 ((v @ [i']) @ u') = Some q"
      using q i by (simp_all only: walk_append option.case)
    then have "(v @ [i]) @ u = (v @ [i']) @ u'"
      using trie_inv_unique [OF inv, of "(v @ [i]) @ u" "(v @ [i']) @ u'" q] i q less.prems(1) by simp
    then have "i = i'" by simp
    with i r(3) show False by simp
  qed
  have "p \<notin> set (post t r)" if r: "r \<in> set (children (t ! p))" for r
  proof
    assume "p \<in> set (post t r)"
    then obtain u where u: "idxs u" "walk t r u = Some p" using set_post [OF inv] children_child [OF inv p r] by blast
    obtain i where i: "i < NUM_LATIN_LETTERS" "walk t 0 (v @ [i]) = Some r" using step [OF r] by blast
    have "walk t 0 ((v @ [i]) @ u) = Some p" using u i by (simp only: walk_append option.case)
    then have "(v @ [i]) @ u = v"
      using trie_inv_unique [OF inv, of "(v @ [i]) @ u" v p] i u less.prems by simp
    then show False by simp
  qed
  with distinct_concat_disjoint [OF distinct_children [OF inv p], of "post t"] kid disj show ?case
    by (auto simp: post_children [OF inv p])
qed

section \<open>The loop deletes in postorder\<close>

definition free_ok :: "trie \<Rightarrow> nat \<Rightarrow> bool" where
  "free_ok t p \<longleftrightarrow> (\<forall>ns vs fr. set fr \<inter> set (post t p) = {} \<longrightarrow>
     destroy_loop t (p # ns) (False # vs) fr = destroy_loop t ns vs (fr @ post t p))"

lemma free_children:
  assumes "\<forall>q\<in>set qs. free_ok t q" "distinct (concat (map (post t) qs))" "set fr \<inter> set (concat (map (post t) qs)) = {}"
  shows "destroy_loop t (qs @ ns) (replicate (length qs) False @ vs) fr = destroy_loop t ns vs (fr @ concat (map (post t) qs))"
  using assms
proof (induction qs arbitrary: fr)
  case (Cons q qs)
  have "destroy_loop t (q # qs @ ns) (False # replicate (length qs) False @ vs) fr
      = destroy_loop t (qs @ ns) (replicate (length qs) False @ vs) (fr @ post t q)"
  proof -
    have "free_ok t q" "set fr \<inter> set (post t q) = {}" using Cons.prems by auto
    then show ?thesis unfolding free_ok_def by blast
  qed
  also have "\<dots> = destroy_loop t ns vs ((fr @ post t q) @ concat (map (post t) qs))"
    by (rule Cons.IH) (use Cons.prems in auto)
  finally show ?case by simp
qed simp

lemma free_node:
  assumes inv: "trie_inv t" and p: "idxs v" "walk t 0 v = Some p"
  shows "free_ok t p"
  using p
proof (induction "length t - p" arbitrary: p v rule: less_induct)
  case less
  let ?cs = "children (t ! p)"
  have p: "p < length t" by (rule walk_range [OF inv trie_inv_head [OF inv] less.prems])
  have kids: "free_ok t r" if r: "r \<in> set ?cs" for r
  proof -
    obtain i where "i < NUM_LATIN_LETTERS" "p_next (t ! p) ! i = Some r" using r unfolding children_iff by blast
    then have "idxs (v @ [i])" "walk t 0 (v @ [i]) = Some r" using less.prems by (auto simp: walk_append)
    with less.hyps children_child [OF inv p r] p show ?thesis by (meson diff_less_mono2)
  qed
  have hd: "p \<noteq> hd (?cs @ p # ns) \<longleftrightarrow> ?cs \<noteq> []" for ns
    using children_child [OF inv p] by (cases ?cs) auto
  note post = post_children [OF inv p]
  have dist: "distinct (concat (map (post t) ?cs) @ [p])" using distinct_post [OF inv less.prems] post by simp
  show ?case unfolding free_ok_def
  proof (intro allI impI)
    fix ns vs fr assume fr: "set fr \<inter> set (post t p) = {}"
    then have new: "p \<notin> set fr" "set fr \<inter> set (concat (map (post t) ?cs)) = {}" using post by auto
    show "destroy_loop t (p # ns) (False # vs) fr = destroy_loop t ns vs (fr @ post t p)"
    proof (cases "?cs = []")
      case True
      then show ?thesis using new post by (subst destroy_loop.simps) (simp add: Let_def push_children_eq)
    next
      case False
      then have "destroy_loop t (p # ns) (False # vs) fr
          = destroy_loop t (?cs @ p # ns) (replicate (length ?cs) False @ True # vs) fr"
        using new hd [of ns] by (subst destroy_loop.simps) (simp add: Let_def push_children_eq)
      also have "\<dots> = destroy_loop t (p # ns) (True # vs) (fr @ concat (map (post t) ?cs))"
        by (rule free_children) (use kids dist new in auto)
      also have "\<dots> = destroy_loop t ns vs ((fr @ concat (map (post t) ?cs)) @ [p])"
        using new dist by (subst destroy_loop.simps) (simp add: Let_def)
      finally show ?thesis using post by simp
    qed
  qed
qed

section \<open>Every node is reached\<close>

definition connected :: "trie \<Rightarrow> bool" where
  "connected t \<longleftrightarrow> (\<forall>p<length t. \<exists>u. idxs u \<and> walk t 0 u = Some p)"

lemma connected_empty: "connected empty_trie"
  by (auto simp: connected_def empty_trie_def get_new_node_def intro: exI [of _ "[]"])

lemma connected_grow:
  assumes inv: "trie_inv t" and u: "idxs u" "walk t 0 u = Some p" and i: "i < NUM_LATIN_LETTERS"
    and none: "p_next (t ! p) ! i = None" and ch: "get_char_index ch = Inr i" and con: "connected t"
  shows "connected (grow p i ch t)"
proof -
  note g = grow_inv [OF inv u i none ch]
  have p: "p < length t" by (rule walk_range [OF inv trie_inv_head [OF inv] u])
  have "\<exists>v. idxs v \<and> walk (grow p i ch t) 0 v = Some q" if "q < Suc (length t)" for q
  proof (cases "q = length t")
    case True
    with g(2) u(1) i show ?thesis by (intro exI [of _ "u @ [i]"]) simp
  next
    case False
    with that have "q < length t" by simp
    with con obtain v where "idxs v" "walk t 0 v = Some q" unfolding connected_def by blast
    with g(5) show ?thesis by blast
  qed
  then show ?thesis
    using grow_nth(1) [OF p i trie_inv_len [OF inv p]] by (simp add: connected_def)
qed

lemma connected_add_loop:
  assumes "trie_inv t" "idxs u" "walk t 0 u = Some p" "connected t"
  shows "connected (snd (add_loop w p t))"
  using assms
proof (induction w arbitrary: u p t)
  case (Cons ch w)
  show ?case
  proof (cases "get_char_index ch")
    case (Inl e)
    with Cons.prems show ?thesis by simp
  next
    case (Inr i)
    then have i: "i < NUM_LATIN_LETTERS" using char_index_Inr idx_less by blast
    then have ui: "idxs (u @ [i])" using Cons.prems(2) by simp
    show ?thesis
    proof (cases "p_next (t ! p) ! i")
      case None
      note g = grow_inv [OF Cons.prems(1-3) i None Inr]
      from Cons.IH [OF g(1) ui g(2) connected_grow [OF Cons.prems(1-3) i None Inr Cons.prems(4)]] None Inr
      show ?thesis by (simp add: get_new_node_def grow_def)
    next
      case (Some q)
      then have "walk t 0 (u @ [i]) = Some q" using Cons.prems(3) by (simp add: walk_append)
      from Cons.IH [OF Cons.prems(1) ui this Cons.prems(4)] Some Inr show ?thesis by simp
    qed
  qed
qed simp

lemma connected_add:
  assumes "trie_inv t" "connected t" "add_new_word w t = (Inr (), t')"
  shows "connected t'"
proof -
  obtain q t1 where a: "add_loop w 0 t = (Inr q, t1)" "t' = t1[q := (t1 ! q)\<lparr>is_final := True\<rparr>]"
    using assms(3) by (auto simp: add_new_word_def split: prod.splits sum.splits)
  have c: "connected t1" using connected_add_loop [of t "[]" 0 w] assms a by simp
  have w: "letters w" by (rule add_new_word_only_letters [OF assms(1,3)])
  obtain q' t2 where "add_loop w 0 t = (Inr q', t2)" "trie_inv t2" "walk t2 0 (key w) = Some q'"
    using add_loop_letters [of t "[]" 0 w] assms(1) w by auto
  with a have "trie_inv t1" "walk t1 0 (key w) = Some q" by auto
  from final_inv(3) [OF this(1) idxs_key [OF w] this(2)] a(2) c show ?thesis
    by (simp add: connected_def)
qed

lemma load_connected:
  assumes "load_loop content t = (Inr (), t')" "trie_inv t" "alive t" "connected t"
  shows "connected t'"
  using assms
proof (induction content t rule: load_loop.induct)
  case (1 content t)
  show ?case
  proof (cases "content = []")
    case True
    with "1.prems" show ?thesis by (simp add: load_loop.simps)
  next
    case False
    obtain line rest where f: "fgets 63 content = (line, rest)" by (cases "fgets 63 content")
    obtain r t1 where a: "add_new_word (butlast line) t = (r, t1)" by (cases "add_new_word (butlast line) t")
    have "load_loop content t = (case r of Inl e \<Rightarrow> (Inl e, t1) | Inr _ \<Rightarrow> load_loop rest t1)"
      by (subst load_loop.simps) (simp add: False f a)
    with "1.prems"(1) have r: "r = Inr ()" and l: "load_loop rest t1 = (Inr (), t')" by (cases r; simp)+
    note a' = a [unfolded r]
    have "trie_inv t1" "alive t1" using add_new_word_any [OF "1.prems"(2,3) a'] by blast+
    from "1.IH" [OF False f [symmetric] a [symmetric] r l this connected_add [OF "1.prems"(2,4) a']]
    show ?thesis .
  qed
qed

end
