(* ===== verification/Hint_Props.thy ===== *)
theory Hint_Props imports Hint_Server Trie_Free begin

text \<open>The properties of the hint server of p7 and of its dictionary.\<close>

section \<open>The dictionary\<close>

text \<open>A trie that was built by adding words gains exactly the added word, whatever its case;
  a word with a symbol that is not a letter is refused with that symbol (the first one) and the
  words stay the same. Both keep the trie well formed.\<close>

theorem add_new_word_adds:
  assumes "trie_inv t"
  shows "\<exists>r t'. add_new_word w t = (r, t') \<and> trie_inv t'
    \<and> (if letters w then r = Inr () \<and> accepts t' = insert (key w) (accepts t)
       else r = Inl (NotAllowedSymbol (hd (dropWhile letter w))) \<and> accepts t' = accepts t)"
proof (cases "letters w")
  case True
  with add_new_word_letters [OF assms True] show ?thesis by auto
next
  case False
  then obtain v ch w' where w: "w = v @ ch # w'" "letters v" "\<not> letter ch"
    using split_list_first_prop [of w "\<lambda>c. \<not> letter c"] by blast
  then have "hd (dropWhile letter w) = ch" by simp
  with add_new_word_bad [OF assms w(2,3), of w'] w(1) False show ?thesis by auto
qed

lemma letter_examples: "letter CHR ''a''" "letter CHR ''b''" "letter CHR ''n''" "letter CHR ''t''" "letter CHR ''A''" "\<not> letter CHR ''-''"
    "idx CHR ''a'' = 0" "idx CHR ''b'' = 1" "idx CHR ''n'' = 13" "idx CHR ''t'' = 19" "idx CHR ''A'' = 0"
  by (simp_all add: letter_def idx_def get_char_index_def)

theorem add_new_word_adds_witness:
  "(\<exists>t'. add_new_word ''at'' empty_trie = (Inr (), t') \<and> trie_inv t' \<and> accepts t' = {[0, 19]})
   \<and> (\<exists>t'. add_new_word ''a-t'' empty_trie = (Inl (NotAllowedSymbol CHR ''-''), t') \<and> trie_inv t' \<and> accepts t' = {})"
  using add_new_word_adds [of empty_trie "''at''"] add_new_word_adds [of empty_trie "''a-t''"] empty_trie_inv
  by (simp add: letter_examples)

text \<open>Reading a file of words, one per line and each of at most 62 letters, gives exactly these
  words; of a last line that is not ended by a newline the last letter is lost.\<close>

theorem dictionary_words:
  assumes "\<forall>l\<in>set ls. letters l \<and> length l \<le> 62" "letters r" "length r \<le> 63"
  shows "\<exists>t. new_trie (concat (map (\<lambda>l. l @ newline) ls) @ r) = (Inr (), t) \<and> trie_inv t
     \<and> accepts t = key ` set ls \<union> (if r = [] then {} else {key (butlast r)})"
proof -
  obtain t1 where t1: "new_trie (concat (map (\<lambda>l. l @ newline) ls) @ r) = load_loop r t1"
    "trie_inv t1" "alive t1" "accepts t1 = key ` set ls"
    using load_lines [OF assms(1), of empty_trie r] empty_trie_inv alive_empty by (auto simp: new_trie_def)
  show ?thesis
  proof (cases "r = []")
    case True
    with t1 show ?thesis by (simp add: load_loop.simps)
  next
    case False
    with t1 load_rest [OF assms(2,3) False t1(2,3)] show ?thesis by auto
  qed
qed

theorem dictionary_words_witness:
  "\<exists>t. new_trie (''at'' @ newline @ ''ban'') = (Inr (), t) \<and> trie_inv t \<and> accepts t = {[0, 19], [1, 0]}"
  using dictionary_words [of "[''at'']" "''ban''"] by (simp add: letter_examples insert_commute)

section \<open>Requests\<close>

text \<open>Turns in which the file is not from the future.\<close>

definition timely :: "(int \<times> int \<times> string \<times> event list) list \<Rightarrow> bool" where
  "timely ts \<longleftrightarrow> (\<forall>(st_mtime, now, content, es)\<in>set ts. st_mtime \<le> now)"

lemma timely_turns: "timely ts \<Longrightarrow> hint_turns ts s = Some (r, s') \<Longrightarrow> p_dict s' = p_dict s"
proof (induction ts s rule: hint_turns.induct)
  case (2 st_mtime now content es ts s)
  then have "hint_turn st_mtime now content es s = process_events es s"
    by (simp add: timely_def hint_turn_def)
  with 2 show ?case
    by (auto simp: timely_def dest: process_events_frame split: option.splits sum.splits prod.splits)
qed simp

lemma new_server_ok:
  assumes "new_hint_server content = Inr s0"
  shows "new_trie content = (Inr (), p_dict s0)" "dict_ok (p_dict s0)"
proof -
  show "new_trie content = (Inr (), p_dict s0)"
    using assms by (auto simp: new_hint_server_def split: prod.splits sum.splits)
  then show "dict_ok (p_dict s0)" by (rule new_trie_ok)
qed

lemma hint_turn_ok: "dict_ok (p_dict s) \<Longrightarrow> hint_turn m n c es s = Some (r, s') \<Longrightarrow> dict_ok (p_dict s')"
  using new_trie_ok [of c] process_events_frame [of es s r s']
  by (auto simp: hint_turn_def dest!: process_events_frame split: if_splits prod.splits sum.splits)

lemma hint_turns_ok: "dict_ok (p_dict s) \<Longrightarrow> hint_turns ts s = Some (r, s') \<Longrightarrow> dict_ok (p_dict s')"
proof (induction ts s rule: hint_turns.induct)
  case (2 st_mtime now content es ts s)
  then show ?case
    by (auto dest: hint_turn_ok split: option.splits sum.splits prod.splits)
qed simp

text \<open>A request whose word is not too long.\<close>

lemma process_request:
  assumes "length d < MAX_BUF_SIZE" "scan_word (c_string d) = Some (w, rest)" "length w < 256"
    and "get_words w (p_dict s) = Some r" "\<forall>out. r = Inr out \<longrightarrow> (\<forall>v\<in>set out. length v \<le> 62 \<and> CHR 0x00 \<notin> set v)"
  shows "\<exists>s'. process_client_event fd (Data d) False s = Some (Inr (), s') \<and> sent s' = sent s @
     (case r of Inl e \<Rightarrow> [(fd, c_string (''FAIL: '' @ trie_what e @ newline) @ [CHR 0x00])]
      | Inr out \<Rightarrow> (fd, ''OK'' @ newline @ [CHR 0x00]) # map (\<lambda>v. (fd, ''OK: '' @ v @ newline @ [CHR 0x00])) out)"
proof -
  have r: "recv_message_from_client fd (Data d) s = Some (Inr True, s\<lparr>buffer := d @ [CHR 0x00]\<rparr>)"
    using assms(1) by (simp add: recv_message_from_client_def)
  show ?thesis
  proof (cases r)
    case (Inl e)
    then have "proccess_message_from_client (p_dict s) (d @ [CHR 0x00]) = Some ([], ''FAIL: '' @ trie_what e @ newline, 1)"
      using assms(2-4) by (simp add: proccess_message_from_client_def c_string_nul)
    with r Inl show ?thesis by (simp add: process_client_event_def send_message_to_client_def Let_def)
  next
    case (Inr out)
    then have p: "proccess_message_from_client (p_dict s) (d @ [CHR 0x00]) = Some (out, ''OK'' @ newline, 0)"
      using assms(2-4) by (simp add: proccess_message_from_client_def c_string_nul)
    have c: "c_string (''OK'' @ newline) = ''OK'' @ newline" by (simp add: c_string_def newline_def)
    let ?s = "send_message_to_client fd (s\<lparr>buffer := ''OK'' @ newline\<rparr>)"
    obtain buf where "send_words fd out ?s = Some (?s\<lparr>buffer := buf, sent := sent ?s @ map (\<lambda>w. (fd, ''OK: '' @ w @ newline @ [CHR 0x00])) out\<rparr>)"
      using send_words_eq [of out fd ?s] assms(5) Inr by auto
    with r p Inr c show ?thesis
      by (simp add: process_client_event_def Let_def send_message_to_client_def)
  qed
qed

lemma letters_no_nul: "letters w \<Longrightarrow> CHR 0x00 \<notin> set w"
  by (auto simp: letter_def get_char_index_def)

lemma scan_word_letters:
  assumes "letters p" "p \<noteq> []"
  shows "scan_word (c_string (p @ newline)) = Some (p, newline)"
proof -
  have "\<forall>c\<in>set p. \<not> isspace c \<and> c \<noteq> CHR 0x00"
    using assms(1) by (auto simp: letter_def get_char_index_def isspace_def)
  moreover have "c_string (p @ newline) = p @ newline"
    by (rule c_string_id) (use letters_no_nul [OF assms(1)] in \<open>auto simp: newline_def\<close>)
  ultimately show ?thesis using scan_word_show [of p newline] assms(2)
    by (simp add: newline_def isspace_def)
qed

text \<open>C5: A server that was started on a file of words answers, after any turns in which the file
  is not from the future, a prefix of letters with the ten alphabetically first words that begin
  with it, in their order and without regard to case, or with a failure when there is none.\<close>

theorem hints_are_first_words:
  assumes ls: "\<forall>l\<in>set ls. letters l \<and> length l \<le> 62"
    and s0: "new_hint_server (concat (map (\<lambda>l. l @ newline) ls)) = Inr s0"
    and ts: "timely ts" "hint_turns ts s0 = Some (Inr (), s)"
    and p: "letters p" "p \<noteq> []" "length p < 256"
  defines "H \<equiv> {u \<in> key ` set ls. prefix (key p) u}"
  shows "\<exists>s' out. process_client_event fd (Data (p @ newline)) False s = Some (Inr (), s')
    \<and> map key out = take 10 (sorted_list_of_set H)
    \<and> sent s' = sent s @ (if H = {} then [(fd, ''FAIL: There are no words with such prefix'' @ newline @ [CHR 0x00])]
        else (fd, ''OK'' @ newline @ [CHR 0x00]) # map (\<lambda>w. (fd, ''OK: '' @ w @ newline @ [CHR 0x00])) out)"
proof -
  have d: "p_dict s = p_dict s0" by (rule timely_turns [OF ts])
  note ok = new_server_ok [OF s0]
  have "accepts (p_dict s0) = key ` set ls"
    using dictionary_loaded [OF ls] ok(1) by simp
  then have H: "{u \<in> accepts (p_dict s). prefix (key p) u} = H" by (simp add: H_def d)
  note g = get_words_ok [OF ok(2) p(1,2), folded d, unfolded H]
  have len: "length (p @ newline) < MAX_BUF_SIZE" using p(3) by (simp add: newline_def MAX_BUF_SIZE_def)
  have fail: "c_string (''FAIL: '' @ trie_what NoPrefix @ newline) = ''FAIL: There are no words with such prefix'' @ newline"
    by (simp add: c_string_def newline_def trie_what_def)
  show ?thesis
  proof (cases "H = {}")
    case True
    then have "get_words p (p_dict s) = Some (Inl NoPrefix)" using g by simp
    from process_request [OF len scan_word_letters [OF p(1,2)] p(3) this, of fd] True fail show ?thesis by auto
  next
    case False
    then obtain out where out: "get_words p (p_dict s) = Some (Inr out)" "map key out = take NUM_WORDS (sorted_list_of_set H)"
      using g by auto
    have v: "\<forall>v\<in>set out. length v \<le> 62 \<and> CHR 0x00 \<notin> set v"
      using get_words_length [OF ok(2)[folded d] p(2) out(1)] letters_no_nul by blast
    from process_request [OF len scan_word_letters [OF p(1,2)] p(3) out(1), of fd] v False out(2) show ?thesis
      by (auto simp: NUM_WORDS_def)
  qed
qed

theorem hints_are_first_words_witness:
  "\<exists>s0 s' out. new_hint_server (''tab'' @ newline @ ''at'' @ newline @ ''Ann'' @ newline) = Inr s0
    \<and> process_client_event 5 (Data (''a'' @ newline)) False s0 = Some (Inr (), s')
    \<and> map key out = [[0, 13, 13], [0, 19]] \<and> sent s' = (5, ''OK'' @ newline @ [CHR 0x00]) # map (\<lambda>w. (5, ''OK: '' @ w @ newline @ [CHR 0x00])) out"
proof -
  let ?ls = "[''tab'', ''at'', ''Ann'']"
  let ?file = "concat (map (\<lambda>l. l @ newline) ?ls)"
  have ls: "\<forall>l\<in>set ?ls. letters l \<and> length l \<le> 62" by (simp add: letter_examples)
  from dictionary_loaded [OF ls] obtain s0 where s0: "new_hint_server ?file = Inr s0" "sent s0 = []"
    by (auto simp: new_hint_server_def)
  have H: "{u \<in> key ` set ?ls. prefix (key ''a'') u} = {[0, 13, 13], [0, 19]}" (is "?H = _")
    by (auto simp: letter_examples)
  have "sorted_list_of_set {[0, 13, 13], [0, 19::nat]} = [[0, 13, 13], [0, 19]]"
    using sorted_list_of_set.idem_if_sorted_distinct [of "[[0, 13, 13], [0, 19::nat]]"] by simp
  note sorted = this [folded H]
  have "timely []" "hint_turns [] s0 = Some (Inr (), s0)" "letters ''a''" "''a'' \<noteq> []" "length ''a'' < 256"
    by (simp_all add: timely_def letter_examples)
  from hints_are_first_words [OF ls s0(1) this, of 5, unfolded sorted] obtain s' out where
    r: "process_client_event 5 (Data (''a'' @ newline)) False s0 = Some (Inr (), s')"
      "map key out = take 10 [[0, 13, 13], [0, 19]]"
      "sent s' = sent s0 @ (if ?H = {} then [(5, ''FAIL: There are no words with such prefix'' @ newline @ [CHR 0x00])]
        else (5, ''OK'' @ newline @ [CHR 0x00]) # map (\<lambda>w. (5, ''OK: '' @ w @ newline @ [CHR 0x00])) out)"
    by blast
  have ne: "?H \<noteq> {}" unfolding H by simp
  have "sent s' = (5, ''OK'' @ newline @ [CHR 0x00]) # map (\<lambda>w. (5, ''OK: '' @ w @ newline @ [CHR 0x00])) out"
    unfolding r(3) s0(2) if_not_P [OF ne] by (rule append_Nil)
  moreover have "?file = ''tab'' @ newline @ ''at'' @ newline @ ''Ann'' @ newline" by simp
  moreover have "map key out = [[0, 13, 13], [0, 19]]" using r(2) by simp
  ultimately show ?thesis using s0(1) r(1) by metis
qed

text \<open>C29: A server that was started on any file, and has done any turns, executes a request of less
  than 1024 bytes whose first word is shorter than 256 without undefined behaviour: it always
  answers, with at most eleven replies of less than 128 bytes.\<close>

theorem requests_in_bounds:
  assumes "new_hint_server content = Inr s0" "hint_turns ts s0 = Some (Inr (), s)"
    and d: "length d < MAX_BUF_SIZE" "\<forall>w rest. scan_word (c_string d) = Some (w, rest) \<longrightarrow> length w < 256"
  shows "\<exists>s' rs. process_client_event fd (Data d) False s = Some (Inr (), s') \<and> sent s' = sent s @ map (Pair fd) rs
    \<and> length rs \<le> 11 \<and> (\<forall>r\<in>set rs. length r < 128)"
proof (cases "scan_word (c_string d)")
  case None
  then have "process_client_event fd (Data d) False s = Some (Inr (), s\<lparr>buffer := d @ [CHR 0x00]\<rparr>)"
    using d(1) by (simp add: process_client_event_def recv_message_from_client_def proccess_message_from_client_def c_string_nul)
  then show ?thesis by (intro exI [of _ "s\<lparr>buffer := d @ [CHR 0x00]\<rparr>"] exI [of _ "[]"]) simp
next
  case (Some wr)
  obtain w rest where wr: "wr = (w, rest)" by (cases wr)
  note w = Some [unfolded wr]
  have len: "length w < 256" using d(2) w by blast
  note ne = scan_word_not_Nil [OF w]
  have ok: "dict_ok (p_dict s)" by (rule hint_turns_ok [OF new_server_ok(2) [OF assms(1)] assms(2)])
  obtain r where r: "get_words w (p_dict s) = Some r" using get_words_total [OF ok ne] by blast
  have bound: "length out \<le> NUM_WORDS \<and> (\<forall>v\<in>set out. length v \<le> 62 \<and> CHR 0x00 \<notin> set v)" if "r = Inr out" for out
    using get_words_length [OF ok ne] r that letters_no_nul by blast
  let ?rs = "case r of Inl e \<Rightarrow> [c_string (''FAIL: '' @ trie_what e @ newline) @ [CHR 0x00]]
    | Inr out \<Rightarrow> (''OK'' @ newline @ [CHR 0x00]) # map (\<lambda>v. ''OK: '' @ v @ newline @ [CHR 0x00]) out"
  obtain s' where s': "process_client_event fd (Data d) False s = Some (Inr (), s')" "sent s' = sent s @ map (Pair fd) ?rs"
    using process_request [OF d(1) w len r, of fd] bound by (auto split: sum.splits)
  moreover have "length ?rs \<le> 11 \<and> (\<forall>r\<in>set ?rs. length r < 128)"
  proof (cases r)
    case (Inl e)
    have "length (c_string (''FAIL: '' @ trie_what e @ newline)) \<le> length (''FAIL: '' @ trie_what e @ newline)"
      unfolding c_string_def by (rule length_takeWhile_le)
    moreover have "length (''FAIL: '' @ trie_what e @ newline) \<le> 60"
      by (cases e) (simp_all add: trie_what_def newline_def)
    ultimately show ?thesis using Inl by simp
  next
    case (Inr out)
    then show ?thesis using bound [OF Inr] by (auto simp: newline_def NUM_WORDS_def)
  qed
  ultimately show ?thesis by blast
qed

theorem requests_in_bounds_witness:
  "\<exists>s0 s' rs. new_hint_server (''tab'' @ newline) = Inr s0 \<and> process_client_event 5 (Data ''a-b'') False s0 = Some (Inr (), s')
    \<and> sent s' = map (Pair 5) rs \<and> length rs \<le> 11 \<and> (\<forall>r\<in>set rs. length r < 128)"
proof -
  from dictionary_loaded [of "[''tab'']"] obtain s0 where s0: "new_hint_server (''tab'' @ newline) = Inr s0" "sent s0 = []"
    by (auto simp: new_hint_server_def letter_examples)
  have "scan_word (c_string ''a-b'') = Some (''a-b'', [])"
    by (simp add: scan_word_def c_string_def isspace_def)
  with requests_in_bounds [OF s0(1), of "[]" s0 "''a-b''" 5] s0 show ?thesis
    by (auto simp: MAX_BUF_SIZE_def)
qed

text \<open>The dictionary is never read again unless the file's time stamp is in the future:
  however the file changes, the server goes on answering from what it read at its start.\<close>

theorem dictionary_stays:
  assumes "timely ts" "hint_turns ts s = Some (r, s')"
  shows "p_dict s' = p_dict s"
  by (rule timely_turns [OF assms])

theorem dictionary_stays_witness:
  "\<exists>s'. hint_turns [(4, 9, ''new'' @ newline, [Master [5]])] \<lparr>p_dict = empty_trie, buffer = [], slave_sockets = {}, sent = [], closed = []\<rparr>
    = Some (Inr (), s') \<and> p_dict s' = empty_trie \<and> slave_sockets s' = {5}"
proof -
  let ?s = "\<lparr>p_dict = empty_trie, buffer = [], slave_sockets = {}, sent = [], closed = []\<rparr>"
  let ?ts = "[(4, 9, ''new'' @ newline, [Master [5]])]"
  have "hint_turns ?ts ?s = Some (Inr (), process_master_event [5] ?s)"
    by (simp add: hint_turn_def process_event_def)
  with dictionary_stays [of ?ts ?s "Inr ()"] show ?thesis by (simp add: timely_def)
qed

section \<open>The destructor\<close>

lemma destroy_trie_ok:
  assumes "new_trie content = (Inr (), t)"
  shows "\<exists>freed. destroy_trie t = Some freed \<and> distinct freed \<and> set freed = {..<length t}"
proof -
  have inv: "trie_inv t" using new_trie_ok [OF assms] by (simp add: dict_ok_def)
  have con: "connected t"
    by (rule load_connected [OF assms [unfolded new_trie_def]])
      (use empty_trie_inv alive_empty connected_empty in auto)
  have head: "idxs []" "walk t 0 [] = Some 0" by simp_all
  have "destroy_loop t [] [] fr = Some fr" for fr by (simp add: destroy_loop.simps)
  then have "destroy_trie t = Some (post t 0)"
    using free_node [OF inv head] unfolding free_ok_def destroy_trie_def by simp
  moreover have "set (post t 0) = {..<length t}"
    using con set_post [OF inv trie_inv_head [OF inv]] walk_range [OF inv trie_inv_head [OF inv]]
    unfolding connected_def by blast
  ultimately show ?thesis using distinct_post [OF inv head] by blast
qed

text \<open>C31: The destructor of a dictionary that was read from a file ends, reads no node that it has
  deleted, and deletes every node exactly once.\<close>

theorem destructor_frees_once:
  assumes "new_trie content = (Inr (), t)"
  shows "\<exists>freed. destroy_trie t = Some freed \<and> distinct freed \<and> set freed = {..<length t}"
  by (rule destroy_trie_ok [OF assms])

theorem destructor_frees_once_witness:
  "\<exists>t freed. new_trie (''at'' @ newline @ ''tab'' @ newline) = (Inr (), t) \<and> accepts t = {[0, 19], [19, 0, 1]}
     \<and> destroy_trie t = Some freed \<and> distinct freed \<and> set freed = {..<length t}"
proof -
  obtain t where t: "new_trie (''at'' @ newline @ ''tab'' @ newline) = (Inr (), t)" "accepts t = {[0, 19], [19, 0, 1]}"
    using dictionary_loaded [of "[''at'', ''tab'']"] by (auto simp: letter_examples)
  with destructor_frees_once [OF t(1)] show ?thesis by blast
qed

end
