(* ===== verification/Hint_Life.thy ===== *)
theory Hint_Life imports Hint_Props Server_Life begin

text \<open>
  The hint server of p7 from the start of its main function to the end (p7/Server.cpp, main.cpp): the
  constructor reads the dictionary and opens the socket, \<open>start\<close> runs until something is thrown, and
  the destructor closes the sockets and deletes the dictionary. The handlers of Hint_Server are given
  again with the results of \<open>epoll_ctl\<close>; \<open>epoll_wait\<close> fails after the last turn.
\<close>

section \<open>The event loop with failing calls\<close>

text \<open>The set holds the socket that was accepted and not watched.\<close>

definition disconnect_client_ctl :: "ctl \<Rightarrow> int \<Rightarrow> hint_server \<Rightarrow> (hint_exception, unit, hint_server) outcome" where
  "disconnect_client_ctl ctl fd s =
     (if ctl fd = -1 then (Inl hint_exception.System_Error, s) else (Inr (), disconnect_client fd s))"

definition recv_message_ctl :: "ctl \<Rightarrow> int \<Rightarrow> recv_result \<Rightarrow> hint_server \<Rightarrow> (hint_exception, bool, hint_server) outcome option" where
  "recv_message_ctl ctl fd res s = (case res of
      Data d \<Rightarrow> (if length d < MAX_BUF_SIZE then Some (Inr True, s\<lparr>buffer := d @ [CHR 0x00]\<rparr>) else None)
    | Closed \<Rightarrow> Some (case disconnect_client_ctl ctl fd s of (Inl e, s1) \<Rightarrow> (Inl e, s1) | (Inr _, s1) \<Rightarrow> (Inr False, s1))
    | Recv_Error \<Rightarrow> Some (Inl hint_exception.System_Error, s))"

definition process_client_event_ctl ::
    "ctl \<Rightarrow> int \<Rightarrow> recv_result \<Rightarrow> bool \<Rightarrow> hint_server \<Rightarrow> (hint_exception, unit, hint_server) outcome option" where
  "process_client_event_ctl ctl fd res hup s =
     (case recv_message_ctl ctl fd res s of
        None \<Rightarrow> None
      | Some (Inl e, s1) \<Rightarrow> Some (Inl e, s1)
      | Some (Inr False, s1) \<Rightarrow> Some (Inr (), s1)
      | Some (Inr True, s1) \<Rightarrow>
         (case proccess_message_from_client (p_dict s1) (buffer s1) of
            None \<Rightarrow> None
          | Some (words, buf, err) \<Rightarrow>
             (let s2 = s1\<lparr>buffer := buf\<rparr> in
              (case (if err = 0 then send_words fd words (send_message_to_client fd s2)
                     else if err = 1 then Some (send_message_to_client fd s2) else Some s2) of
                 None \<Rightarrow> None
               | Some s3 \<Rightarrow> Some (if hup then disconnect_client_ctl ctl fd s3 else (Inr (), s3))))))"

fun process_master_event_ctl :: "ctl \<Rightarrow> int list \<Rightarrow> hint_server \<Rightarrow> (hint_exception, unit, hint_server \<times> int set) outcome" where
  "process_master_event_ctl ctl [] s = (Inr (), s, {})"
| "process_master_event_ctl ctl (fd # fds) s =
     (if fd > 0 \<and> ctl fd = -1 then (Inl hint_exception.System_Error, s, {fd})
      else process_master_event_ctl ctl fds
        (if fd > 0 then s\<lparr>slave_sockets := insert fd (slave_sockets s),
                         sent := sent s @ [(fd, ''Welcome!'' @ newline)]\<rparr> else s))"

definition process_event_ctl :: "event \<times> ctl \<Rightarrow> hint_server \<Rightarrow> (hint_exception, unit, hint_server \<times> int set) outcome option" where
  "process_event_ctl e s = (case e of
      (Master fds, ctl) \<Rightarrow> Some (process_master_event_ctl ctl fds s)
    | (Client fd res hup, ctl) \<Rightarrow> map_option (\<lambda>(x, s'). (x, s', {})) (process_client_event_ctl ctl fd res hup s))"

fun process_events_ctl :: "(event \<times> ctl) list \<Rightarrow> hint_server \<Rightarrow> (hint_exception, unit, hint_server \<times> int set) outcome option" where
  "process_events_ctl [] s = Some (Inr (), s, {})"
| "process_events_ctl (e # es) s = (case process_event_ctl e s of
      Some (Inr _, s', _) \<Rightarrow> process_events_ctl es s' | x \<Rightarrow> x)"

definition hint_turn_ctl :: "int \<Rightarrow> int \<Rightarrow> string \<Rightarrow> (event \<times> ctl) list \<Rightarrow> hint_server
    \<Rightarrow> (hint_exception, unit, hint_server \<times> int set) outcome option" where
  "hint_turn_ctl st_mtime now content es s =
     (if st_mtime > now then
        (case new_trie content of
           (Inl e, t) \<Rightarrow> Some (Inl (Trie_Error e), s, {})
         | (Inr _, t) \<Rightarrow> process_events_ctl es (s\<lparr>p_dict := t\<rparr>))
      else process_events_ctl es s)"

fun hint_turns_ctl :: "(int \<times> int \<times> string \<times> (event \<times> ctl) list) list \<Rightarrow> hint_server
    \<Rightarrow> (hint_exception, unit, hint_server \<times> int set) outcome option" where
  "hint_turns_ctl [] s = Some (Inr (), s, {})"
| "hint_turns_ctl ((st_mtime, now, content, es) # ts) s = (case hint_turn_ctl st_mtime now content es s of
      Some (Inr _, s1, _) \<Rightarrow> hint_turns_ctl ts s1 | x \<Rightarrow> x)"

text \<open>Turns that throw nothing are those of Hint_Server.\<close>

lemma hint_client_event_ctl_ok:
  "process_client_event_ctl ctl fd res hup s = Some (Inr (), s') \<Longrightarrow> process_client_event fd res hup s = Some (Inr (), s')"
  by (cases res) (auto simp: process_client_event_ctl_def process_client_event_def recv_message_ctl_def
      recv_message_from_client_def disconnect_client_ctl_def Let_def split: option.splits if_splits)

lemma hint_master_event_ctl_ok:
  "process_master_event_ctl ctl fds s = (Inr (), s', stray) \<Longrightarrow> s' = process_master_event fds s \<and> stray = {}"
  by (induction ctl fds s rule: process_master_event_ctl.induct) (auto split: if_splits)

lemma hint_process_events_ctl_ok:
  "process_events_ctl es s = Some (Inr (), s', stray) \<Longrightarrow> process_events (map fst es) s = Some (Inr (), s') \<and> stray = {}"
proof (induction es s rule: process_events_ctl.induct)
  case (2 e es s)
  then show ?case
    by (auto simp: process_event_ctl_def process_event_def dest!: hint_client_event_ctl_ok dest: hint_master_event_ctl_ok
        split: option.splits sum.splits prod.splits event.splits)
qed simp

lemma hint_turns_ctl_ok:
  "hint_turns_ctl ts s = Some (Inr (), s', stray) \<Longrightarrow>
     hint_turns (map (\<lambda>(m, now, c, es). (m, now, c, map fst es)) ts) s = Some (Inr (), s') \<and> stray = {}"
  by (induction ts s rule: hint_turns_ctl.induct)
    (auto simp: hint_turn_ctl_def hint_turn_def dest!: hint_process_events_ctl_ok split: option.splits sum.splits prod.splits if_splits)

text \<open>The dictionary does not change while events are handled, whatever is thrown.\<close>

lemma hint_client_event_ctl_frame: "process_client_event_ctl ctl fd res hup s = Some (x, s') \<Longrightarrow> p_dict s' = p_dict s"
  by (cases res) (auto simp: process_client_event_ctl_def recv_message_ctl_def disconnect_client_ctl_def Let_def frame
      dest!: send_words_frame split: option.splits if_splits)

lemma hint_master_event_ctl_frame: "process_master_event_ctl ctl fds s = (x, s', stray) \<Longrightarrow> p_dict s' = p_dict s"
  by (induction ctl fds s rule: process_master_event_ctl.induct) (auto split: if_splits)

lemma hint_process_events_ctl_frame: "process_events_ctl es s = Some (x, s', stray) \<Longrightarrow> p_dict s' = p_dict s"
proof (induction es s rule: process_events_ctl.induct)
  case (2 e es s)
  then show ?case
    by (auto simp: process_event_ctl_def dest!: hint_client_event_ctl_frame dest: hint_master_event_ctl_frame
        split: option.splits sum.splits prod.splits event.splits)
qed simp

section \<open>The object and main\<close>

type_synonym hint_object = "sockets \<times> hint_server"

definition hint_construct :: "string \<Rightarrow> results \<Rightarrow> sys \<Rightarrow> (trie_error thrown, hint_object, sys) outcome" where
  "hint_construct content r n = (case new_hint_server content of
      Inl e \<Rightarrow> (Inl (Other e), n)
    | Inr s \<Rightarrow> (case open_server r n of (Inl e, n1) \<Rightarrow> (Inl e, n1) | (Inr p, n1) \<Rightarrow> (Inr (p, s), n1)))"

definition hint_start ::
    "(int \<times> int \<times> string \<times> (event \<times> ctl) list) list \<Rightarrow> hint_object \<Rightarrow> sys \<Rightarrow> (trie_error thrown \<times> hint_object \<times> sys) option" where
  "hint_start ts obj n = (case hint_turns_ctl ts (snd obj) of
      None \<Rightarrow> None
    | Some (res, s, stray) \<Rightarrow> Some (case res of Inl (Trie_Error e) \<Rightarrow> Other e | _ \<Rightarrow> System_Error, (fst obj, s),
        with_clients (master_fd (fst obj)) (slave_sockets s) stray n))"

definition hint_destroy :: "int \<Rightarrow> hint_object \<Rightarrow> sys \<Rightarrow> sys ended option" where
  "hint_destroy r_del obj n = (case close_server r_del (slave_sockets (snd obj)) (fst obj) n of
      Some (Returns n1) \<Rightarrow> (case destroy_trie (p_dict (snd obj)) of None \<Rightarrow> None | Some _ \<Rightarrow> Some (Returns n1))
    | e \<Rightarrow> e)"

text \<open>The loop alone, and what the destructor does after the sockets.\<close>

definition hint_run :: "(int \<times> int \<times> string \<times> (event \<times> ctl) list) list \<Rightarrow> hint_server
    \<Rightarrow> (trie_error thrown \<times> hint_server \<times> int set) option" where
  "hint_run ts s = map_option (\<lambda>(res, s', stray).
     (case res of Inl (Trie_Error e) \<Rightarrow> Other e | _ \<Rightarrow> System_Error, s', stray)) (hint_turns_ctl ts s)"

definition hint_finish :: "hint_server \<Rightarrow> sys \<Rightarrow> sys ended option" where
  "hint_finish s n = (case destroy_trie (p_dict s) of None \<Rightarrow> None | Some _ \<Rightarrow> Some (Returns n))"

interpretation hint: server_life "new_hint_server content" "\<lambda>n. n" "hint_run ts" slave_sockets hint_finish
    "hint_construct content" "hint_start ts" hint_destroy
  by unfold_locales (simp_all add: hint_construct_def hint_start_def hint_run_def hint_destroy_def hint_finish_def
      option.map_comp split: option.split ended.split)

definition hint_main :: "string \<Rightarrow> results \<Rightarrow> (int \<times> int \<times> string \<times> (event \<times> ctl) list) list \<Rightarrow> int \<Rightarrow> sys \<Rightarrow> sys ended option" where
  "hint_main content r ts r_del = server_main (hint_construct content r) (hint_start ts) (hint_destroy r_del)"

section \<open>The dictionary is one that was loaded\<close>

lemma turns_loaded:
  assumes "hint_turns_ctl ts s = Some (res, s', stray)" "new_trie c = (Inr (), p_dict s)"
  shows "\<exists>c'. new_trie c' = (Inr (), p_dict s')"
  using assms
proof (induction ts s arbitrary: c rule: hint_turns_ctl.induct)
  case (2 st_mtime now content es ts s)
  obtain r1 s1 stray1 where t: "hint_turn_ctl st_mtime now content es s = Some (r1, s1, stray1)"
    using "2.prems"(1) by (auto split: option.splits)
  have "\<exists>c'. new_trie c' = (Inr (), p_dict s1)"
    using t "2.prems"(2) by (auto simp: hint_turn_ctl_def dest!: hint_process_events_ctl_frame split: if_splits sum.splits prod.splits)
  with "2.IH" t "2.prems"(1) show ?case by (auto split: sum.splits)
qed auto

section \<open>How main ends\<close>

text \<open>C22: How the hint server's \<open>main\<close> ends. A word that cannot be stored terminates it. If a call of
  the constructor fails it returns with exactly the descriptors opened so far left open. Otherwise it
  runs until its loop fails; with no client connected then it gives back every node of its dictionary
  and all it had from the system, but a socket that was accepted and could not be watched, with a client
  connected the end is undefined.\<close>

theorem hint_main_ends:
  assumes "fresh_fds r n"
  shows "case new_hint_server content of
      Inl _ \<Rightarrow> hint_main content r ts r_del n = Some Terminated
    | Inr s \<Rightarrow>
       (if opens r
        then hint_main content r ts r_del n = (case hint_turns_ctl ts s of
            None \<Rightarrow> None
          | Some (Inl (Trie_Error _), _) \<Rightarrow> Some Terminated
          | Some (_, s', stray) \<Rightarrow> (if slave_sockets s' \<noteq> {} then None
              else Some (if r_del = -1 then Terminated else Returns (still_open r stray n))))
        else \<exists>n1. hint_main content r ts r_del n = Some (Returns n1) \<and> open_fds n1 = open_fds n \<union> left_open r)"
proof (cases "new_hint_server content")
  case (Inl e)
  then show ?thesis by (simp add: hint_main_def hint.main_throws)
next
  case (Inr s)
  then have dict: "new_trie content = (Inr (), p_dict s)"
    by (auto simp: new_hint_server_def split: prod.splits sum.splits)
  have fin: "hint_finish s' n' = Some (Returns n')" if "hint_turns_ctl ts s = Some (res, s', stray)" for res s' stray n'
    using turns_loaded [OF that dict] destroy_trie_ok by (fastforce simp: hint_finish_def)
  show ?thesis
  proof (cases "opens r")
    case False
    from hint.main_fails [OF Inr False] Inr False show ?thesis by (auto simp: hint_main_def)
  next
    case True
    from hint.main_runs [OF Inr True assms, of ts r_del] Inr True fin show ?thesis
      by (auto simp: hint_main_def hint_run_def split: option.split sum.split hint_exception.split)
  qed
qed

theorem hint_main_ends_witness:
  "hint_main (''at'' @ newline) \<lparr>r_socket = 3, r_bind = 0, r_listen = 0, r_epoll = 4, r_ctl = 0, r_calloc = True\<rparr>
     [(4, 9, [], [(Master [7, -1], \<lambda>_. -1)])] 0 \<lparr>open_fds = {0, 1, 2}, listening = {}, watched = {}, arrays = 0\<rparr>
   = Some (Returns \<lparr>open_fds = {0, 1, 2, 7}, listening = {}, watched = {}, arrays = 0\<rparr>)"
proof -
  let ?r = "\<lparr>r_socket = 3, r_bind = 0, r_listen = 0, r_epoll = 4, r_ctl = 0, r_calloc = True\<rparr>"
  let ?n = "\<lparr>open_fds = {0, 1, 2}, listening = {}, watched = {}, arrays = 0\<rparr>"
  let ?ts = "[(4, 9, [], [(Master [7, -1], \<lambda>_. -1)])]"
  have f: "fresh_fds ?r ?n" by (simp add: fresh_fds_def)
  obtain t where "new_trie (''at'' @ newline) = (Inr (), t)"
    using dictionary_loaded [of "[''at'']"] by (auto simp: letter_examples)
  then obtain s where s: "new_hint_server (''at'' @ newline) = Inr s" "slave_sockets s = {}" by (simp add: new_hint_server_def)
  moreover have "hint_turns_ctl ?ts s = Some (Inl hint_exception.System_Error, s, {7})"
    by (simp add: hint_turn_ctl_def process_event_ctl_def)
  moreover have "{0, 1, 2} \<union> ({7} - {4, 3}) = {0, 1, 2, 7 :: int}" by auto
  ultimately show ?thesis using hint_main_ends [OF f, of "''at'' @ newline" ?ts 0] by (simp add: opens_def still_open_def insert_commute)
qed

end
