(* ===== verification/Config_Parser.thy ===== *)
theory Config_Parser imports Scan begin

text \<open>
  The configuration of the proxy (p3/config_parser.cpp): a line gives a port and the servers
  behind it. Streams are the text that is left; \<open>std::getline\<close> takes the text before a
  delimiter and sets eofbit when there is none left; on a stream with eofbit it does nothing
  and the string keeps its old value. \<open>std::stoi\<close> throws.
\<close>

section \<open>The standard library\<close>

datatype parse_error = Invalid_Argument | Out_Of_Range

type_synonym uint16 = "16 word"

definition stoi :: "string \<Rightarrow> parse_error + int" where
  "stoi s =
     (let s1 = dropWhile isspace s;
          neg = (s1 \<noteq> [] \<and> hd s1 = CHR ''-'');
          s2 = (if s1 \<noteq> [] \<and> (hd s1 = CHR ''-'' \<or> hd s1 = CHR ''+'') then tl s1 else s1);
          ds = takeWhile isdigit s2;
          v = (if neg then - int (digits_val ds) else int (digits_val ds))
      in if ds = [] then Inl Invalid_Argument
         else if v < - (2 ^ 31) \<or> 2 ^ 31 \<le> v then Inl Out_Of_Range else Inr v)"

text \<open>The text read, the text left and eofbit.\<close>

definition getline :: "char \<Rightarrow> string \<Rightarrow> string \<times> string \<times> bool" where
  "getline d s = (takeWhile (\<lambda>c. c \<noteq> d) s, tl (dropWhile (\<lambda>c. c \<noteq> d) s), d \<notin> set s)"

lemma getline_shorter: "getline d s = (l, r, False) \<Longrightarrow> length r < length s"
proof -
  assume "getline d s = (l, r, False)"
  then have "r = tl (dropWhile (\<lambda>c. c \<noteq> d) s)" "d \<in> set s" by (simp_all add: getline_def)
  moreover have "length (dropWhile (\<lambda>c. c \<noteq> d) s) \<le> length s" by (rule length_dropWhile_le)
  ultimately show ?thesis by (cases s) auto
qed

lemma getline_found [simp]: "d \<notin> set l \<Longrightarrow> getline d (l @ d # r) = (l, r, False)"
  by (induction l) (auto simp: getline_def)

lemma getline_eof [simp]: "d \<notin> set l \<Longrightarrow> getline d l = (l, [], True)"
  by (induction l) (auto simp: getline_def)

section \<open>The parser\<close>

record config =
  config_map :: "uint16 \<Rightarrow> (string \<times> uint16) list option"
  ports :: "uint16 list"

definition new_config :: config where
  "new_config = \<lparr>config_map = (\<lambda>_. None), ports = []\<rparr>"

text \<open>\<open>config_map[port]\<close> makes an empty entry when there is none.\<close>

definition config_at :: "config \<Rightarrow> uint16 \<Rightarrow> (string \<times> uint16) list" where
  "config_at c port = (case config_map c port of None \<Rightarrow> [] | Some v \<Rightarrow> v)"

definition push_server :: "uint16 \<Rightarrow> string \<times> uint16 \<Rightarrow> config \<Rightarrow> config" where
  "push_server port addr c = c\<lparr>config_map := (config_map c)(port \<mapsto> config_at c port @ [addr])\<rparr>"

text \<open>The loop over the servers of a line, with the \<open>str_port\<close> it starts with.\<close>

function servers_loop :: "uint16 \<Rightarrow> string \<Rightarrow> string \<Rightarrow> config \<Rightarrow> (parse_error, unit, config) outcome" where
  "servers_loop port streamline str_port c =
     (case getline (CHR '':'') streamline of (str_ip, rest, eof) \<Rightarrow>
        (case (if eof then (str_port, rest, True) else getline (CHR '','') rest) of (str_port', rest', eof') \<Rightarrow>
           (case stoi str_port' of
              Inl e \<Rightarrow> (Inl e, c)
            | Inr v \<Rightarrow> (let c' = push_server port (str_ip, word_of_int v) c
                in if eof' then (Inr (), c') else servers_loop port rest' str_port' c'))))"
  by pat_completeness auto
termination
proof (relation "measure (\<lambda>(port, s, p, c). length s)", goal_cases)
  case (2 port s p c ip x rest eof pt y rest' eof' v c')
  then have "getline CHR '':'' s = (ip, rest, False)" "getline CHR '','' rest = (pt, rest', False)"
    by (auto split: if_splits)
  then show ?case using getline_shorter [of "CHR '':''" s ip rest] getline_shorter [of "CHR '',''" rest pt rest'] by simp
qed simp

declare servers_loop.simps [simp del]

definition parse_line :: "string \<Rightarrow> config \<Rightarrow> (parse_error, unit, config) outcome" where
  "parse_line str_line c =
     (case getline (CHR '','') str_line of (str_port, streamline, eof) \<Rightarrow>
        (case stoi str_port of
           Inl e \<Rightarrow> (Inl e, c)
         | Inr v \<Rightarrow>
            (let port = word_of_int v;
                 c1 = c\<lparr>ports := ports c @ [port], config_map := (config_map c)(port \<mapsto> [])\<rparr>
             in if eof then (Inr (), c1) else servers_loop port streamline str_port c1)))"

function parse_config_file :: "string \<Rightarrow> config \<Rightarrow> (parse_error, unit, config) outcome" where
  "parse_config_file text c =
     (case getline (CHR 0x0A) text of (line, rest, eof) \<Rightarrow>
        (let str_line = filter (\<lambda>x. \<not> isspace x) line;
             r = (if str_line = [] then (Inr (), c) else parse_line str_line c)
         in case r of
              (Inl e, c') \<Rightarrow> (Inl e, c')
            | (Inr _, c') \<Rightarrow> if eof then (Inr (), c') else parse_config_file rest c'))"
  by pat_completeness auto
termination
  by (relation "measure (\<lambda>(text, c). length text)") (auto dest!: getline_shorter [OF sym])

declare parse_config_file.simps [simp del]

text \<open>The constructor: there is no file, or its text is parsed. A string is thrown, or an
  exception of \<open>stoi\<close>.\<close>

definition parser_config_file :: "string \<Rightarrow> string option \<Rightarrow> (string + parse_error) + config" where
  "parser_config_file f_name file = (case file of
      None \<Rightarrow> Inl (Inl (''There is no config file with such name: '' @ [CHR 0x22] @ f_name @ [CHR 0x22] @ ''!'' @ newline))
    | Some text \<Rightarrow> (case parse_config_file text new_config of
        (Inl e, _) \<Rightarrow> Inl (Inr e) | (Inr _, c) \<Rightarrow> Inr c))"

section \<open>Numbers\<close>

lemma stoi_show: "n < 2 ^ 31 \<Longrightarrow> stoi (show_nat n) = Inr (int n)"
proof -
  assume n: "n < 2 ^ 31"
  obtain c cs where c: "show_nat n = c # cs" "isdigit c"
    using hd_show_nat [of n] by (cases "show_nat n") auto
  then have h: "dropWhile isspace (show_nat n) = show_nat n" "hd (show_nat n) \<noteq> CHR ''-''" "hd (show_nat n) \<noteq> CHR ''+''"
    by (auto simp: isdigit_def)
  have d: "takeWhile isdigit (show_nat n) = show_nat n"
    using takeWhile_digits(1) [of "show_nat n" "[]"] isdigit_show_nat by simp
  have "int n < 2 ^ 31" using n by simp
  then show ?thesis unfolding stoi_def h(1) using h(2,3) by (simp add: Let_def d)
qed

lemma show_nat_chars: "isspace c \<or> c = CHR '','' \<or> c = CHR '':'' \<or> c = CHR 0x0A \<Longrightarrow> c \<notin> set (show_nat n)"
  using isdigit_show_nat [of n] by (auto simp: isdigit_def isspace_def)

section \<open>Printed configurations\<close>

text \<open>An address as it is written: no white space and no colon.\<close>

definition ip_ok :: "string \<Rightarrow> bool" where
  "ip_ok ip \<longleftrightarrow> (\<forall>c\<in>set ip. \<not> isspace c \<and> c \<noteq> CHR '':'')"

definition show_server :: "string \<times> uint16 \<Rightarrow> string" where
  "show_server s = fst s @ '':'' @ show_nat (unat (snd s))"

fun show_entry :: "uint16 \<times> (string \<times> uint16) list \<Rightarrow> string" where
  "show_entry (port, servers) = show_nat (unat port) @ concat (map (\<lambda>s. '', '' @ show_server s) servers)"

text \<open>What it stands for: the ports in order, and the last line of a port counts.\<close>

definition add_entry :: "config \<Rightarrow> uint16 \<times> (string \<times> uint16) list \<Rightarrow> config" where
  "add_entry c e = c\<lparr>ports := ports c @ [fst e], config_map := (config_map c)(fst e \<mapsto> snd e)\<rparr>"

lemma unat16: "stoi (show_nat (unat (p :: uint16))) = Inr (int (unat p))"
proof (rule stoi_show)
  have "unat p < 2 ^ 16" using unsigned_less [of p, where 'a = nat] by simp
  then show "unat p < 2 ^ 31" by simp
qed

lemma servers_loop_show:
  assumes "\<forall>s\<in>set (s # ss). ip_ok (fst s)"
  shows "servers_loop port (show_server s @ concat (map (\<lambda>s. '','' @ show_server s) ss)) str_port c
    = (Inr (), fold (push_server port) (s # ss) c)"
  using assms
proof (induction ss arbitrary: s str_port c)
  case Nil
  obtain ip p where s: "s = (ip, p)" by (cases s)
  have ip: "CHR '':'' \<notin> set ip" using Nil by (auto simp: ip_ok_def s)
  have "getline CHR '':'' (ip @ '':'' @ show_nat (unat p)) = (ip, show_nat (unat p), False)"
    using ip by simp
  moreover have "getline CHR '','' (show_nat (unat p)) = (show_nat (unat p), [], True)"
    by (rule getline_eof) (rule show_nat_chars, simp)
  ultimately show ?case by (subst servers_loop.simps) (simp add: s show_server_def unat16)
next
  case (Cons s' ss)
  obtain ip p where s: "s = (ip, p)" by (cases s)
  have ip: "CHR '':'' \<notin> set ip" using Cons.prems by (auto simp: ip_ok_def s)
  let ?rest = "show_server s' @ concat (map (\<lambda>s. '','' @ show_server s) ss)"
  have "getline CHR '':'' (ip @ '':'' @ show_nat (unat p) @ '','' @ ?rest) = (ip, show_nat (unat p) @ '','' @ ?rest, False)"
    using ip by simp
  moreover have "getline CHR '','' (show_nat (unat p) @ '','' @ ?rest) = (show_nat (unat p), ?rest, False)"
    using getline_found [of "CHR '',''" "show_nat (unat p)" ?rest] show_nat_chars [of "CHR '',''"] by simp
  ultimately have "servers_loop port (show_server s @ concat (map (\<lambda>s. '','' @ show_server s) (s' # ss))) str_port c
      = servers_loop port ?rest (show_nat (unat p)) (push_server port s c)"
    by (subst servers_loop.simps) (simp add: s show_server_def unat16)
  with Cons show ?case by simp
qed

lemma push_servers: "config_map c port = Some v \<Longrightarrow>
    fold (push_server port) ss c = c\<lparr>config_map := (config_map c)(port \<mapsto> v @ ss)\<rparr>"
proof (induction ss arbitrary: c v)
  case Nil
  then show ?case by (simp add: fun_upd_idem)
next
  case (Cons s ss)
  have "config_map (push_server port s c) port = Some (v @ [s])"
    using Cons.prems by (simp add: push_server_def config_at_def)
  from Cons.IH [OF this] have "fold (push_server port) (s # ss) c
      = (push_server port s c)\<lparr>config_map := (config_map (push_server port s c))(port \<mapsto> (v @ [s]) @ ss)\<rparr>"
    unfolding fold_simps .
  also have "\<dots> = c\<lparr>config_map := (config_map c)(port \<mapsto> v @ s # ss)\<rparr>"
    using Cons.prems by (simp add: push_server_def config_at_def fun_upd_upd)
  finally show ?case .
qed

lemma parse_line_show:
  assumes "\<forall>s\<in>set ss. ip_ok (fst s)"
  shows "parse_line (show_nat (unat port) @ concat (map (\<lambda>s. '','' @ show_server s) ss)) c = (Inr (), add_entry c (port, ss))"
proof -
  have no: "CHR '','' \<notin> set (show_nat (unat port))" by (rule show_nat_chars) simp
  show ?thesis
  proof (cases ss)
    case Nil
    then show ?thesis using no by (simp add: parse_line_def unat16 add_entry_def)
  next
    case (Cons s ss')
    let ?c = "c\<lparr>ports := ports c @ [port], config_map := (config_map c)(port \<mapsto> [])\<rparr>"
    have "getline CHR '','' (show_nat (unat port) @ concat (map (\<lambda>s. '','' @ show_server s) ss))
        = (show_nat (unat port), show_server s @ concat (map (\<lambda>s. '','' @ show_server s) ss'), False)"
      using getline_found [OF no] by (simp add: Cons)
    then have "parse_line (show_nat (unat port) @ concat (map (\<lambda>s. '','' @ show_server s) ss)) c
        = (Inr (), fold (push_server port) ss ?c)"
      using servers_loop_show [of s ss' port] assms by (simp add: parse_line_def unat16 Cons)
    also have "\<dots> = (Inr (), add_entry c (port, ss))"
      by (subst push_servers [of ?c port "[]"]) (simp_all add: add_entry_def)
    finally show ?thesis .
  qed
qed

section \<open>White space\<close>

text \<open>Lines may be indented and spaced freely.\<close>

definition squeeze :: "string \<Rightarrow> string" where
  "squeeze s = filter (\<lambda>c. c = CHR 0x0A \<or> \<not> isspace c) s"

lemma getline_squeeze:
  "getline (CHR 0x0A) s = (l, r, eof) \<Longrightarrow> getline (CHR 0x0A) (squeeze s) = (squeeze l, squeeze r, eof)"
proof (induction s arbitrary: l)
  case Nil
  then show ?case by (simp add: squeeze_def)
next
  case (Cons x s)
  then show ?case
    by (cases "x = CHR 0x0A") (auto simp: getline_def squeeze_def)
qed

lemma squeeze_filter: "filter (\<lambda>x. \<not> isspace x) (squeeze l) = filter (\<lambda>x. \<not> isspace x) l"
  by (auto simp: squeeze_def intro!: filter_cong)

lemma parse_squeeze: "parse_config_file (squeeze content) c = parse_config_file content c"
proof (induction content c rule: parse_config_file.induct)
  case (1 content c)
  obtain l r eof where g: "getline (CHR 0x0A) content = (l, r, eof)" by (cases "getline (CHR 0x0A) content") auto
  let ?l = "filter (\<lambda>x. \<not> isspace x) l"
  obtain q c' where q: "(if ?l = [] then (Inr (), c) else parse_line ?l c) = (q, c')"
    by (cases "if ?l = [] then (Inr (), c) else parse_line ?l c") blast
  have IH: "parse_config_file (squeeze r) c' = parse_config_file r c'" if "q = Inr ()" "\<not> eof"
    using 1 [OF g [symmetric] refl refl refl q [symmetric]] that g q by simp
  have "parse_config_file (squeeze content) c = (case q of Inl e \<Rightarrow> (Inl e, c') | Inr _ \<Rightarrow> if eof then (Inr (), c') else parse_config_file (squeeze r) c')"
    by (subst parse_config_file.simps) (simp only: getline_squeeze [OF g] prod.case squeeze_filter q Let_def)
  also have "\<dots> = (case q of Inl e \<Rightarrow> (Inl e, c') | Inr _ \<Rightarrow> if eof then (Inr (), c') else parse_config_file r c')"
    using IH by (cases q) auto
  also have "\<dots> = parse_config_file content c"
    by (subst (2) parse_config_file.simps) (simp only: g prod.case q Let_def)
  finally show ?case .
qed

end
