(* ===== verification/Proxy.thy ===== *)
theory Proxy imports Config_Parser begin

text \<open>
  The proxy of p3 (p3/proxy.h, proxy.cpp). Boost.Asio is outside the source: an asynchronous
  operation is a value put into \<open>pending\<close>, and the library completes a pending operation by
  calling its handler, in any order. What is relied on: a receive that completes without an
  error delivers between 1 and 1024 bytes, a send transfers some part of what it was given. An
  error is its number, 0 for success. Not under src/ either: \<open>rand()\<close>, and what the
  uninitialised buffers of a new connection hold. The servers' addresses are taken to be valid:
  \<open>from_string\<close> throws on others, out of \<open>start\<close> and of \<open>run\<close>. Closing the sockets is only
  \<open>is_active\<close>; the theorems are about connections that are active.
\<close>

section \<open>A connection\<close>

definition BUF_SIZE :: nat where "BUF_SIZE = 1024"

datatype async_op = Connect | Read_Server | Read_Client | Write_Server nat | Write_Client nat

text \<open>The last four fields are not in the source: they record what went over the sockets.\<close>

record connection =
  server_buffer :: string
  client_buffer :: string
  is_active :: bool
  pending :: "async_op list"
  from_client :: string
  to_server :: string
  from_server :: string
  to_client :: string

definition instance_of :: "string \<Rightarrow> string \<Rightarrow> connection" where
  "instance_of sb cb = \<lparr>server_buffer = sb, client_buffer = cb, is_active = False, pending = [],
     from_client = [], to_server = [], from_server = [], to_client = []\<rparr>"

definition do_read_from_server :: "connection \<Rightarrow> connection" where
  "do_read_from_server c = c\<lparr>pending := pending c @ [Read_Server]\<rparr>"

definition do_read_from_client :: "connection \<Rightarrow> connection" where
  "do_read_from_client c = c\<lparr>pending := pending c @ [Read_Client]\<rparr>"

definition do_write_to_server :: "nat \<Rightarrow> connection \<Rightarrow> connection" where
  "do_write_to_server n c = c\<lparr>pending := pending c @ [Write_Server n]\<rparr>"

definition do_write_to_client :: "nat \<Rightarrow> connection \<Rightarrow> connection" where
  "do_write_to_client n c = c\<lparr>pending := pending c @ [Write_Client n]\<rparr>"

definition start :: "connection \<Rightarrow> connection" where
  "start c = c\<lparr>is_active := True, pending := pending c @ [Connect]\<rparr>"

text \<open>\<open>strlen\<close> of a buffer without a NUL reads beyond it: \<open>None\<close>.\<close>

definition strlen :: "string \<Rightarrow> nat option" where
  "strlen buf = (if CHR 0x00 \<in> set buf then Some (length (takeWhile (\<lambda>x. x \<noteq> CHR 0x00) buf)) else None)"

definition flush :: "(nat \<Rightarrow> connection \<Rightarrow> connection) \<Rightarrow> string \<Rightarrow> connection \<Rightarrow> connection option" where
  "flush do_write buf c = (if buf ! 0 \<noteq> CHR 0x00 then map_option (\<lambda>n. do_write n c) (strlen buf) else Some c)"

definition stop :: "nat \<Rightarrow> connection \<Rightarrow> connection option" where
  "stop error c =
     (case (if error = 2
            then (case flush do_write_to_client (server_buffer c) c of
                    None \<Rightarrow> None | Some c1 \<Rightarrow> flush do_write_to_server (client_buffer c) c1)
            else Some c) of
        None \<Rightarrow> None
      | Some c2 \<Rightarrow> Some (if is_active c2 then c2\<lparr>is_active := False\<rparr> else c2))"

definition handle_connect_server :: "nat \<Rightarrow> connection \<Rightarrow> connection option" where
  "handle_connect_server error c =
     (if error \<noteq> 0 then stop error c else Some (do_read_from_server (do_read_from_client c)))"

definition handle_read_from_server :: "nat \<Rightarrow> nat \<Rightarrow> connection \<Rightarrow> connection option" where
  "handle_read_from_server error n c =
     (if error \<noteq> 0 then stop error c
      else if n \<noteq> 0 then Some (do_write_to_client n c) else Some (do_read_from_client c))"

definition handle_write_to_server :: "nat \<Rightarrow> connection \<Rightarrow> connection option" where
  "handle_write_to_server error c =
     (if error \<noteq> 0 then stop error c
      else Some (do_read_from_client (c\<lparr>client_buffer := replicate BUF_SIZE CHR 0x00\<rparr>)))"

definition handle_read_from_client :: "nat \<Rightarrow> nat \<Rightarrow> connection \<Rightarrow> connection option" where
  "handle_read_from_client error n c =
     (if error \<noteq> 0 then stop error c
      else if n \<noteq> 0 then Some (do_write_to_server n c) else Some (do_read_from_server c))"

definition handle_write_to_client :: "nat \<Rightarrow> connection \<Rightarrow> connection option" where
  "handle_write_to_client error c =
     (if error \<noteq> 0 then stop error c
      else Some (do_read_from_server (c\<lparr>server_buffer := replicate BUF_SIZE CHR 0x00\<rparr>)))"

section \<open>Completions\<close>

text \<open>What the library reports for an operation: the error, the bytes received, or how many of
  the bytes to send were sent.\<close>

datatype completion = Failed nat | Connected | Received string | Sent nat

definition received :: "string \<Rightarrow> string \<Rightarrow> string" where
  "received d buf = d @ drop (length d) buf"

fun complete :: "async_op \<Rightarrow> completion \<Rightarrow> connection \<Rightarrow> connection option" where
  "complete Connect (Failed e) c = handle_connect_server e c"
| "complete Connect Connected c = handle_connect_server 0 c"
| "complete Read_Server (Failed e) c = handle_read_from_server e 0 c"
| "complete Read_Server (Received d) c = handle_read_from_server 0 (length d)
     (c\<lparr>server_buffer := received d (server_buffer c), from_server := from_server c @ d\<rparr>)"
| "complete Read_Client (Failed e) c = handle_read_from_client e 0 c"
| "complete Read_Client (Received d) c = handle_read_from_client 0 (length d)
     (c\<lparr>client_buffer := received d (client_buffer c), from_client := from_client c @ d\<rparr>)"
| "complete (Write_Server n) (Failed e) c = handle_write_to_server e c"
| "complete (Write_Server n) (Sent k) c = handle_write_to_server 0 (c\<lparr>to_server := to_server c @ take k (client_buffer c)\<rparr>)"
| "complete (Write_Client n) (Failed e) c = handle_write_to_client e c"
| "complete (Write_Client n) (Sent k) c = handle_write_to_client 0 (c\<lparr>to_client := to_client c @ take k (server_buffer c)\<rparr>)"
| "complete _ _ c = None"

text \<open>The documented results. \<open>whole\<close> says that every send transfers all it was given, which
  \<open>async_send\<close> does not promise.\<close>

fun legal :: "bool \<Rightarrow> async_op \<Rightarrow> completion \<Rightarrow> bool" where
  "legal whole _ (Failed e) = (e \<noteq> 0)"
| "legal whole Connect Connected = True"
| "legal whole Read_Server (Received d) = (d \<noteq> [] \<and> length d \<le> BUF_SIZE)"
| "legal whole Read_Client (Received d) = (d \<noteq> [] \<and> length d \<le> BUF_SIZE)"
| "legal whole (Write_Server n) (Sent k) = (k \<le> n \<and> (whole \<longrightarrow> k = n))"
| "legal whole (Write_Client n) (Sent k) = (k \<le> n \<and> (whole \<longrightarrow> k = n))"
| "legal _ _ _ = False"

inductive conn_step :: "bool \<Rightarrow> connection \<Rightarrow> connection \<Rightarrow> bool" for whole where
  completes: "op \<in> set (pending c) \<Longrightarrow> legal whole op r \<Longrightarrow>
     complete op r (c\<lparr>pending := remove1 op (pending c)\<rparr>) = Some c' \<Longrightarrow> conn_step whole c c'"

inductive_cases conn_stepE: "conn_step whole c c'"

definition conn_reachable :: "bool \<Rightarrow> string \<Rightarrow> string \<Rightarrow> connection \<Rightarrow> bool" where
  "conn_reachable whole sb cb c \<longleftrightarrow> (conn_step whole)\<^sup>*\<^sup>* (start (instance_of sb cb)) c"

section \<open>The listener\<close>

text \<open>\<open>handle_accept\<close>, with the value \<open>r\<close> of \<open>rand()\<close> and the connection whose client
  socket was accepted: the server it is started for, and the connection. The error is not
  looked at. Without servers the remainder by zero is undefined. The listener then accepts
  again, with a new connection.\<close>

definition handle_accept :: "nat \<Rightarrow> (string \<times> uint16) list \<Rightarrow> nat \<Rightarrow> connection \<Rightarrow> ((string \<times> uint16) \<times> connection) option" where
  "handle_accept r servers err c =
     (if length servers = 0 then None
      else (let addr = servers ! (r mod length servers) in Some (addr, start c)))"

text \<open>The constructor of \<open>Proxy\<close>: a listener for every port, with the servers of that port.\<close>

definition new_proxy :: "config \<Rightarrow> (uint16 \<times> (string \<times> uint16) list) list" where
  "new_proxy c = map (\<lambda>port. (port, config_at c port)) (ports c)"

section \<open>Invariant\<close>

lemmas do_defs = do_read_from_server_def do_read_from_client_def do_write_to_server_def do_write_to_client_def
lemmas handler_defs = handle_connect_server_def handle_read_from_server_def handle_write_to_server_def
  handle_read_from_client_def handle_write_to_client_def

lemma flush_inactive: "flush do_write_to_client buf c = Some c' \<Longrightarrow> is_active c' = is_active c"
    "flush do_write_to_server buf c = Some c' \<Longrightarrow> is_active c' = is_active c"
  by (auto simp: flush_def do_defs split: if_splits)

lemma stop_inactive: "stop e c = Some c' \<Longrightarrow> \<not> is_active c'"
  by (auto simp: stop_def split: option.splits if_splits)

text \<open>The upstream half of an active connection: one operation, and the bytes that are on their
  way are at the start of the buffer.\<close>

fun upstream :: "async_op \<Rightarrow> bool" where
  "upstream Read_Client = True" | "upstream (Write_Server n) = True" | "upstream _ = False"

fun in_flight :: "async_op \<Rightarrow> string \<Rightarrow> string" where
  "in_flight (Write_Server n) buf = take n buf" | "in_flight (Write_Client n) buf = take n buf" | "in_flight _ buf = []"

fun op_size :: "async_op \<Rightarrow> nat" where
  "op_size (Write_Server n) = n" | "op_size (Write_Client n) = n" | "op_size _ = 0"

definition relay_ok :: "bool \<Rightarrow> connection \<Rightarrow> bool" where
  "relay_ok whole c \<longleftrightarrow> (\<exists>up down. set (pending c) = {up, down} \<and> length (pending c) = 2
     \<and> upstream up \<and> \<not> upstream down \<and> down \<noteq> Connect \<and> op_size up \<le> BUF_SIZE \<and> op_size down \<le> BUF_SIZE
     \<and> (whole \<longrightarrow> from_client c = to_server c @ in_flight up (client_buffer c)
       \<and> from_server c = to_client c @ in_flight down (server_buffer c)))"

definition connecting :: "connection \<Rightarrow> bool" where
  "connecting c \<longleftrightarrow> pending c = [Connect] \<and> from_client c = [] \<and> from_server c = [] \<and> to_server c = [] \<and> to_client c = []"

definition conn_inv :: "bool \<Rightarrow> connection \<Rightarrow> bool" where
  "conn_inv whole c \<longleftrightarrow> (is_active c \<longrightarrow> connecting c \<or> relay_ok whole c)"

lemma conn_inv_start: "conn_inv whole (start (instance_of sb cb))"
  by (simp add: conn_inv_def connecting_def start_def instance_of_def)

lemma failed_inactive: "complete op (Failed e) c = Some c' \<Longrightarrow> e \<noteq> 0 \<Longrightarrow> \<not> is_active c'"
  by (cases op) (auto simp: handler_defs dest: stop_inactive)

lemma complete_active: "complete op r c = Some c' \<Longrightarrow> is_active c' \<Longrightarrow> is_active c"
  by (cases op; cases r) (auto simp: handler_defs do_defs dest!: stop_inactive split: if_splits)

text \<open>The two operations of an active connection, with the one that completes first.\<close>

lemma relay_okE:
  assumes "relay_ok whole c" "op \<in> set (pending c)"
  obtains other where "set (remove1 op (pending c)) = {other}" "length (remove1 op (pending c)) = 1"
    "upstream op \<noteq> upstream other" "op \<noteq> Connect" "other \<noteq> Connect" "op_size op \<le> BUF_SIZE" "op_size other \<le> BUF_SIZE"
    "whole \<Longrightarrow> upstream op \<longrightarrow> from_client c = to_server c @ in_flight op (client_buffer c) \<and> from_server c = to_client c @ in_flight other (server_buffer c)"
    "whole \<Longrightarrow> \<not> upstream op \<longrightarrow> from_client c = to_server c @ in_flight other (client_buffer c) \<and> from_server c = to_client c @ in_flight op (server_buffer c)"
proof -
  from assms(1) obtain up down where r: "set (pending c) = {up, down}" "length (pending c) = 2" "upstream up" "\<not> upstream down"
     "down \<noteq> Connect" "op_size up \<le> BUF_SIZE" "op_size down \<le> BUF_SIZE"
     "whole \<longrightarrow> from_client c = to_server c @ in_flight up (client_buffer c) \<and> from_server c = to_client c @ in_flight down (server_buffer c)"
    unfolding relay_ok_def by blast
  from r(2) obtain a b where p: "pending c = [a, b]"
    unfolding numeral_2_eq_2 length_Suc_conv length_0_conv by blast
  have "up \<noteq> down" "up \<noteq> Connect" using r(3,4) by auto
  moreover have ab: "a = up \<and> b = down \<or> a = down \<and> b = up" using r(1) p by (simp add: doubleton_eq_iff)
  ultimately consider "op = up" "set (remove1 op (pending c)) = {down}" "length (remove1 op (pending c)) = 1"
    | "op = down" "set (remove1 op (pending c)) = {up}" "length (remove1 op (pending c)) = 1"
  proof -
    have "op = a \<or> op = b" using assms(2) p by simp
    then show ?thesis using that ab p \<open>up \<noteq> down\<close> by (elim disjE) auto
  qed
  then show thesis
  proof cases
    case 1
    show thesis by (rule that [OF 1(2,3)]) (use r 1 \<open>up \<noteq> Connect\<close> in auto)
  next
    case 2
    show thesis by (rule that [OF 2(2,3)]) (use r 2 \<open>up \<noteq> Connect\<close> in auto)
  qed
qed

lemma relay_okI:
  assumes "set ops = {other}" "length ops = 1" "pending c = ops @ [new]" "upstream new \<noteq> upstream other"
    and "new \<noteq> Connect" "other \<noteq> Connect" "op_size new \<le> BUF_SIZE" "op_size other \<le> BUF_SIZE"
    and "whole \<Longrightarrow> upstream new \<longrightarrow> from_client c = to_server c @ in_flight new (client_buffer c) \<and> from_server c = to_client c @ in_flight other (server_buffer c)"
    and "whole \<Longrightarrow> \<not> upstream new \<longrightarrow> from_client c = to_server c @ in_flight other (client_buffer c) \<and> from_server c = to_client c @ in_flight new (server_buffer c)"
  shows "relay_ok whole c"
proof (cases "upstream new")
  case True
  then show ?thesis unfolding relay_ok_def using assms by (intro exI [of _ new] exI [of _ other]) auto
next
  case False
  then show ?thesis unfolding relay_ok_def using assms by (intro exI [of _ other] exI [of _ new]) auto
qed

lemma take_received: "take (length d) (received d buf) = d"
  by (simp add: received_def)

lemma relay_step:
  assumes "relay_ok whole c" "op \<in> set (pending c)" "legal whole op r"
    and "complete op r (c\<lparr>pending := remove1 op (pending c)\<rparr>) = Some c'" "is_active c'"
  shows "relay_ok whole c'"
proof -
  from assms(1,2) obtain other where o: "set (remove1 op (pending c)) = {other}" "length (remove1 op (pending c)) = 1"
    "upstream op \<noteq> upstream other" "op \<noteq> Connect" "other \<noteq> Connect" "op_size op \<le> BUF_SIZE" "op_size other \<le> BUF_SIZE"
    "whole \<Longrightarrow> upstream op \<longrightarrow> from_client c = to_server c @ in_flight op (client_buffer c) \<and> from_server c = to_client c @ in_flight other (server_buffer c)"
    "whole \<Longrightarrow> \<not> upstream op \<longrightarrow> from_client c = to_server c @ in_flight other (client_buffer c) \<and> from_server c = to_client c @ in_flight op (server_buffer c)"
    by (rule relay_okE) (rule that)
  have ok: "r \<noteq> Failed e" for e using failed_inactive assms(3-5) by fastforce
  show ?thesis
  proof (cases op)
    case Connect
    with o show ?thesis by simp
  next
    case Read_Server
    with ok assms(3) obtain d where r: "r = Received d" "d \<noteq> []" "length d \<le> BUF_SIZE" by (cases r) auto
    from o assms(4) show ?thesis
      by (intro relay_okI [OF o(1,2), where new = "Write_Client (length d)"])
        (auto simp: Read_Server r handler_defs do_defs take_received)
  next
    case Read_Client
    with ok assms(3) obtain d where r: "r = Received d" "d \<noteq> []" "length d \<le> BUF_SIZE" by (cases r) auto
    from o assms(4) show ?thesis
      by (intro relay_okI [OF o(1,2), where new = "Write_Server (length d)"])
        (auto simp: Read_Client r handler_defs do_defs take_received)
  next
    case (Write_Server n)
    with ok assms(3) obtain k where r: "r = Sent k" "k \<le> n" "whole \<longrightarrow> k = n" by (cases r) auto
    from o assms(4) show ?thesis
      by (intro relay_okI [OF o(1,2), where new = Read_Client]) (auto simp: Write_Server r handler_defs do_defs)
  next
    case (Write_Client n)
    with ok assms(3) obtain k where r: "r = Sent k" "k \<le> n" "whole \<longrightarrow> k = n" by (cases r) auto
    from o assms(4) show ?thesis
      by (intro relay_okI [OF o(1,2), where new = Read_Server]) (auto simp: Write_Client r handler_defs do_defs)
  qed
qed

lemma conn_inv_step:
  assumes "conn_step whole c c'" "conn_inv whole c"
  shows "conn_inv whole c'"
proof -
  from assms(1) obtain op r where s: "op \<in> set (pending c)" "legal whole op r"
    "complete op r (c\<lparr>pending := remove1 op (pending c)\<rparr>) = Some c'" by (auto elim: conn_stepE)
  have "relay_ok whole c'" if a: "is_active c'"
  proof -
    have "is_active c" using complete_active [OF s(3) a] by simp
    then consider "connecting c" | "relay_ok whole c" using assms(2) by (auto simp: conn_inv_def)
    then show ?thesis
    proof cases
      case 1
      then have p: "op = Connect" "pending c = [Connect]" using s(1) by (auto simp: connecting_def)
      with s a failed_inactive [of op _ "c\<lparr>pending := remove1 op (pending c)\<rparr>" c'] have r: "r = Connected" by (cases r) auto
      with p s(3) 1 show ?thesis
        by (intro relay_okI [where ops = "[Read_Client]" and other = Read_Client and new = Read_Server])
          (auto simp: handler_defs do_defs connecting_def)
    next
      case 2
      from relay_step [OF this s a] show ?thesis .
    qed
  qed
  then show ?thesis by (simp add: conn_inv_def)
qed

lemma conn_reachable_inv: "conn_reachable whole sb cb c \<Longrightarrow> conn_inv whole c"
  unfolding conn_reachable_def
  by (induction rule: rtranclp_induct) (auto intro: conn_inv_start conn_inv_step)

end
