(* ===== verification/Proxy_Props.thy ===== *)
theory Proxy_Props imports Proxy begin

text \<open>The properties of the proxy of p3: its configuration, its listeners, its connections.\<close>

section \<open>Configuration\<close>

lemma show_entry_chars:
  assumes "\<forall>s\<in>set (snd e). ip_ok (fst s)"
  shows "CHR 0x0A \<notin> set (show_entry e)"
    and "filter (\<lambda>x. \<not> isspace x) (show_entry e) = show_nat (unat (fst e)) @ concat (map (\<lambda>s. '','' @ show_server s) (snd e))"
proof -
  obtain port ss where e: "e = (port, ss)" by (cases e)
  have num: "CHR 0x0A \<notin> set (show_nat n)" for n by (rule show_nat_chars) simp
  have numf: "filter (\<lambda>x. \<not> isspace x) (show_nat n) = show_nat n" for n
    using show_nat_chars by (intro filter_True ballI) blast
  have ip: "CHR 0x0A \<notin> set (fst s) \<and> filter (\<lambda>x. \<not> isspace x) (fst s) = fst s" if "s \<in> set ss" for s
  proof -
    have "\<forall>c\<in>set (fst s). \<not> isspace c" using assms that by (simp add: e ip_ok_def)
    moreover have "isspace CHR 0x0A" by (simp add: isspace_def)
    ultimately show ?thesis by (auto intro: filter_True)
  qed
  have nl: "CHR 0x0A \<notin> set (show_server s)" if "s \<in> set ss" for s
    using ip [OF that] num by (simp add: show_server_def)
  have fs: "filter (\<lambda>x. \<not> isspace x) (show_server s) = show_server s" if "s \<in> set ss" for s
    using ip [OF that] numf by (simp add: show_server_def isspace_def)
  show "CHR 0x0A \<notin> set (show_entry e)" using num nl by (auto simp: e)
  have "filter (\<lambda>x. \<not> isspace x) (concat (map (\<lambda>s. '', '' @ show_server s) ss)) = concat (map (\<lambda>s. '','' @ show_server s) ss)"
    using fs by (induction ss) (auto simp: isspace_def)
  then show "filter (\<lambda>x. \<not> isspace x) (show_entry e) = show_nat (unat (fst e)) @ concat (map (\<lambda>s. '','' @ show_server s) (snd e))"
    by (simp add: e numf)
qed

lemma parse_printed:
  assumes "\<forall>e\<in>set es. \<forall>s\<in>set (snd e). ip_ok (fst s)"
  shows "parse_config_file (concat (map (\<lambda>e. show_entry e @ newline) es)) c = (Inr (), fold (\<lambda>e c. add_entry c e) es c)"
  using assms
proof (induction es arbitrary: c)
  case Nil
  have "getline (CHR 0x0A) [] = ([], [], True)" by simp
  then show ?case by (simp add: parse_config_file.simps [of "[]"])
next
  case (Cons e es)
  let ?rest = "concat (map (\<lambda>e. show_entry e @ newline) es)"
  have e: "\<forall>s\<in>set (snd e). ip_ok (fst s)" using Cons.prems by simp
  note f = show_entry_chars [OF e]
  have "getline (CHR 0x0A) (show_entry e @ newline @ ?rest) = (show_entry e, ?rest, False)"
    using getline_found [OF f(1)] by (simp add: newline_def)
  then have "parse_config_file (show_entry e @ newline @ ?rest) c = parse_config_file ?rest (add_entry c e)"
    using parse_line_show [OF e, of "fst e" c]
    by (subst parse_config_file.simps) (simp add: f(2) Let_def)
  with Cons show ?case by simp
qed

lemma printed_parsed:
  assumes "\<forall>e\<in>set es. \<forall>s\<in>set (snd e). ip_ok (fst s)"
  shows "parse_config_file (concat (map (\<lambda>e. show_entry e @ newline) es)) new_config
    = (Inr (), \<lparr>config_map = map_of (rev es), ports = map fst es\<rparr>)"
proof -
  have "fold (\<lambda>e c. add_entry c e) es c = c\<lparr>config_map := config_map c ++ map_of (rev es), ports := ports c @ map fst es\<rparr>" for c
  proof (induction es rule: rev_induct)
    case (snoc e es)
    then show ?case by (cases e) (simp add: add_entry_def map_add_def fun_eq_iff)
  qed simp
  with parse_printed [OF assms] show ?thesis
    by (simp add: new_config_def map_add_def fun_eq_iff split: option.splits)
qed

text \<open>C19: A configuration that is written out, with any white space within its lines, is read back:
  the ports in the order of the lines, and for each port the servers of its last line.\<close>

theorem config_roundtrip:
  assumes "\<forall>e\<in>set es. \<forall>s\<in>set (snd e). ip_ok (fst s)"
    and "squeeze content = squeeze (concat (map (\<lambda>e. show_entry e @ newline) es))"
  shows "parser_config_file f_name (Some content) = Inr \<lparr>config_map = map_of (rev es), ports = map fst es\<rparr>"
proof -
  have "parse_config_file content new_config = parse_config_file (squeeze content) new_config"
    by (rule parse_squeeze [symmetric])
  also have "\<dots> = (Inr (), \<lparr>config_map = map_of (rev es), ports = map fst es\<rparr>)"
    unfolding assms(2) parse_squeeze by (rule printed_parsed [OF assms(1)])
  finally show ?thesis by (simp add: parser_config_file_def)
qed

theorem config_roundtrip_witness:
  "parser_config_file ''config.txt'' (Some (''7,h:8,  g:9'' @ newline))
   = Inr \<lparr>config_map = map_of [(7, [(''h'', 8), (''g'', 9)])], ports = [7]\<rparr>"
proof -
  let ?es = "[(7, [(''h'', 8), (''g'', 9)])]"
  have n: "show_nat 7 = ''7''" "show_nat 8 = ''8''" "show_nat 9 = ''9''"
    by code_simp+
  have "squeeze (''7,h:8,  g:9'' @ newline) = squeeze (concat (map (\<lambda>e. show_entry e @ newline) ?es))"
    by (simp add: squeeze_def show_server_def n newline_def isspace_def)
  moreover have "\<forall>e\<in>set ?es. \<forall>s\<in>set (snd e). ip_ok (fst s)" by (simp add: ip_ok_def isspace_def)
  ultimately show ?thesis using config_roundtrip [of ?es "''7,h:8,  g:9'' @ newline" "''config.txt''"] by simp
qed

text \<open>A proxy on a configuration in which every line has a server has one listener per line,
  and every connection a listener accepts is started for a server of the last line of its port.\<close>

theorem accepted_for_listed_server:
  assumes es: "\<forall>e\<in>set es. snd e \<noteq> [] \<and> (\<forall>s\<in>set (snd e). ip_ok (fst s))"
    and c: "parser_config_file f_name (Some (concat (map (\<lambda>e. show_entry e @ newline) es))) = Inr c"
  shows "map fst (new_proxy c) = map fst es
    \<and> (\<forall>(port, servers)\<in>set (new_proxy c). map_of (rev es) port = Some servers
         \<and> (\<forall>r err conn. \<exists>addr\<in>set servers. handle_accept r servers err conn = Some (addr, start conn)))"
proof -
  have "\<forall>e\<in>set es. \<forall>s\<in>set (snd e). ip_ok (fst s)" using es by blast
  from printed_parsed [OF this] c
  have c': "c = \<lparr>config_map = map_of (rev es), ports = map fst es\<rparr>" by (simp add: parser_config_file_def)
  have "map_of (rev es) port = Some servers \<and> servers \<noteq> []"
    if "(port, servers) \<in> set (new_proxy c)" for port servers
  proof -
    from that have p: "port \<in> fst ` set (rev es)" "servers = config_at c port"
      by (auto simp: new_proxy_def c')
    from p(1) obtain v where v: "map_of (rev es) port = Some v"
      by (metis map_of_eq_None_iff not_None_eq)
    then have "(port, v) \<in> set es" using map_of_SomeD by fastforce
    then have "v \<noteq> []" using es by auto
    with v p(2) show ?thesis by (simp add: config_at_def c')
  qed
  then show ?thesis
    by (auto simp: handle_accept_def Let_def) (auto simp: new_proxy_def c')
qed

theorem accepted_for_listed_server_witness:
  "\<exists>c. parser_config_file ''f'' (Some (show_entry (8000, [(''h'', 80)]) @ newline)) = Inr c
     \<and> map fst (new_proxy c) = [8000]
     \<and> (\<forall>(port, servers)\<in>set (new_proxy c). \<forall>conn. \<exists>addr\<in>set servers. handle_accept 7 servers 0 conn = Some (addr, start conn))"
proof -
  let ?es = "[(8000, [(''h'', 80)])]"
  have es: "\<forall>e\<in>set ?es. snd e \<noteq> [] \<and> (\<forall>s\<in>set (snd e). ip_ok (fst s))" by (simp add: ip_ok_def isspace_def)
  then obtain c where c: "parser_config_file ''f'' (Some (concat (map (\<lambda>e. show_entry e @ newline) ?es))) = Inr c"
    using printed_parsed [of ?es] by (auto simp: parser_config_file_def)
  from accepted_for_listed_server [OF es c] c show ?thesis by auto
qed

text \<open>A server without a colon gets the port that was read last on its line, the port of the
  line itself if it is the first one.\<close>

theorem missing_port_repeats:
  assumes "ip_ok ip" "\<forall>s\<in>set ss. ip_ok (fst s)"
  shows "parse_line (show_nat (unat port) @ concat (map (\<lambda>s. '','' @ show_server s) ss) @ '','' @ ip) c
    = (Inr (), add_entry c (port, ss @ [(ip, if ss = [] then port else snd (last ss))]))"
proof -
  have no: "CHR '','' \<notin> set (show_nat (unat p))" for p :: uint16 by (rule show_nat_chars) simp
  have colon: "CHR '':'' \<notin> set ip" using assms(1) by (auto simp: ip_ok_def)
  have end': "servers_loop port ip (show_nat (unat p)) c = (Inr (), push_server port (ip, p) c)" for p c
    using getline_eof [OF colon] by (subst servers_loop.simps) (simp add: unat16)
  have loop: "servers_loop port (show_server s @ concat (map (\<lambda>s. '','' @ show_server s) ss) @ '','' @ ip) sp c
      = (Inr (), fold (push_server port) (s # ss @ [(ip, snd (last (s # ss)))]) c)"
    if "\<forall>s\<in>set (s # ss). ip_ok (fst s)" for s ss sp c
    using that
  proof (induction ss arbitrary: s sp c)
    case Nil
    have ip: "CHR '':'' \<notin> set (fst s)" using Nil by (auto simp: ip_ok_def)
    have "getline CHR '':'' (show_server s @ '','' @ ip) = (fst s, show_nat (unat (snd s)) @ '','' @ ip, False)"
      using getline_found [OF ip] by (simp add: show_server_def)
    then show ?case using getline_found [OF no [of "snd s"], of ip] end' [of "snd s"]
      by (subst servers_loop.simps) (simp add: unat16)
  next
    case (Cons s' ss)
    have ip: "CHR '':'' \<notin> set (fst s)" using Cons.prems by (auto simp: ip_ok_def)
    let ?rest = "show_server s' @ concat (map (\<lambda>s. '','' @ show_server s) ss) @ '','' @ ip"
    have "getline CHR '':'' (show_server s @ '','' @ ?rest) = (fst s, show_nat (unat (snd s)) @ '','' @ ?rest, False)"
      using getline_found [OF ip] by (simp add: show_server_def)
    then have "servers_loop port (show_server s @ '','' @ ?rest) sp c = servers_loop port ?rest (show_nat (unat (snd s))) (push_server port s c)"
      using getline_found [OF no [of "snd s"], of ?rest] by (subst servers_loop.simps) (simp add: unat16)
    with Cons show ?case by simp
  qed
  let ?c = "c\<lparr>ports := ports c @ [port], config_map := (config_map c)(port \<mapsto> [])\<rparr>"
  have l: "parse_line (show_nat (unat port) @ '','' @ rest) c = servers_loop port rest (show_nat (unat port)) ?c" for rest
    using getline_found [OF no [of port], of rest] by (simp add: parse_line_def unat16)
  have push: "fold (push_server port) xs ?c = add_entry c (port, xs)" for xs
    by (subst push_servers [of ?c port "[]"]) (simp_all add: add_entry_def)
  show ?thesis
  proof (cases ss)
    case Nil
    with l [of ip] end' [of port ?c] push [of "[(ip, port)]"] show ?thesis by simp
  next
    case (Cons s ss')
    with l [of "show_server s @ concat (map (\<lambda>s. '','' @ show_server s) ss') @ '','' @ ip"] loop [of s ss' _ ?c] assms(2)
      push [of "s # ss' @ [(ip, snd (last (s # ss')))]"] show ?thesis by simp
  qed
qed

theorem missing_port_repeats_witness:
  "parse_line (show_nat 7 @ '',h'') new_config = (Inr (), add_entry new_config (7, [(''h'', 7)]))"
proof -
  have "ip_ok ''h''" by (simp add: ip_ok_def isspace_def)
  with missing_port_repeats [of "''h''" "[]" 7 new_config] show ?thesis by simp
qed

section \<open>Connections\<close>

lemma relay_stepI:
  "op \<in> set (pending c) \<Longrightarrow> legal whole op r \<Longrightarrow> complete op r (c\<lparr>pending := remove1 op (pending c)\<rparr>) = Some c' \<Longrightarrow>
     conn_reachable whole sb cb c \<Longrightarrow> conn_reachable whole sb cb c'"
  unfolding conn_reachable_def by (blast intro: conn_step.intros rtranclp.rtrancl_into_rtrancl)

lemma buffer_room: "Suc (Suc 0) \<le> BUF_SIZE"
  by (simp add: BUF_SIZE_def)

lemma reachable_start: "conn_reachable whole sb cb (start (instance_of sb cb))"
  by (simp add: conn_reachable_def)

text \<open>C6: While a connection is active and sends are not cut short, what the server and the client
  have been sent is what the other side has sent, in order, without loss or repetition, but for at
  most one buffer on its way; and nothing is on its way while the proxy waits for input.\<close>

theorem relay_in_order:
  assumes "conn_reachable True sb cb c" "is_active c"
  shows "\<exists>u d. from_client c = to_server c @ u \<and> from_server c = to_client c @ d
    \<and> length u \<le> BUF_SIZE \<and> length d \<le> BUF_SIZE
    \<and> (Read_Client \<in> set (pending c) \<longrightarrow> u = []) \<and> (Read_Server \<in> set (pending c) \<longrightarrow> d = [])"
proof -
  have "connecting c \<or> relay_ok True c" using conn_reachable_inv [OF assms(1)] assms(2) by (simp add: conn_inv_def)
  then show ?thesis
  proof
    assume "connecting c"
    then show ?thesis by (simp add: connecting_def)
  next
    assume "relay_ok True c"
    then obtain up down where r: "set (pending c) = {up, down}" "upstream up" "\<not> upstream down" "down \<noteq> Connect"
      "op_size up \<le> BUF_SIZE" "op_size down \<le> BUF_SIZE"
      "from_client c = to_server c @ in_flight up (client_buffer c)" "from_server c = to_client c @ in_flight down (server_buffer c)"
      unfolding relay_ok_def by blast
    have "length (in_flight op buf) \<le> op_size op" for op buf by (cases op) auto
    then have "length (in_flight up (client_buffer c)) \<le> BUF_SIZE" "length (in_flight down (server_buffer c)) \<le> BUF_SIZE"
      using r(5,6) le_trans by blast+
    moreover have "Read_Client \<in> set (pending c) \<longrightarrow> in_flight up (client_buffer c) = []"
      using r(1-4) by (cases up; cases down) auto
    moreover have "Read_Server \<in> set (pending c) \<longrightarrow> in_flight down (server_buffer c) = []"
      using r(1-4) by (cases up; cases down) auto
    ultimately show ?thesis using r(7,8) by blast
  qed
qed

lemma connected_state:
  "conn_reachable whole sb cb (instance_of sb cb\<lparr>is_active := True, pending := [Read_Client, Read_Server]\<rparr>)"
  by (rule relay_stepI [OF _ _ _ reachable_start, where op = Connect and r = Connected])
    (simp_all add: start_def instance_of_def handler_defs do_defs)

lemma received_state:
  "conn_reachable whole sb cb (instance_of sb cb\<lparr>is_active := True, pending := [Read_Server, Write_Server 2],
     client_buffer := received ''ab'' cb, from_client := ''ab''\<rparr>)"
  by (rule relay_stepI [OF _ _ _ connected_state, where op = Read_Client and r = "Received ''ab''"])
    (simp_all add: instance_of_def handler_defs do_defs BUF_SIZE_def)

theorem relay_in_order_witness:
  "\<exists>c u. conn_reachable True [] [] c \<and> is_active c \<and> from_client c = ''ab'' \<and> to_server c @ u = ''ab'' \<and> length u \<le> BUF_SIZE"
proof -
  let ?c = "instance_of [] []\<lparr>is_active := True, pending := [Read_Server, Write_Server 2],
     client_buffer := received ''ab'' [], from_client := ''ab''\<rparr>"
  have r: "conn_reachable True [] [] ?c" "is_active ?c" "from_client ?c = ''ab''" using received_state by simp_all
  from relay_in_order [OF r(1,2)] obtain u where "from_client ?c = to_server ?c @ u" "length u \<le> BUF_SIZE" by blast
  with r show ?thesis by metis
qed

lemma pending_shape:
  assumes "connecting c \<or> relay_ok whole c"
  shows "pending c = [Connect]
    \<or> (\<exists>up down. set (pending c) = {up, down} \<and> length (pending c) = 2 \<and> upstream up \<and> \<not> upstream down \<and> down \<noteq> Connect)"
  using assms by (auto simp: connecting_def relay_ok_def)

text \<open>Whatever a pending operation succeeds with, its handler goes on.\<close>

lemma success_goes_on:
  "legal whole op r \<Longrightarrow> \<forall>e. r \<noteq> Failed e \<Longrightarrow> is_active c \<Longrightarrow> \<exists>c'. complete op r c = Some c' \<and> is_active c'"
  by (cases op; cases r) (auto simp: handler_defs do_defs)

lemma success_exists: "\<exists>r. legal whole op r \<and> (\<forall>e. r \<noteq> Failed e)"
proof (cases op)
  case Connect
  then show ?thesis by (intro exI [of _ Connected]) simp
next
  case Read_Server
  then show ?thesis by (intro exI [of _ "Received ''a''"]) (simp add: BUF_SIZE_def)
next
  case Read_Client
  then show ?thesis by (intro exI [of _ "Received ''a''"]) (simp add: BUF_SIZE_def)
next
  case (Write_Server n)
  then show ?thesis by (intro exI [of _ "Sent n"]) simp
next
  case (Write_Client n)
  then show ?thesis by (intro exI [of _ "Sent n"]) simp
qed

lemma whole_send_delivers:
  assumes "relay_ok True c" "op \<in> set (pending c)" "legal True op r" "\<forall>e. r \<noteq> Failed e"
    and "complete op r (c\<lparr>pending := remove1 op (pending c)\<rparr>) = Some c'"
  shows "(\<forall>n. op = Write_Server n \<longrightarrow> to_server c' = from_client c') \<and> (\<forall>n. op = Write_Client n \<longrightarrow> to_client c' = from_server c')"
proof -
  obtain other where o: "upstream op \<longrightarrow> from_client c = to_server c @ in_flight op (client_buffer c)"
    "\<not> upstream op \<longrightarrow> from_server c = to_client c @ in_flight op (server_buffer c)"
    using assms(1,2) by (auto elim: relay_okE)
  then show ?thesis using assms(3-5) by (cases op; cases r) (auto simp: handler_defs do_defs)
qed



text \<open>A send that transfers a part only loses the rest: the client's bytes arrive with a gap
  while the connection goes on.\<close>

theorem partial_send_loses:
  "\<exists>c. conn_reachable False sb cb c \<and> is_active c \<and> from_client c = ''abcd'' \<and> to_server c = ''acd'' \<and> Read_Client \<in> set (pending c)"
proof -
  let ?m = "replicate BUF_SIZE CHR 0x00"
  have c1: "conn_reachable False sb cb (instance_of sb cb\<lparr>is_active := True, pending := [Read_Server, Read_Client],
     client_buffer := ?m, from_client := ''ab'', to_server := ''a''\<rparr>)"
    by (rule relay_stepI [OF _ _ _ received_state, where op = "Write_Server 2" and r = "Sent 1"])
      (simp_all add: instance_of_def handler_defs do_defs received_def)
  have c2: "conn_reachable False sb cb (instance_of sb cb\<lparr>is_active := True, pending := [Read_Server, Write_Server 2],
     client_buffer := received ''cd'' ?m, from_client := ''abcd'', to_server := ''a''\<rparr>)"
    by (rule relay_stepI [OF _ _ _ c1, where op = Read_Client and r = "Received ''cd''"])
      (simp_all add: instance_of_def handler_defs do_defs buffer_room)
  have c3: "conn_reachable False sb cb (instance_of sb cb\<lparr>is_active := True, pending := [Read_Server, Read_Client],
     client_buffer := ?m, from_client := ''abcd'', to_server := ''acd''\<rparr>)"
    by (rule relay_stepI [OF _ _ _ c2, where op = "Write_Server 2" and r = "Sent 2"])
      (simp_all add: instance_of_def handler_defs do_defs received_def)
  show ?thesis by (intro exI conjI, rule c3) (simp_all add: instance_of_def)
qed

text \<open>When the client closes before anything was relayed, what the uninitialised buffer of the
  connection holds is sent to it.\<close>

theorem uninitialised_bytes_sent:
  "\<exists>c. conn_reachable True (''ab'' @ [CHR 0x00]) [CHR 0x00] c \<and> from_server c = [] \<and> to_client c = ''ab''"
proof -
  let ?sb = "''ab'' @ [CHR 0x00]" and ?cb = "[CHR 0x00]"
  have c1: "conn_reachable True ?sb ?cb (instance_of ?sb ?cb\<lparr>pending := [Read_Server, Write_Client 2]\<rparr>)"
    by (rule relay_stepI [OF _ _ _ connected_state, where op = Read_Client and r = "Failed 2"])
      (simp_all add: instance_of_def handler_defs do_defs stop_def flush_def strlen_def)
  have "conn_reachable True ?sb ?cb (instance_of ?sb ?cb\<lparr>pending := [Read_Server, Read_Server],
      server_buffer := replicate BUF_SIZE CHR 0x00, to_client := ''ab''\<rparr>)"
    by (rule relay_stepI [OF _ _ _ c1, where op = "Write_Client 2" and r = "Sent 2"])
      (simp_all add: instance_of_def handler_defs do_defs)
  then show ?thesis by (intro exI conjI) (assumption, simp_all add: instance_of_def)
qed

end
