(* ===== verification/Proxy_Life.thy ===== *)
theory Proxy_Life imports Proxy_Props begin

text \<open>
  The end of a connection of p3 (p3/proxy.cpp). \<open>stop\<close> closes both sockets, but the operations under
  way still hold the connection by a shared pointer; it is deleted when the last has completed. An
  operation that had completed before the sockets were closed can still report its result. One
  started on a closed socket fails, and not with the number 2.
\<close>

section \<open>After stop\<close>

text \<open>\<open>pending\<close> of the connection are here the operations started before the sockets were closed,
  \<open>dead\<close> those started after.\<close>

record closing =
  conn :: connection
  dead :: "async_op list"

text \<open>A handler runs with \<open>pending\<close> empty, to tell what it starts.\<close>

inductive close_step :: "closing \<Rightarrow> closing \<Rightarrow> bool" where
  old: "op \<in> set (pending (conn s)) \<Longrightarrow> legal False op r \<Longrightarrow>
     complete op r ((conn s)\<lparr>pending := []\<rparr>) = Some c' \<Longrightarrow>
     close_step s (s\<lparr>conn := c'\<lparr>pending := remove1 op (pending (conn s))\<rparr>, dead := dead s @ pending c'\<rparr>)"
| dead: "op \<in> set (dead s) \<Longrightarrow> e \<noteq> 0 \<Longrightarrow> e \<noteq> 2 \<Longrightarrow>
     complete op (Failed e) ((conn s)\<lparr>pending := []\<rparr>) = Some c' \<Longrightarrow>
     close_step s (s\<lparr>conn := c'\<lparr>pending := pending (conn s)\<rparr>, dead := remove1 op (dead s) @ pending c'\<rparr>)"

text \<open>The destructor runs when nothing holds the connection any more: it calls \<open>stop\<close> without an error.\<close>

definition destructor :: "closing \<Rightarrow> connection option" where
  "destructor s = (if pending (conn s) = [] \<and> dead s = [] then stop 0 (conn s) else None)"

definition close_work :: "closing \<Rightarrow> nat" where
  "close_work s = 3 * length (pending (conn s)) + length (dead s)"

definition close_ok :: "closing \<Rightarrow> bool" where
  "close_ok s \<longleftrightarrow> \<not> is_active (conn s)"

lemma flush_ops:
  "flush do_write_to_client buf c = Some c' \<Longrightarrow> length (pending c') \<le> Suc (length (pending c))"
  "flush do_write_to_server buf c = Some c' \<Longrightarrow> length (pending c') \<le> Suc (length (pending c))"
  by (auto simp: flush_def do_defs split: if_splits)

lemma stop_ops: "stop e c = Some c' \<Longrightarrow> length (pending c') \<le> (if e = 2 then 2 else 0) + length (pending c)"
  by (auto simp: stop_def dest!: flush_ops split: option.splits if_splits)

lemma complete_ops: "complete op r c = Some c' \<Longrightarrow> length (pending c') \<le> 2 + length (pending c)"
  by (cases op; cases r) (auto simp: handler_defs do_defs dest!: stop_ops split: if_splits)

lemma failed_ops:
  "complete op (Failed e) c = Some c' \<Longrightarrow> e \<noteq> 0 \<Longrightarrow> e \<noteq> 2 \<Longrightarrow> pending c' = pending c"
  by (cases op) (auto simp: handler_defs stop_def split: if_splits)

lemma complete_stays_closed: "complete op r c = Some c' \<Longrightarrow> \<not> is_active c \<Longrightarrow> \<not> is_active c'"
  using complete_active by blast

lemma failed_defined: "e \<noteq> 0 \<Longrightarrow> e \<noteq> 2 \<Longrightarrow> \<exists>c'. complete op (Failed e) c = Some c'"
  by (cases op) (auto simp: handler_defs stop_def)

lemma close_step_work:
  assumes "close_ok s" "close_step s s'"
  shows "close_ok s' \<and> close_work s' < close_work s"
  using assms(2,1)
proof (induction rule: close_step.induct)
  case (old op s r c')
  then have "length (pending c') \<le> 2" using complete_ops by fastforce
  moreover have "length (remove1 op (pending (conn s))) = length (pending (conn s)) - 1" "0 < length (pending (conn s))"
    using old.hyps(1) by (auto simp: length_remove1)
  moreover have "\<not> is_active c'" using old complete_stays_closed by (fastforce simp: close_ok_def)
  ultimately show ?case by (simp add: close_ok_def close_work_def del: length_greater_0_conv) 
next
  case (dead op s e c')
  then have "pending c' = []" using failed_ops by fastforce
  moreover have "length (remove1 op (dead s)) = length (dead s) - 1" "0 < length (dead s)"
    using dead.hyps(1) by (auto simp: length_remove1)
  moreover have "\<not> is_active c'" using dead complete_stays_closed by (fastforce simp: close_ok_def)
  ultimately show ?case by (simp add: close_ok_def close_work_def del: length_greater_0_conv) 
qed

lemma close_progress:
  assumes "\<not> (pending (conn s) = [] \<and> dead s = [])"
  shows "\<exists>s'. close_step s s'"
proof -
  have "\<exists>c'. complete op (Failed 125) ((conn s)\<lparr>pending := []\<rparr>) = Some c'" for op
    by (rule failed_defined) simp_all
  with assms show ?thesis
    using close_step.old [of _ s "Failed 125"] close_step.dead [of _ s 125]
    by (cases "pending (conn s)"; cases "dead s") (fastforce+)
qed

interpretation closing: descending close_step close_ok close_work "\<lambda>s. pending (conn s) = [] \<and> dead s = []"
  by unfold_locales (use close_step_work close_progress in blast)+

text \<open>C32: A connection that has been stopped ends: whatever the operations under way report, at most
  three completions for each of them are left; the library can complete them all; then the
  connection is deleted, and its destructor finds the sockets closed and does nothing.\<close>

theorem stopped_connection_ends:
  assumes "stop e c = Some c'" "(close_step ^^ n) \<lparr>conn = c', dead = []\<rparr> s"
  shows "n \<le> 3 * length (pending c) + 6
     \<and> (\<exists>t. close_step\<^sup>*\<^sup>* s t \<and> destructor t = Some (conn t) \<and> \<not> is_active (conn t))"
proof -
  have ok: "close_ok \<lparr>conn = c', dead = []\<rparr>" using stop_inactive [OF assms(1)] by (simp add: close_ok_def)
  from closing.run_bound [OF assms(2) ok] have r: "close_ok s" "n \<le> close_work \<lparr>conn = c', dead = []\<rparr>" by auto
  from closing.run_ends [OF r(1)] obtain t where t: "close_step\<^sup>*\<^sup>* s t" "close_ok t" "pending (conn t) = []" "dead t = []"
    by blast
  then have "destructor t = Some (conn t)" by (simp add: destructor_def stop_def close_ok_def)
  moreover have "length (pending c') \<le> 2 + length (pending c)" using stop_ops [OF assms(1)] by (auto split: if_splits)
  ultimately show ?thesis using t r(2) by (auto simp: close_work_def close_ok_def)
qed

theorem stopped_connection_ends_witness:
  "\<exists>c t. stop 104 (start (instance_of [] [])) = Some c \<and> close_step\<^sup>*\<^sup>* \<lparr>conn = c, dead = []\<rparr> t \<and> destructor t = Some (conn t)"
proof -
  have s: "stop 104 (start (instance_of [] [])) = Some ((start (instance_of [] []))\<lparr>is_active := False\<rparr>)"
    by (simp add: stop_def start_def instance_of_def)
  from stopped_connection_ends [OF s, of 0] s show ?thesis by auto
qed

section \<open>The listener and main\<close>

text \<open>A listener: the connections waiting for a client and, in order, those that were started.\<close>

record listener =
  servers :: "(string \<times> uint16) list"
  waiting :: "connection list"
  started :: "((string \<times> uint16) \<times> connection) list"

definition do_accept_connection :: "connection \<Rightarrow> listener \<Rightarrow> listener" where
  "do_accept_connection c l = l\<lparr>waiting := waiting l @ [c]\<rparr>"

definition new_listener :: "(string \<times> uint16) list \<Rightarrow> string \<Rightarrow> string \<Rightarrow> listener" where
  "new_listener ss sb cb = do_accept_connection (instance_of sb cb) \<lparr>servers = ss, waiting = [], started = []\<rparr>"

text \<open>An accept that completes: the connection that waits first is started, and a new one waits.\<close>

definition accept_completes :: "nat \<Rightarrow> nat \<Rightarrow> string \<Rightarrow> string \<Rightarrow> listener \<Rightarrow> listener option" where
  "accept_completes r err sb cb l = (case waiting l of
      [] \<Rightarrow> None
    | c # cs \<Rightarrow> (case handle_accept r (servers l) err c of
        None \<Rightarrow> None
      | Some ac \<Rightarrow> Some (do_accept_connection (instance_of sb cb) (l\<lparr>waiting := cs, started := started l @ [ac]\<rparr>))))"

fun accepts_complete :: "(nat \<times> nat \<times> string \<times> string) list \<Rightarrow> listener \<Rightarrow> listener option" where
  "accepts_complete [] l = Some l"
| "accepts_complete ((r, err, sb, cb) # as) l = (case accept_completes r err sb cb l of
      None \<Rightarrow> None | Some l' \<Rightarrow> accepts_complete as l')"

text \<open>A listener with servers never stops accepting: it always waits with one connection, and has
  started one for every accept, for one of its servers.\<close>

theorem listener_keeps_accepting:
  assumes "ss \<noteq> []"
  shows "\<exists>l. accepts_complete as (new_listener ss sb cb) = Some l \<and> length (waiting l) = 1
    \<and> length (started l) = length as \<and> fst ` set (started l) \<subseteq> set ss"
proof -
  have "\<exists>l'. accepts_complete as l = Some l' \<and> length (waiting l') = 1
      \<and> length (started l') = length (started l) + length as \<and> fst ` set (started l') \<subseteq> set ss"
    if "servers l = ss" "length (waiting l) = 1" "fst ` set (started l) \<subseteq> set ss" for l
    using that
  proof (induction "as" arbitrary: l)
    case (Cons a as)
    obtain r err sb cb where a: "a = (r, err, sb, cb)" by (cases a)
    obtain c where c: "waiting l = [c]" using Cons.prems(2) by (cases "waiting l") auto
    let ?l = "do_accept_connection (instance_of sb cb) (l\<lparr>waiting := [], started := started l @ [(ss ! (r mod length ss), start c)]\<rparr>)"
    have "accept_completes r err sb cb l = Some ?l"
      using assms Cons.prems(1) by (simp add: accept_completes_def c handle_accept_def Let_def)
    moreover have "ss ! (r mod length ss) \<in> set ss" using assms by simp
    ultimately show ?case using Cons.IH [of ?l] Cons.prems by (simp add: a do_accept_connection_def)
  qed auto
  from this [of "new_listener ss sb cb"] show ?thesis by (simp add: new_listener_def do_accept_connection_def)
qed

text \<open>\<open>main\<close>: the catch clause is for the exceptions of the standard library, among them those of
  \<open>stoi\<close>; the text thrown when there is no file is none. \<open>argc\<close> counts the program's name.\<close>

datatype main_result = Exits int | Terminated | Runs "(uint16 \<times> (string \<times> uint16) list) list"

definition proxy_main :: "string list \<Rightarrow> (string \<Rightarrow> string option) \<Rightarrow> main_result" where
  "proxy_main argv files =
     (if length argv \<noteq> 2 then Exits 1
      else (case parser_config_file (argv ! 1) (files (argv ! 1)) of
          Inl (Inl text) \<Rightarrow> Terminated
        | Inl (Inr e) \<Rightarrow> Exits 0
        | Inr c \<Rightarrow> Runs (new_proxy c)))"

lemma missing_file_terminates: "files f_name = None \<Longrightarrow> proxy_main [prog, f_name] files = Terminated"
  by (simp add: proxy_main_def parser_config_file_def)

end
