(* ===== verification/Chat_Server.thy ===== *)
theory Chat_Server imports Prelude begin

text \<open>
  The chat server of p2 (p2/Message.cpp, Server.cpp): messages are lists of blocks, a complete
  message is sent to all clients. Inputs are what \<open>accept\<close> and \<open>recv\<close> deliver. Undefined
  behaviour (\<open>back()\<close> of an empty vector, an index of -1) is \<open>None\<close>.
\<close>

section \<open>Messages\<close>

definition BUFF_SIZE :: nat where "BUFF_SIZE = 1024"

record message =
  blocks :: "string list"
  blocks_size :: "nat list"

definition empty_message :: message where
  "empty_message = \<lparr>blocks = [], blocks_size = []\<rparr>"

definition append_block :: "string \<Rightarrow> nat \<Rightarrow> message \<Rightarrow> message" where
  "append_block msg n m = m\<lparr>blocks := blocks m @ [take n msg], blocks_size := blocks_size m @ [n]\<rparr>"

definition clear :: "message \<Rightarrow> message" where
  "clear m = m\<lparr>blocks := [], blocks_size := []\<rparr>"

definition is_complete :: "message \<Rightarrow> bool option" where
  "is_complete m = (if blocks m = [] \<or> last (blocks_size m) = 0 then None
     else Some (last (blocks m) ! (last (blocks_size m) - 1) = CHR 0x0A))"

text \<open>The text that is written to a stream or sent: every block with its size.\<close>

definition sent_blocks :: "message \<Rightarrow> string list" where
  "sent_blocks m = map (\<lambda>i. take (blocks_size m ! i) (blocks m ! i)) [0..<length (blocks m)]"

definition message_text :: "message \<Rightarrow> string" where
  "message_text m = concat (sent_blocks m)"

text \<open>The constructor that cuts a string; \<open>i\<close> goes up to the length, which adds an empty block
  when the length is a multiple of the block size.\<close>

function cut_loop :: "string \<Rightarrow> nat \<Rightarrow> message \<Rightarrow> message" where
  "cut_loop msg i m =
     (if i < length msg + 1
      then cut_loop msg (i + BUFF_SIZE) (append_block (drop i msg) (min (length (drop i msg)) BUFF_SIZE) m)
      else m)"
  by pat_completeness auto
termination
  by (relation "measure (\<lambda>(msg, i, m). length msg + 1 - i)") (auto simp: BUFF_SIZE_def)

declare cut_loop.simps [simp del]

definition new_message :: "string \<Rightarrow> message" where
  "new_message msg = cut_loop msg 0 empty_message"

section \<open>The server\<close>

text \<open>\<open>errno\<close> counts only as being EAGAIN or not. The log is what the server prints of the
  messages. The last three fields are not in the source: for each socket the bytes received
  and sent since it was accepted, and how long the log was then.\<close>

record chat_server =
  messages :: "int \<Rightarrow> message option"
  slave_sockets :: "int set"
  errno_again :: bool
  log :: "(int \<times> string) list"
  inbox :: "int \<Rightarrow> string"
  outbox :: "int \<Rightarrow> string"
  joined :: "int \<Rightarrow> nat"

definition new_chat_server :: "bool \<Rightarrow> chat_server" where
  "new_chat_server again = \<lparr>messages = (\<lambda>_. None), slave_sockets = {}, errno_again = again, log = [],
     inbox = (\<lambda>_. []), outbox = (\<lambda>_. []), joined = (\<lambda>_. 0)\<rparr>"

datatype recv_outcome = Bytes string | Eof | Again | Other_Error

definition message_of :: "int \<Rightarrow> chat_server \<Rightarrow> message" where
  "message_of fd s = (case messages s fd of None \<Rightarrow> empty_message | Some m \<Rightarrow> m)"

definition disconnect_client :: "int \<Rightarrow> chat_server \<Rightarrow> chat_server" where
  "disconnect_client fd s = s\<lparr>messages := (messages s)(fd := None), slave_sockets := slave_sockets s - {fd}\<rparr>"

definition receive :: "int \<Rightarrow> string \<Rightarrow> chat_server \<Rightarrow> chat_server" where
  "receive fd d s = s\<lparr>messages := (messages s)(fd \<mapsto> append_block d (length d) (message_of fd s)),
     inbox := (inbox s)(fd := inbox s fd @ d)\<rparr>"

text \<open>The loop of \<open>recv_message\<close> over what the calls of \<open>recv\<close> return; it goes on until a
  newline ends a block or \<open>errno\<close> is EAGAIN, which a call that succeeds does not change. What is
  not read stays in the socket. \<open>None\<close>: the loop needs more than the list holds.\<close>

fun recv_message :: "int \<Rightarrow> recv_outcome list \<Rightarrow> chat_server \<Rightarrow> (bool \<times> chat_server \<times> recv_outcome list) option" where
  "recv_message fd [] s = None"
| "recv_message fd (Bytes d # rs) s =
     (let s1 = receive fd d s in
      if last d = CHR 0x0A then Some (True, s1, rs)
      else if errno_again s1 then Some (True, s1, rs) else recv_message fd rs s1)"
| "recv_message fd (Eof # rs) s = Some (False, disconnect_client fd s, rs)"
| "recv_message fd (Again # rs) s = Some (True, s\<lparr>errno_again := True\<rparr>, rs)"
| "recv_message fd (Other_Error # rs) s = recv_message fd rs (s\<lparr>errno_again := False\<rparr>)"

definition send_message :: "message \<Rightarrow> int \<Rightarrow> chat_server \<Rightarrow> chat_server" where
  "send_message msg fd s = s\<lparr>outbox := (outbox s)(fd := outbox s fd @ concat (sent_blocks msg))\<rparr>"

definition process_client_event ::
    "int \<Rightarrow> recv_outcome list \<Rightarrow> bool \<Rightarrow> chat_server \<Rightarrow> (chat_server \<times> recv_outcome list) option" where
  "process_client_event fd rs hup s =
     (case recv_message fd rs s of
        None \<Rightarrow> None
      | Some (False, s1, rs1) \<Rightarrow> Some (s1, rs1)
      | Some (True, s1, rs1) \<Rightarrow>
         (let msg = message_of fd s1 in
          case is_complete msg of
            None \<Rightarrow> None
          | Some complete \<Rightarrow>
             (let s2 = (if complete
                then (fold (send_message msg) (sorted_list_of_set (slave_sockets s1)) s1)
                  \<lparr>log := log s1 @ [(fd, message_text msg)], messages := (messages s1)(fd \<mapsto> clear msg)\<rparr>
                else s1)
              in Some (if hup then disconnect_client fd s2 else s2, rs1))))"

text \<open>Events of one client, each with what is in its socket then, all of which is read.\<close>

fun client_events :: "int \<Rightarrow> recv_outcome list list \<Rightarrow> chat_server \<Rightarrow> chat_server option" where
  "client_events fd [] s = Some s"
| "client_events fd (rs # rss) s = (case process_client_event fd rs False s of
      Some (s', []) \<Rightarrow> client_events fd rss s' | _ \<Rightarrow> None)"

definition accept_client :: "int \<Rightarrow> chat_server \<Rightarrow> chat_server" where
  "accept_client fd s = s\<lparr>messages := (messages s)(fd \<mapsto> empty_message), slave_sockets := insert fd (slave_sockets s),
     inbox := (inbox s)(fd := []), outbox := (outbox s)(fd := ''Welcome!'' @ newline), joined := (joined s)(fd := length (log s))\<rparr>"

text \<open>The loop of \<open>process_master_event\<close>: the sockets \<open>accept\<close> returns until \<open>errno\<close> is EAGAIN;
  values not positive are failures, \<open>again\<close> says which set EAGAIN. A success leaves \<open>errno\<close> as
  it was, so a stale EAGAIN ends the loop after one socket.\<close>

fun process_master_event :: "(int \<times> bool) list \<Rightarrow> chat_server \<Rightarrow> chat_server option" where
  "process_master_event [] s = None"
| "process_master_event ((fd, again) # fds) s =
     (let s1 = (if fd > 0 then accept_client fd s else s\<lparr>errno_again := again\<rparr>)
      in if errno_again s1 then Some s1 else process_master_event fds s1)"

section \<open>Runs\<close>

text \<open>\<open>recv\<close> delivers at least one byte; \<open>accept\<close> returns descriptors that are not in use.\<close>

definition bytes_ok :: "recv_outcome list \<Rightarrow> bool" where
  "bytes_ok rs \<longleftrightarrow> (\<forall>d. Bytes d \<in> set rs \<longrightarrow> d \<noteq> [] \<and> length d \<le> BUFF_SIZE)"

inductive chat_step :: "chat_server \<Rightarrow> chat_server \<Rightarrow> bool" where
  master: "distinct (map fst fds) \<Longrightarrow> fst ` set fds \<inter> slave_sockets s = {} \<Longrightarrow> process_master_event fds s = Some s' \<Longrightarrow> chat_step s s'"
| client: "fd \<in> slave_sockets s \<Longrightarrow> bytes_ok rs \<Longrightarrow> process_client_event fd rs hup s = Some (s', rs') \<Longrightarrow> chat_step s s'"

definition chat_reachable :: "chat_server \<Rightarrow> bool" where
  "chat_reachable s \<longleftrightarrow> (\<exists>again. chat_step\<^sup>*\<^sup>* (new_chat_server again) s)"

section \<open>Messages are what was appended\<close>

definition message_ok :: "message \<Rightarrow> bool" where
  "message_ok m \<longleftrightarrow> blocks_size m = map length (blocks m) \<and> [] \<notin> set (blocks m)"

lemma sent_blocks_ok: "message_ok m \<Longrightarrow> sent_blocks m = blocks m"
  by (auto simp: sent_blocks_def message_ok_def intro: nth_equalityI)

lemma message_text_ok: "message_ok m \<Longrightarrow> message_text m = concat (blocks m)"
  by (simp add: message_text_def sent_blocks_ok)

lemma message_ok_empty [simp]: "message_ok empty_message" "message_ok (clear m)" "blocks empty_message = []" "blocks (clear m) = []"
  by (simp_all add: message_ok_def empty_message_def clear_def)

lemma message_ok_append: "message_ok m \<Longrightarrow> d \<noteq> [] \<Longrightarrow> message_ok (append_block d (length d) m)"
  by (auto simp: message_ok_def append_block_def)

lemma blocks_append: "blocks (append_block d (length d) m) = blocks m @ [d]"
  by (simp add: append_block_def)

lemma is_complete_ok:
  assumes "message_ok m" "blocks m \<noteq> []"
  shows "is_complete m = Some (last (concat (blocks m)) = CHR 0x0A)"
proof -
  obtain bs b where bs: "blocks m = bs @ [b]" using assms(2) by (metis rev_exhaust)
  then have "b \<noteq> []" "last (blocks_size m) = length b" using assms(1) by (auto simp: message_ok_def)
  then have "last (concat (blocks m)) = b ! (length b - 1)" using last_conv_nth [of b] by (simp add: bs)
  with bs \<open>b \<noteq> []\<close> \<open>last (blocks_size m) = length b\<close> show ?thesis by (simp add: is_complete_def)
qed

section \<open>Invariant\<close>

definition since :: "int \<Rightarrow> chat_server \<Rightarrow> (int \<times> string) list" where
  "since fd s = drop (joined s fd) (log s)"

definition client_ok :: "chat_server \<Rightarrow> int \<Rightarrow> bool" where
  "client_ok s fd \<longleftrightarrow> (\<exists>m. messages s fd = Some m \<and> message_ok m \<and> joined s fd \<le> length (log s)
     \<and> inbox s fd = concat (map snd (filter (\<lambda>l. fst l = fd) (since fd s))) @ concat (blocks m)
     \<and> outbox s fd = ''Welcome!'' @ newline @ concat (map snd (since fd s)))"

definition chat_inv :: "chat_server \<Rightarrow> bool" where
  "chat_inv s \<longleftrightarrow> finite (slave_sockets s) \<and> (\<forall>fd\<in>slave_sockets s. client_ok s fd)
     \<and> (\<forall>l\<in>set (log s). snd l \<noteq> [] \<and> last (snd l) = CHR 0x0A)"

lemma chat_inv_new: "chat_inv (new_chat_server again)"
  by (simp add: chat_inv_def new_chat_server_def)

lemma client_ok_frame:
  assumes "client_ok s fd" "messages s' fd = messages s fd" "log s' = log s" "joined s' fd = joined s fd"
    "inbox s' fd = inbox s fd" "outbox s' fd = outbox s fd"
  shows "client_ok s' fd"
  using assms unfolding client_ok_def since_def by simp

lemma chat_inv_disconnect: "chat_inv s \<Longrightarrow> chat_inv (disconnect_client fd s)"
  by (auto simp: chat_inv_def disconnect_client_def client_ok_def since_def)

lemma chat_inv_errno: "chat_inv s \<Longrightarrow> chat_inv (s\<lparr>errno_again := b\<rparr>)"
  by (simp add: chat_inv_def client_ok_def since_def)

lemma chat_inv_receive:
  assumes "chat_inv s" "fd \<in> slave_sockets s" "d \<noteq> []"
  shows "chat_inv (receive fd d s)"
proof -
  have "client_ok (receive fd d s) fd'" if "fd' \<in> slave_sockets s" for fd'
  proof (cases "fd' = fd")
    case True
    from assms(1,2) obtain m where "messages s fd = Some m" "message_ok m" "joined s fd \<le> length (log s)"
      "inbox s fd = concat (map snd (filter (\<lambda>l. fst l = fd) (since fd s))) @ concat (blocks m)"
      "outbox s fd = ''Welcome!'' @ newline @ concat (map snd (since fd s))"
      unfolding chat_inv_def client_ok_def by blast
    with message_ok_append [of m d] assms(3) True show ?thesis
      by (simp add: client_ok_def receive_def message_of_def since_def blocks_append)
  next
    case False
    have "client_ok s fd'" using assms(1) that by (simp add: chat_inv_def)
    with False show ?thesis by (elim client_ok_frame) (simp_all add: receive_def)
  qed
  with assms(1) show ?thesis by (simp add: chat_inv_def receive_def)
qed

lemma receive_keeps [simp]: "slave_sockets (receive fd d s) = slave_sockets s" "log (receive fd d s) = log s"
    "errno_again (receive fd d s) = errno_again s"
  by (simp_all add: receive_def)

lemma recv_message_inv:
  assumes "recv_message fd rs s = Some (r, s', rs')" "chat_inv s" "fd \<in> slave_sockets s" "bytes_ok rs"
  shows "chat_inv s' \<and> (r \<longrightarrow> fd \<in> slave_sockets s')"
  using assms
proof (induction fd rs s rule: recv_message.induct)
  case (2 fd d rs s)
  have d: "d \<noteq> []" "bytes_ok rs" using "2.prems"(4) by (auto simp: bytes_ok_def)
  note inv = chat_inv_receive [OF "2.prems"(2,3) d(1)]
  show ?case
  proof (cases "last d = CHR 0x0A \<or> errno_again (receive fd d s)")
    case True
    then have "r \<and> s' = receive fd d s" using "2.prems"(1) by (auto simp: Let_def split: if_splits)
    with inv "2.prems"(3) show ?thesis by simp
  next
    case False
    then have "recv_message fd rs (receive fd d s) = Some (r, s', rs')" using "2.prems"(1) by (simp add: Let_def)
    with "2.IH" [OF refl] False inv "2.prems"(3) d(2) show ?thesis by simp
  qed
next
  case (5 fd rs s)
  then show ?case by (auto simp: bytes_ok_def chat_inv_errno)
qed (auto simp: chat_inv_disconnect chat_inv_errno)

lemma send_all:
  assumes "distinct fds"
  shows "fold (send_message msg) fds s = s\<lparr>outbox := (\<lambda>fd. if fd \<in> set fds then outbox s fd @ message_text msg else outbox s fd)\<rparr>"
  using assms
proof (induction fds arbitrary: s)
  case (Cons fd fds)
  then show ?case
    by (auto simp: send_message_def message_text_def fun_eq_iff intro!: arg_cong2 [where f = outbox_update])
qed simp

lemma chat_inv_broadcast:
  assumes inv: "chat_inv s" and fd: "fd \<in> slave_sockets s" and m: "messages s fd = Some m" "blocks m \<noteq> []"
    and nl: "last (concat (blocks m)) = CHR 0x0A"
  shows "chat_inv ((fold (send_message m) (sorted_list_of_set (slave_sockets s)) s)
      \<lparr>log := log s @ [(fd, message_text m)], messages := (messages s)(fd \<mapsto> clear m)\<rparr>)" (is "chat_inv ?s")
proof -
  have fin: "finite (slave_sockets s)" using inv by (simp add: chat_inv_def)
  have ok: "message_ok m" using inv fd m(1) by (auto simp: chat_inv_def client_ok_def)
  have content: "message_text m = concat (blocks m)" by (rule message_text_ok [OF ok])
  have ne: "concat (blocks m) \<noteq> []" using ok m(2) by (cases "blocks m") (auto simp: message_ok_def)
  let ?t = "s\<lparr>outbox := (\<lambda>c. if c \<in> slave_sockets s then outbox s c @ message_text m else outbox s c),
      log := log s @ [(fd, message_text m)], messages := (messages s)(fd \<mapsto> clear m)\<rparr>"
  have s: "?s = ?t"
    using send_all [of "sorted_list_of_set (slave_sockets s)" m s] fin by simp
  have "client_ok ?t c" if c: "c \<in> slave_sockets s" for c
  proof -
    from inv c obtain mc where mc: "messages s c = Some mc" "message_ok mc" "joined s c \<le> length (log s)"
      "inbox s c = concat (map snd (filter (\<lambda>l. fst l = c) (since c s))) @ concat (blocks mc)"
      "outbox s c = ''Welcome!'' @ newline @ concat (map snd (since c s))"
      unfolding chat_inv_def client_ok_def by blast
    have since: "since c ?t = since c s @ [(fd, message_text m)]"
      using mc(3) by (simp add: since_def)
    show ?thesis
    proof (cases "c = fd")
      case True
      with mc m(1) c since content show ?thesis by (simp add: client_ok_def)
    next
      case False
      with mc c since show ?thesis by (simp add: client_ok_def)
    qed
  qed
  moreover have "\<forall>l\<in>set (log ?t). snd l \<noteq> [] \<and> last (snd l) = CHR 0x0A"
    using inv ne nl content by (auto simp: chat_inv_def)
  ultimately show ?thesis using fin unfolding s chat_inv_def by simp
qed

lemma process_client_inv:
  assumes "process_client_event fd rs hup s = Some (s', rs')" "chat_inv s" "fd \<in> slave_sockets s" "bytes_ok rs"
  shows "chat_inv s'"
proof -
  from assms(1) obtain r s1 rs1 where r: "recv_message fd rs s = Some (r, s1, rs1)"
    by (auto simp: process_client_event_def split: option.splits)
  note i = recv_message_inv [OF r assms(2-4)]
  show ?thesis
  proof (cases r)
    case False
    with r assms(1) i show ?thesis by (simp add: process_client_event_def)
  next
    case True
    then have fd1: "fd \<in> slave_sockets s1" and inv: "chat_inv s1" using i by auto
    then obtain m where m: "messages s1 fd = Some m" "message_ok m" by (auto simp: chat_inv_def client_ok_def)
    then have mo: "message_of fd s1 = m" by (simp add: message_of_def)
    from assms(1) r True mo obtain cpl where cpl: "is_complete m = Some cpl"
      by (auto simp: process_client_event_def Let_def split: option.splits)
    then have ne: "blocks m \<noteq> []" by (auto simp: is_complete_def split: if_splits)
    let ?s2 = "if cpl then (fold (send_message m) (sorted_list_of_set (slave_sockets s1)) s1)
        \<lparr>log := log s1 @ [(fd, message_text m)], messages := (messages s1)(fd \<mapsto> clear m)\<rparr> else s1"
    have "chat_inv ?s2"
    proof (cases cpl)
      case True
      then have "last (concat (blocks m)) = CHR 0x0A" using cpl is_complete_ok [OF m(2) ne] by simp
      from chat_inv_broadcast [OF inv fd1 m(1) ne this] True show ?thesis by simp
    qed (use inv in simp)
    moreover have "s' = (if hup then disconnect_client fd ?s2 else ?s2)"
      using assms(1) True unfolding process_client_event_def r Let_def by (simp add: mo cpl split: if_splits)
    ultimately show ?thesis using chat_inv_disconnect by presburger
  qed
qed

lemma chat_inv_accept: "chat_inv s \<Longrightarrow> fd \<notin> slave_sockets s \<Longrightarrow> chat_inv (accept_client fd s)"
  by (auto simp: chat_inv_def accept_client_def client_ok_def since_def)

lemma process_master_inv:
  assumes "process_master_event fds s = Some s'" "chat_inv s" "distinct (map fst fds)" "fst ` set fds \<inter> slave_sockets s = {}"
  shows "chat_inv s'"
  using assms
proof (induction fds s rule: process_master_event.induct)
  case (2 fd again fds s)
  let ?s1 = "if fd > 0 then accept_client fd s else s\<lparr>errno_again := again\<rparr>"
  have inv: "chat_inv ?s1" using 2 by (auto intro: chat_inv_accept chat_inv_errno)
  have "fst ` set fds \<inter> slave_sockets ?s1 = {}" using "2.prems"(3,4) by (auto simp: accept_client_def)
  then show ?case using "2.IH" [OF refl] inv "2.prems"(1,3) by (auto simp: Let_def split: if_splits)
qed simp

lemma chat_reachable_inv: "chat_reachable s \<Longrightarrow> chat_inv s"
proof -
  have step: "chat_inv s'" if "chat_step s s'" "chat_inv s" for s s'
    using that by (induction rule: chat_step.induct) (auto intro: process_master_inv process_client_inv)
  have "chat_inv s" if "chat_step\<^sup>*\<^sup>* (new_chat_server again) s" for again
    using that by (induction rule: rtranclp_induct) (auto intro: chat_inv_new step)
  then show "chat_reachable s \<Longrightarrow> chat_inv s" unfolding chat_reachable_def by blast
qed

end
