(* ===== verification/Chat_Client.thy ===== *)
theory Chat_Client imports Chat_Server Scan begin

text \<open>
  The chat client of p2 (p2/Client.cpp): lines typed are sent, what the server sends is printed.
  The text available on standard input is a string (\<open>fgets\<close> yields NULL when there is none);
  it holds no NUL. What is sent and what is printed of the server's messages are recorded; the
  escape sequences that erase a typed line are not.
\<close>

record chat_client =
  typed :: message
  from_srv :: message
  c_errno_again :: bool
  c_sent :: string
  c_printed :: string

definition new_client :: "bool \<Rightarrow> chat_client" where
  "new_client again = \<lparr>typed = empty_message, from_srv = empty_message, c_errno_again = again, c_sent = [], c_printed = []\<rparr>"

lemma fgets_BUFF: "(buffer, rest) = fgets BUFF_SIZE s \<Longrightarrow> s \<noteq> [] \<Longrightarrow> length rest < length s"
  using fgets_shorter [of s 1023] by (simp add: BUFF_SIZE_def) (metis snd_conv)

text \<open>\<open>recv_message_from_stdin\<close>: the message and the input that is left.\<close>

function recv_message_from_stdin :: "string \<Rightarrow> message \<Rightarrow> message \<times> string" where
  "recv_message_from_stdin stdin m =
     (if stdin = [] then (m, [])
      else (case fgets BUFF_SIZE stdin of (buffer, rest) \<Rightarrow>
        (if length buffer = 1 \<and> buffer ! 0 = CHR 0x0A then (m, rest)
         else (let m1 = append_block buffer (length buffer) m
               in if last buffer = CHR 0x0A then (m1, rest) else recv_message_from_stdin rest m1))))"
  by pat_completeness auto
termination
  by (relation "measure (\<lambda>(stdin, m). length stdin)") (auto dest: fgets_BUFF)

declare recv_message_from_stdin.simps [simp del]

text \<open>\<open>send_message\<close>, with whether the socket can be written to.\<close>

definition client_send :: "bool \<Rightarrow> chat_client \<Rightarrow> chat_client" where
  "client_send writable c =
     (if writable \<and> length (blocks (typed c)) \<noteq> 0
      then c\<lparr>c_sent := c_sent c @ concat (sent_blocks (typed c)), typed := clear (typed c)\<rparr> else c)"

text \<open>\<open>recv_message_from_srv\<close>; a closed connection throws. \<open>None\<close>: more calls of \<open>recv\<close> are
  needed.\<close>

fun recv_message_from_srv :: "recv_outcome list \<Rightarrow> chat_client \<Rightarrow> (string, unit, chat_client) outcome option" where
  "recv_message_from_srv [] c = None"
| "recv_message_from_srv (Bytes d # rs) c =
     (let c1 = c\<lparr>from_srv := append_block d (length d) (from_srv c)\<rparr> in
      if last d = CHR 0x0A then Some (Inr (), c1)
      else if c_errno_again c1 then Some (Inr (), c1) else recv_message_from_srv rs c1)"
| "recv_message_from_srv (Eof # rs) c = Some (Inl ''Server is not answering...'', c)"
| "recv_message_from_srv (Again # rs) c = Some (Inr (), c\<lparr>c_errno_again := True\<rparr>)"
| "recv_message_from_srv (Other_Error # rs) c = recv_message_from_srv rs (c\<lparr>c_errno_again := False\<rparr>)"

text \<open>One turn of \<open>start\<close>: what \<open>select\<close> says of standard input and of the socket. The text on
  standard input is None when it is not ready.\<close>

definition client_turn :: "string option \<Rightarrow> bool \<Rightarrow> recv_outcome list option \<Rightarrow> chat_client
    \<Rightarrow> (string, string, chat_client) outcome option" where
  "client_turn stdin writable srv c =
     (let (c1, left) = (case stdin of
            None \<Rightarrow> (c, [])
          | Some s \<Rightarrow> (case recv_message_from_stdin s (typed c) of
              (m, left) \<Rightarrow> (client_send writable (c\<lparr>typed := m\<rparr>), left)))
      in case srv of
           None \<Rightarrow> Some (Inr left, c1)
         | Some rs \<Rightarrow> (case recv_message_from_srv rs c1 of
             None \<Rightarrow> None
           | Some (Inl e, c2) \<Rightarrow> Some (Inl e, c2)
           | Some (Inr _, c2) \<Rightarrow> Some (Inr left, c2\<lparr>c_printed := c_printed c2 @ message_text (from_srv c2), from_srv := clear (from_srv c2)\<rparr>)))"

section \<open>A typed line\<close>

lemma fgets_chunk: "CHR 0x0A \<notin> set l \<Longrightarrow> length l = n \<Longrightarrow> fgets n (l @ rest) = (l, rest)"
proof (induction l arbitrary: n)
  case (Cons ch l)
  then show ?case by (cases n) auto
qed simp

lemma stdin_line:
  assumes "CHR 0x0A \<notin> set l" "message_ok m"
  shows "\<exists>m'. recv_message_from_stdin (l @ newline @ rest) m = (m', rest) \<and> message_ok m'
    \<and> message_text m' = message_text m @ (if length l mod BUFF_SIZE = 0 then l else l @ newline)"
  using assms
proof (induction "length l" arbitrary: l m rule: less_induct)
  case less
  consider "l = []" | "l \<noteq> []" "length l < BUFF_SIZE" | "BUFF_SIZE \<le> length l" by linarith
  then show ?case
  proof cases
    case 1
    have "fgets BUFF_SIZE (newline @ rest) = (newline, rest)"
      using fgets_line [of "[]" BUFF_SIZE rest] by (simp add: newline_def BUFF_SIZE_def)
    with 1 less.prems show ?thesis
      by (subst recv_message_from_stdin.simps) (simp add: newline_def)
  next
    case 2
    note f = fgets_line [OF less.prems(1) 2(2), of rest]
    let ?m = "append_block (l @ newline) (length (l @ newline)) m"
    have "recv_message_from_stdin (l @ newline @ rest) m = (?m, rest)"
      using 2 by (subst recv_message_from_stdin.simps) (simp add: f Let_def newline_def nth_append)
    moreover have ok: "message_ok ?m" using message_ok_append [OF less.prems(2), of "l @ newline"] by (simp add: newline_def)
    moreover have "message_text ?m = message_text m @ l @ newline"
      unfolding message_text_ok [OF ok] message_text_ok [OF less.prems(2)] by (simp add: blocks_append del: length_append)
    moreover have "length l mod BUFF_SIZE \<noteq> 0" using 2 by simp
    ultimately show ?thesis by (metis (full_types))
  next
    case 3
    let ?p = "take BUFF_SIZE l" and ?q = "drop BUFF_SIZE l"
    have p: "length ?p = BUFF_SIZE" "CHR 0x0A \<notin> set ?p" "CHR 0x0A \<notin> set ?q"
      using 3 less.prems(1) by (auto dest: in_set_takeD in_set_dropD)
    have "fgets BUFF_SIZE (?p @ ?q @ newline @ rest) = (?p, ?q @ newline @ rest)" by (rule fgets_chunk [OF p(2,1)])
    then have f: "fgets BUFF_SIZE (l @ newline @ rest) = (?p, ?q @ newline @ rest)"
      by (metis append.assoc append_take_drop_id)
    have pn: "?p \<noteq> []" using p(1) by (auto simp: BUFF_SIZE_def)
    then have l: "last ?p \<noteq> CHR 0x0A" using p(2) last_in_set by metis
    have one: "BUFF_SIZE \<noteq> 1" "BUFF_SIZE > 0" by (simp_all add: BUFF_SIZE_def)
    let ?m = "append_block ?p (length ?p) m"
    have "l @ newline @ rest \<noteq> []" by (simp add: newline_def)
    then have step: "recv_message_from_stdin (l @ newline @ rest) m = recv_message_from_stdin (?q @ newline @ rest) ?m"
      using l one by (subst recv_message_from_stdin.simps) (simp only: f prod.case Let_def p(1) if_False simp_thms)
    have ok: "message_ok ?m" by (rule message_ok_append [OF less.prems(2) pn])
    have "length ?q < length l" using 3 one by simp
    from less.hyps [OF this p(3) ok] obtain m' where m': "recv_message_from_stdin (?q @ newline @ rest) ?m = (m', rest)" "message_ok m'"
      "message_text m' = message_text ?m @ (if length ?q mod BUFF_SIZE = 0 then ?q else ?q @ newline)" by blast
    have td: "?p @ ?q @ v = l @ v" for v by (simp flip: append_assoc)
    have "message_text ?m = message_text m @ ?p"
      unfolding message_text_ok [OF ok] message_text_ok [OF less.prems(2)] by (simp only: blocks_append concat_append concat.simps append_Nil2)
    moreover have "length ?q mod BUFF_SIZE = length l mod BUFF_SIZE" using 3 by (simp add: le_mod_geq)
    ultimately have "message_text m' = message_text m @ (if length l mod BUFF_SIZE = 0 then l else l @ newline)"
      using td m'(3) by (simp only: append_assoc append_take_drop_id if_True if_False simp_thms split: if_split) simp
    with step m' show ?thesis by auto
  qed
qed

lemma client_types:
  assumes "CHR 0x0A \<notin> set l" "typed c = empty_message"
  shows "\<exists>c'. client_turn (Some (l @ newline @ rest)) True None c = Some (Inr rest, c')
    \<and> c_sent c' = c_sent c @ (if length l mod BUFF_SIZE = 0 then l else l @ newline) \<and> blocks (typed c') = []"
proof -
  obtain m where m: "recv_message_from_stdin (l @ newline @ rest) empty_message = (m, rest)" "message_ok m"
    "message_text m = (if length l mod BUFF_SIZE = 0 then l else l @ newline)"
    using stdin_line [OF assms(1), of empty_message rest] by (auto simp: message_text_ok)
  have t: "concat (sent_blocks m) = message_text m" by (simp add: message_text_def)
  have "blocks m = [] \<Longrightarrow> message_text m = []" by (simp add: message_text_ok [OF m(2)])
  then show ?thesis using m(3)
    by (cases "blocks m = []") (auto simp: client_turn_def assms(2) m(1) client_send_def t split: if_splits)
qed

section \<open>What is printed\<close>

text \<open>The bytes that a call of \<open>recv_message_from_srv\<close> reads.\<close>

fun bytes_read :: "recv_outcome list \<Rightarrow> bool \<Rightarrow> string" where
  "bytes_read (Bytes d # rs) again = (if last d = CHR 0x0A \<or> again then d else d @ bytes_read rs again)"
| "bytes_read (Other_Error # rs) again = bytes_read rs False"
| "bytes_read _ again = []"

lemma srv_text:
  assumes "recv_message_from_srv rs c = Some (Inr (), c')" "message_ok (from_srv c)" "bytes_ok rs"
  shows "message_ok (from_srv c') \<and> concat (blocks (from_srv c')) = concat (blocks (from_srv c)) @ bytes_read rs (c_errno_again c)
    \<and> c_printed c' = c_printed c \<and> c_sent c' = c_sent c"
  using assms
proof (induction rs c rule: recv_message_from_srv.induct)
  case (2 d rs c)
  have d: "d \<noteq> []" "bytes_ok rs" using "2.prems"(3) by (auto simp: bytes_ok_def)
  let ?c = "c\<lparr>from_srv := append_block d (length d) (from_srv c)\<rparr>"
  have ok: "message_ok (from_srv ?c)" using message_ok_append [OF "2.prems"(2) d(1)] by simp
  show ?case
  proof (cases "last d = CHR 0x0A \<or> c_errno_again c")
    case True
    then have "c' = ?c" using "2.prems"(1) by (auto simp: Let_def split: if_splits)
    with ok True show ?thesis by (simp add: blocks_append)
  next
    case False
    then have "recv_message_from_srv rs ?c = Some (Inr (), c')" using "2.prems"(1) by (simp add: Let_def)
    with "2.IH" [OF refl] False ok d(2) show ?thesis by (simp add: blocks_append)
  qed
next
  case (5 rs c)
  then show ?case by (simp add: bytes_ok_def)
qed auto

end
