(* ===== verification/Chat_Props.thy ===== *)
theory Chat_Props imports Chat_Client begin

text \<open>The properties of the chat of p2, server and client.\<close>

section \<open>Broadcast\<close>

text \<open>How long the log was when a client joined is written by \<open>accept_client\<close> and by nothing else.\<close>

lemma recv_message_joined:
  "recv_message fd rs s = Some (r, s', rs') \<Longrightarrow> joined s' = joined s \<and> slave_sockets s' \<subseteq> slave_sockets s"
  by (induction fd rs s rule: recv_message.induct)
    (auto simp: Let_def receive_def disconnect_client_def split: if_splits)

lemma send_all_joined:
  "joined (fold (send_message m) fds s) = joined s \<and> slave_sockets (fold (send_message m) fds s) = slave_sockets s"
  by (induction fds arbitrary: s) (simp_all add: send_message_def)

lemma client_event_joined:
  assumes "process_client_event fd rs hup s = Some (s', rs')"
  shows "joined s' = joined s \<and> slave_sockets s' \<subseteq> slave_sockets s"
proof -
  obtain r s1 rs1 where r: "recv_message fd rs s = Some (r, s1, rs1)"
    using assms by (auto simp: process_client_event_def split: option.splits)
  with recv_message_joined [OF r] assms show ?thesis
    by (auto simp: process_client_event_def Let_def send_all_joined disconnect_client_def
        split: option.splits if_splits bool.splits)
qed

lemma master_event_joined:
  assumes "process_master_event fds s = Some s'" "fst ` set fds \<inter> slave_sockets s = {}" "distinct (map fst fds)"
  shows "log s' = log s \<and> slave_sockets s \<subseteq> slave_sockets s' \<and> (\<forall>fd. joined s' fd =
    (if fd \<in> slave_sockets s' - slave_sockets s then length (log s) else joined s fd))"
  using assms
proof (induction fds s rule: process_master_event.induct)
  case (2 fd again fds s)
  let ?s1 = "if fd > 0 then accept_client fd s else s\<lparr>errno_again := again\<rparr>"
  have "process_master_event fds ?s1 = Some s' \<or> ?s1 = s'" using "2.prems"(1) by (simp add: Let_def split: if_splits)
  moreover have "fst ` set fds \<inter> slave_sockets ?s1 = {}" using "2.prems"(2,3) by (auto simp: accept_client_def)
  ultimately have "?s1 = s' \<or> log s' = log ?s1 \<and> slave_sockets ?s1 \<subseteq> slave_sockets s' \<and> (\<forall>fd. joined s' fd =
      (if fd \<in> slave_sockets s' - slave_sockets ?s1 then length (log ?s1) else joined ?s1 fd))"
    using "2.IH" [OF refl] "2.prems"(1,3) by (auto simp: Let_def split: if_splits)
  then show ?case using "2.prems"(2) by (auto simp: accept_client_def split: if_splits)
qed simp

lemma step_joined:
  assumes "chat_step s s'" "fd \<in> slave_sockets s'"
  shows "joined s' fd = (if fd \<in> slave_sockets s then joined s fd else length (log s))"
  using assms(1)
proof cases
  case (master fds)
  with master_event_joined [OF master(3,2,1)] assms(2) show ?thesis by auto
next
  case (client fd rs hup rs')
  with client_event_joined [OF client(3)] assms(2) show ?thesis by auto
qed

text \<open>C2: In every reachable state a connected client has been sent the greeting and then all the
  messages the server has logged since the client joined, whole and in the order of the log; what
  the client has sent since is the messages logged for it, in order, followed by the message that
  is not complete yet; every logged message ends with a newline. Since it joined: the number
  \<open>joined s fd\<close> is the length the log had in the step in which the server took the client, and no
  step changes it while the client stays.\<close>

theorem chat_total_order:
  assumes "chat_reachable s" "fd \<in> slave_sockets s"
  shows "joined s fd \<le> length (log s)
    \<and> outbox s fd = ''Welcome!'' @ newline @ concat (map snd (drop (joined s fd) (log s)))
    \<and> (\<exists>m. messages s fd = Some m
        \<and> inbox s fd = concat (map snd (filter (\<lambda>l. fst l = fd) (drop (joined s fd) (log s)))) @ message_text m)
    \<and> (\<forall>l\<in>set (log s). snd l \<noteq> [] \<and> last (snd l) = CHR 0x0A)
    \<and> (\<forall>s' fd'. chat_step s s' \<longrightarrow> fd' \<in> slave_sockets s' \<longrightarrow>
        joined s' fd' = (if fd' \<in> slave_sockets s then joined s fd' else length (log s)))"
proof -
  have inv: "chat_inv s" by (rule chat_reachable_inv [OF assms(1)])
  with assms(2) obtain m where "messages s fd = Some m" "message_ok m" "joined s fd \<le> length (log s)"
    "inbox s fd = concat (map snd (filter (\<lambda>l. fst l = fd) (since fd s))) @ concat (blocks m)"
    "outbox s fd = ''Welcome!'' @ newline @ concat (map snd (since fd s))"
    unfolding chat_inv_def client_ok_def by blast
  moreover have "\<forall>l\<in>set (log s). snd l \<noteq> [] \<and> last (snd l) = CHR 0x0A"
    using inv by (simp add: chat_inv_def)
  ultimately show ?thesis using step_joined unfolding since_def by (simp add: message_text_ok)
qed

lemma accepted_state: "chat_reachable (accept_client 5 (new_chat_server True))"
proof -
  have "chat_step (new_chat_server True) (accept_client 5 (new_chat_server True))"
    by (rule chat_step.master [of "[(5, False)]"]) (simp_all add: new_chat_server_def accept_client_def Let_def)
  then show ?thesis unfolding chat_reachable_def by blast
qed

lemma said_state:
  "\<exists>s. chat_reachable s \<and> 5 \<in> slave_sockets s \<and> log s = [(5, ''hi'' @ newline)] \<and> joined s 5 = 0"
proof -
  let ?s0 = "accept_client 5 (new_chat_server True)"
  have "process_client_event 5 [Bytes (''hi'' @ newline)] False ?s0 \<noteq> None
      \<and> log (fst (the (process_client_event 5 [Bytes (''hi'' @ newline)] False ?s0))) = [(5, ''hi'' @ newline)]
      \<and> 5 \<in> slave_sockets (fst (the (process_client_event 5 [Bytes (''hi'' @ newline)] False ?s0)))
      \<and> joined (fst (the (process_client_event 5 [Bytes (''hi'' @ newline)] False ?s0))) 5 = 0"
    by (simp add: process_client_event_def newline_def receive_def message_of_def accept_client_def new_chat_server_def
        append_block_def empty_message_def is_complete_def Let_def message_text_def sent_blocks_def send_message_def)
  then obtain s1 rs1 where s1: "process_client_event 5 [Bytes (''hi'' @ newline)] False ?s0 = Some (s1, rs1)"
    "log s1 = [(5, ''hi'' @ newline)]" "5 \<in> slave_sockets s1" "joined s1 5 = 0" by auto
  have "chat_step ?s0 s1"
    by (rule chat_step.client [OF _ _ s1(1)]) (simp_all add: accept_client_def bytes_ok_def newline_def BUFF_SIZE_def)
  with accepted_state have "chat_reachable s1" unfolding chat_reachable_def by (meson rtranclp.rtrancl_into_rtrancl)
  with s1 show ?thesis by blast
qed

theorem chat_total_order_witness:
  "\<exists>s. chat_reachable s \<and> log s = [(5, ''hi'' @ newline)] \<and> outbox s 5 = ''Welcome!'' @ newline @ ''hi'' @ newline"
proof -
  obtain s where s: "chat_reachable s" "5 \<in> slave_sockets s" "log s = [(5, ''hi'' @ newline)]" "joined s 5 = 0"
    using said_state by blast
  from chat_total_order [OF s(1,2)] have "outbox s 5 = ''Welcome!'' @ newline @ concat (map snd (drop 0 (log s)))"
    unfolding s(4) by blast
  with s(1,3) show ?thesis by auto
qed

section \<open>From the keyboard to the server\<close>

text \<open>A client with nothing left to send that reads a typed line sends exactly that line, with
  its newline unless its length is a multiple of 1024: then the newline is dropped, and an empty
  line is not sent at all.\<close>

theorem typed_line_sent:
  assumes "CHR 0x0A \<notin> set l" "typed c = empty_message"
  shows "\<exists>c'. client_turn (Some (l @ newline @ rest)) True None c = Some (Inr rest, c')
    \<and> c_sent c' = c_sent c @ (if length l mod BUFF_SIZE = 0 then l else l @ newline) \<and> blocks (typed c') = []"
  by (rule client_types [OF assms])

theorem typed_line_sent_witness:
  "\<exists>c'. client_turn (Some (''hello'' @ newline)) True None (new_client False) = Some (Inr [], c')
    \<and> c_sent c' = ''hello'' @ newline"
  using typed_line_sent [of "''hello''" "new_client False" "[]"] by (auto simp: new_client_def BUFF_SIZE_def)

text \<open>What the calls of \<open>recv\<close> return when each piece raises an event of its own, after the piece before
  has been read: when EAGAIN is not left over from before, a piece that does not end a line is followed by a
  call that finds nothing and sets it.\<close>

fun arrivals :: "bool \<Rightarrow> string list \<Rightarrow> recv_outcome list list" where
  "arrivals again [] = []"
| "arrivals again (d # ds) = (if again \<or> last d = CHR 0x0A then [Bytes d] else [Bytes d, Again])
     # arrivals (again \<or> last d \<noteq> CHR 0x0A) ds"

lemma piece_received:
  assumes "messages s fd = Some m" "message_ok m" "d \<noteq> []" "last d \<noteq> CHR 0x0A"
  shows "process_client_event fd (if errno_again s then [Bytes d] else [Bytes d, Again]) False s
      = Some (receive fd d s\<lparr>errno_again := True\<rparr>, [])
    \<and> messages (receive fd d s) fd = Some (append_block d (length d) m) \<and> message_ok (append_block d (length d) m)"
proof -
  let ?m = "append_block d (length d) m"
  have m: "messages (receive fd d s) fd = Some ?m" using assms(1) by (simp add: receive_def message_of_def)
  have ok: "message_ok ?m" by (rule message_ok_append [OF assms(2,3)])
  have "is_complete ?m = Some False"
    using is_complete_ok [OF ok] assms(3,4) unfolding blocks_append by simp
  with assms(4) m ok show ?thesis
    by (cases "errno_again s") (simp_all add: process_client_event_def Let_def message_of_def)
qed

lemma line_received:
  assumes inv: "chat_inv s" and m: "messages s fd = Some m" "message_ok m"
    and d: "d \<noteq> []" "last d = CHR 0x0A" and l: "concat (blocks m) @ d = line"
  shows "\<exists>s'. process_client_event fd [Bytes d] False s = Some (s', []) \<and> log s' = log s @ [(fd, line)]
    \<and> slave_sockets s' = slave_sockets s \<and> (\<forall>fd'\<in>slave_sockets s. outbox s' fd' = outbox s fd' @ line)
    \<and> message_of fd s' = empty_message"
proof -
  let ?m = "append_block d (length d) m"
  have m': "messages (receive fd d s) fd = Some ?m" using m(1) by (simp add: receive_def message_of_def)
  have ok: "message_ok ?m" by (rule message_ok_append [OF m(2) d(1)])
  have cpl: "is_complete ?m = Some True" using is_complete_ok [OF ok] d unfolding blocks_append by simp
  have content: "message_text ?m = line" using message_text_ok [OF ok] l unfolding blocks_append by simp
  have fin: "finite (slave_sockets s)" using inv by (simp add: chat_inv_def)
  have outbox: "outbox (receive fd d s) = outbox s" by (simp add: receive_def)
  show ?thesis
    using d fin
    by (simp add: process_client_event_def Let_def message_of_def m' cpl content send_all clear_def empty_message_def outbox)
qed

text \<open>The state after pieces without a newline: nothing is sent, the message begun has grown by them.\<close>

lemma unfinished_received:
  assumes "chat_inv s" "fd \<in> slave_sockets s" "messages s fd = Some m" "message_ok m"
    and "CHR 0x0A \<notin> set (concat ds)" "\<forall>d\<in>set ds. d \<noteq> []"
  shows "\<exists>s' m'. client_events fd (arrivals (errno_again s) ds @ rss) s = client_events fd rss s'
    \<and> log s' = log s \<and> outbox s' = outbox s \<and> slave_sockets s' = slave_sockets s \<and> chat_inv s'
    \<and> messages s' fd = Some m' \<and> message_ok m' \<and> concat (blocks m') = concat (blocks m) @ concat ds"
  using assms
proof (induction ds arbitrary: s m)
  case Nil
  then show ?case by (intro exI [of _ s] exI [of _ m]) simp
next
  case (Cons d ds)
  have ne: "d \<noteq> []" using Cons.prems(6) by simp
  then have "last d \<noteq> CHR 0x0A" using Cons.prems(5) last_in_set [OF ne] by (metis Un_iff concat.simps(2) set_append)
  note d = ne this
  let ?s = "receive fd d s\<lparr>errno_again := True\<rparr>" and ?m = "append_block d (length d) m"
  note p = piece_received [OF Cons.prems(3,4) d]
  have inv: "chat_inv ?s" by (intro chat_inv_errno chat_inv_receive [OF Cons.prems(1,2) d(1)])
  obtain s' m' where s': "client_events fd (arrivals (errno_again ?s) ds @ rss) ?s = client_events fd rss s'"
    "log s' = log ?s" "outbox s' = outbox ?s" "slave_sockets s' = slave_sockets ?s" "chat_inv s'"
    "messages s' fd = Some m'" "message_ok m'" "concat (blocks m') = concat (blocks ?m) @ concat ds"
    using Cons.IH [OF inv, of ?m] p Cons.prems(2,5,6) by auto
  moreover have "client_events fd (arrivals (errno_again s) (d # ds) @ rss) s
      = client_events fd (arrivals (errno_again ?s) ds @ rss) ?s"
    using p d(2) by simp
  ultimately show ?case by (intro exI [of _ s'] exI [of _ m']) (simp add: receive_def blocks_append)
qed

lemma arrivals_append:
  "arrivals again (ds @ ds') = arrivals again ds @ arrivals (again \<or> (\<exists>d\<in>set ds. last d \<noteq> CHR 0x0A)) ds'"
  by (induction ds arbitrary: again) auto

lemma cut_line:
  assumes "concat ds = l @ newline" "\<forall>d\<in>set ds. d \<noteq> []"
  obtains ds' d where "ds = ds' @ [d]" "last d = CHR 0x0A" "d \<noteq> []" "concat ds' @ d = l @ newline" "\<exists>e. l = concat ds' @ e"
proof -
  have "ds \<noteq> []" using assms(1) by (auto simp: newline_def)
  then obtain ds' d where ds: "ds = ds' @ [d]" by (metis rev_exhaust)
  then have d: "d \<noteq> []" "concat ds' @ d = l @ newline" using assms by auto
  then have "last d = CHR 0x0A" by (metis last_appendR last_snoc newline_def)
  moreover have "l = concat ds' @ butlast d" using d by (metis butlast_append butlast_snoc newline_def)
  ultimately show thesis using that ds d by blast
qed



text \<open>An event without data on a client that has no message begun reads the last block of an
  empty vector: undefined behaviour.\<close>

theorem spurious_event_undefined:
  assumes "message_of fd s = empty_message"
  shows "process_client_event fd (Again # rs) hup s = None"
  using assms by (simp add: process_client_event_def message_of_def is_complete_def empty_message_def)

theorem spurious_event_undefined_witness:
  "process_client_event 5 [Again] False (accept_client 5 (new_chat_server True)) = None"
  by (rule spurious_event_undefined) (simp add: accept_client_def message_of_def new_chat_server_def)

section \<open>From the server to the screen\<close>

text \<open>What a client prints is what it has received, in order and completely.\<close>

theorem client_prints_received:
  assumes "client_turn None writable (Some rs) c = Some (Inr left, c')" "from_srv c = empty_message" "bytes_ok rs"
  shows "c_printed c' = c_printed c @ bytes_read rs (c_errno_again c) \<and> c_sent c' = c_sent c \<and> from_srv c' = empty_message"
proof -
  from assms(1) obtain c2 where c2: "recv_message_from_srv rs c = Some (Inr (), c2)"
    "c' = c2\<lparr>c_printed := c_printed c2 @ message_text (from_srv c2), from_srv := clear (from_srv c2)\<rparr>"
    by (auto simp: client_turn_def split: option.splits sum.splits prod.splits)
  from srv_text [OF c2(1) _ assms(3)] assms(2) c2(2) show ?thesis
    by (simp add: message_text_ok clear_def empty_message_def message_ok_def)
qed

theorem client_prints_received_witness:
  "\<exists>c'. client_turn None True (Some [Bytes ''a'', Bytes (''b'' @ newline)]) (new_client False) = Some (Inr [], c')
     \<and> c_printed c' = ''ab'' @ newline"
proof -
  let ?rs = "[Bytes ''a'', Bytes (''b'' @ newline)]"
  obtain c' where c': "client_turn None True (Some ?rs) (new_client False) = Some (Inr [], c')"
    by (simp add: client_turn_def new_client_def newline_def Let_def)
  have "bytes_ok ?rs" by (simp add: bytes_ok_def newline_def BUFF_SIZE_def)
  with client_prints_received [OF c'] c' show ?thesis by (simp add: new_client_def newline_def)
qed

section \<open>Messages made from a string\<close>

text \<open>The constructor that cuts a string keeps its text; but when the length is a multiple of
  1024 (the empty string, too) it adds an empty block, and asking whether the message is complete
  reads before that block.\<close>

theorem cut_message:
  "message_text (new_message msg) = msg
    \<and> is_complete (new_message msg) = (if length msg mod BUFF_SIZE = 0 then None else Some (last msg = CHR 0x0A))"
proof -
  have pos: "0 < BUFF_SIZE" by (simp add: BUFF_SIZE_def)
  define ok where "ok m \<longleftrightarrow> blocks_size m = map length (blocks m)" for m :: message
  have app: "ok (append_block d (length d) m)" "concat (blocks (append_block d (length d) m)) = concat (blocks m) @ d"
    "blocks (append_block d (length d) m) = blocks m @ [d]" if "ok m" for d m
    using that by (simp_all add: ok_def append_block_def)
  have loop: "ok (cut_loop msg i m) \<and> concat (blocks (cut_loop msg i m)) = concat (blocks m) @ drop i msg
      \<and> last (blocks (cut_loop msg i m)) = drop (length msg - length msg mod BUFF_SIZE) msg \<and> blocks (cut_loop msg i m) \<noteq> []"
    if "ok m" "i \<le> length msg" "i mod BUFF_SIZE = 0" for i m
    using that
  proof (induction msg i m rule: cut_loop.induct)
    case (1 msg i m)
    let ?d = "take (min (length (drop i msg)) BUFF_SIZE) (drop i msg)"
    let ?m = "append_block ?d (length ?d) m"
    have m: "append_block (drop i msg) (min (length (drop i msg)) BUFF_SIZE) m = ?m"
      by (simp add: append_block_def)
    have i: "i < length msg + 1" using "1.prems"(2) by simp
    note IH = "1.IH" [OF i, unfolded m]
    have step: "cut_loop msg i m = cut_loop msg (i + BUFF_SIZE) ?m"
      using i by (subst cut_loop.simps) (simp only: m if_True)
    show ?case
    proof (cases "i + BUFF_SIZE \<le> length msg")
      case True
      then have "?d = take BUFF_SIZE (drop i msg)" by simp
      then have "?d @ drop (i + BUFF_SIZE) msg = drop i msg" by (metis add.commute append_take_drop_id drop_drop)
      moreover have "(i + BUFF_SIZE) mod BUFF_SIZE = 0" using "1.prems"(3) by simp
      note IH [OF app(1) [OF "1.prems"(1)] True this]
      ultimately show ?thesis unfolding step using app(2) [OF "1.prems"(1), of ?d] by (metis append.assoc)
    next
      case False
      then have d: "?d = drop i msg" by simp
      have "cut_loop msg (i + BUFF_SIZE) ?m = ?m" using False by (subst cut_loop.simps) simp
      with step d have step': "cut_loop msg i m = append_block (drop i msg) (length (drop i msg)) m" by (simp only:)
      have "length msg - length msg mod BUFF_SIZE = i"
      proof -
        obtain k where k: "length msg = i + k" "k < BUFF_SIZE" using False "1.prems"(2) le_Suc_ex by force
        then have "length msg mod BUFF_SIZE = k" using "1.prems"(3) by (metis mod_add_left_eq add_0 mod_less)
        then show ?thesis using k(1) by simp
      qed
      then show ?thesis unfolding step' using app [OF "1.prems"(1), of "drop i msg"]
        by (simp only: last_snoc) simp
    qed
  qed
  let ?m = "new_message msg"
  have m: "ok ?m" "concat (blocks ?m) = msg" "last (blocks ?m) = drop (length msg - length msg mod BUFF_SIZE) msg" "blocks ?m \<noteq> []"
    using loop [of empty_message 0] by (simp_all add: new_message_def ok_def empty_message_def)
  then have size: "last (blocks_size ?m) = length msg mod BUFF_SIZE"
    by (simp add: ok_def last_map)
  have "sent_blocks ?m = blocks ?m"
    using m(1) by (auto simp: ok_def sent_blocks_def intro: nth_equalityI)
  moreover have "is_complete ?m = (if length msg mod BUFF_SIZE = 0 then None else Some (last msg = CHR 0x0A))"
  proof (cases "length msg mod BUFF_SIZE = 0")
    case True
    with size show ?thesis by (simp add: is_complete_def)
  next
    case False
    let ?b = "last (blocks ?m)"
    have len: "length ?b = length msg mod BUFF_SIZE" unfolding m(3) by (simp add: diff_diff_cancel mod_less_eq_dividend)
    then have "?b \<noteq> []" using False by auto
    then have "last ?b = last msg" unfolding m(3) by (simp add: last_drop)
    moreover have "?b ! (length ?b - 1) = last ?b" using \<open>?b \<noteq> []\<close> by (simp add: last_conv_nth)
    ultimately show ?thesis using size len m(4) False by (simp add: is_complete_def)
  qed
  ultimately show ?thesis using m(2) by (simp add: message_text_def)
qed

end
