(* ===== verification/Chat_Life.thy ===== *)
theory Chat_Life imports Chat_Props Server_Life begin

text \<open>
  The chat server of p2 from the start of its main function to the end (p2/Server.cpp,
  main_server.cpp). The handlers of Chat_Server are given again with the results of \<open>epoll_ctl\<close>, an
  exception of which leaves the loop, as a failure of \<open>epoll_wait\<close> does after the last event.
\<close>

section \<open>The event loop with failing calls\<close>

datatype chat_event = Accepts "(int \<times> bool) list" | Receives int "recv_outcome list" bool

definition process_event :: "chat_event \<Rightarrow> chat_server \<Rightarrow> chat_server option" where
  "process_event e s = (case e of
      Accepts fds \<Rightarrow> process_master_event fds s
    | Receives fd rs hup \<Rightarrow> map_option fst (process_client_event fd rs hup s))"

fun process_events :: "chat_event list \<Rightarrow> chat_server \<Rightarrow> chat_server option" where
  "process_events [] s = Some s"
| "process_events (e # es) s = (case process_event e s of None \<Rightarrow> None | Some s' \<Rightarrow> process_events es s')"

text \<open>The same with exceptions. The set holds the socket that was accepted and not watched.\<close>

definition disconnect_client_ctl :: "ctl \<Rightarrow> int \<Rightarrow> chat_server \<Rightarrow> (unit thrown, unit, chat_server) outcome" where
  "disconnect_client_ctl ctl fd s = (if ctl fd = -1 then (Inl System_Error, s) else (Inr (), disconnect_client fd s))"

fun recv_message_ctl :: "ctl \<Rightarrow> int \<Rightarrow> recv_outcome list \<Rightarrow> chat_server \<Rightarrow> (unit thrown, bool, chat_server) outcome option" where
  "recv_message_ctl ctl fd [] s = None"
| "recv_message_ctl ctl fd (Bytes d # rs) s =
     (let s1 = receive fd d s in
      if last d = CHR 0x0A then Some (Inr True, s1)
      else if errno_again s1 then Some (Inr True, s1) else recv_message_ctl ctl fd rs s1)"
| "recv_message_ctl ctl fd (Eof # rs) s = Some (case disconnect_client_ctl ctl fd s of
      (Inl e, s1) \<Rightarrow> (Inl e, s1) | (Inr _, s1) \<Rightarrow> (Inr False, s1))"
| "recv_message_ctl ctl fd (Again # rs) s = Some (Inr True, s\<lparr>errno_again := True\<rparr>)"
| "recv_message_ctl ctl fd (Other_Error # rs) s = recv_message_ctl ctl fd rs (s\<lparr>errno_again := False\<rparr>)"

definition process_client_event_ctl ::
    "ctl \<Rightarrow> int \<Rightarrow> recv_outcome list \<Rightarrow> bool \<Rightarrow> chat_server \<Rightarrow> (unit thrown, unit, chat_server) outcome option" where
  "process_client_event_ctl ctl fd rs hup s =
     (case recv_message_ctl ctl fd rs s of
        None \<Rightarrow> None
      | Some (Inl e, s1) \<Rightarrow> Some (Inl e, s1)
      | Some (Inr False, s1) \<Rightarrow> Some (Inr (), s1)
      | Some (Inr True, s1) \<Rightarrow>
         (let msg = message_of fd s1 in
          case is_complete msg of
            None \<Rightarrow> None
          | Some complete \<Rightarrow>
             (let s2 = (if complete
                then (fold (send_message msg) (sorted_list_of_set (slave_sockets s1)) s1)
                  \<lparr>log := log s1 @ [(fd, message_text msg)], messages := (messages s1)(fd \<mapsto> clear msg)\<rparr>
                else s1)
              in Some (if hup then disconnect_client_ctl ctl fd s2 else (Inr (), s2)))))"

fun process_master_event_ctl :: "ctl \<Rightarrow> (int \<times> bool) list \<Rightarrow> chat_server
    \<Rightarrow> (unit thrown, unit, chat_server \<times> int set) outcome option" where
  "process_master_event_ctl ctl [] s = None"
| "process_master_event_ctl ctl ((fd, again) # fds) s =
     (if fd > 0 \<and> ctl fd = -1 then Some (Inl System_Error, s, {fd})
      else (let s1 = (if fd > 0 then accept_client fd s else s\<lparr>errno_again := again\<rparr>)
        in if errno_again s1 then Some (Inr (), s1, {}) else process_master_event_ctl ctl fds s1))"

definition process_event_ctl :: "chat_event \<times> ctl \<Rightarrow> chat_server \<Rightarrow> (unit thrown, unit, chat_server \<times> int set) outcome option" where
  "process_event_ctl e s = (case e of
      (Accepts fds, ctl) \<Rightarrow> process_master_event_ctl ctl fds s
    | (Receives fd rs hup, ctl) \<Rightarrow> map_option (\<lambda>(res, s'). (res, s', {})) (process_client_event_ctl ctl fd rs hup s))"

fun process_events_ctl :: "(chat_event \<times> ctl) list \<Rightarrow> chat_server \<Rightarrow> (unit thrown, unit, chat_server \<times> int set) outcome option" where
  "process_events_ctl [] s = Some (Inr (), s, {})"
| "process_events_ctl (e # es) s = (case process_event_ctl e s of
      Some (Inr _, s', _) \<Rightarrow> process_events_ctl es s' | r \<Rightarrow> r)"

text \<open>What a run that throws nothing does is what Chat_Server says.\<close>

lemma chat_recv_message_ctl_ok:
  "recv_message_ctl ctl fd rs s = Some (Inr b, s') \<Longrightarrow> \<exists>rs'. recv_message fd rs s = Some (b, s', rs')"
  by (induction ctl fd rs s rule: recv_message_ctl.induct) (auto simp: Let_def disconnect_client_ctl_def split: if_splits)

lemma chat_client_event_ctl_ok:
  "process_client_event_ctl ctl fd rs hup s = Some (Inr (), s') \<Longrightarrow> \<exists>rs'. process_client_event fd rs hup s = Some (s', rs')"
  by (auto simp: process_client_event_ctl_def process_client_event_def Let_def disconnect_client_ctl_def
      dest!: chat_recv_message_ctl_ok split: option.splits sum.splits prod.splits bool.splits if_splits)

lemma chat_master_event_ctl_ok:
  "process_master_event_ctl ctl fds s = Some (Inr (), s', stray) \<Longrightarrow> process_master_event fds s = Some s' \<and> stray = {}"
  by (induction ctl fds s rule: process_master_event_ctl.induct) (auto simp: Let_def split: if_splits)

lemma chat_process_events_ctl_ok:
  "process_events_ctl es s = Some (Inr (), s', stray) \<Longrightarrow> process_events (map fst es) s = Some s' \<and> stray = {}"
proof (induction es s rule: process_events_ctl.induct)
  case (2 e es s)
  then show ?case
    by (auto simp: process_event_ctl_def process_event_def dest!: chat_client_event_ctl_ok dest: chat_master_event_ctl_ok
        split: option.splits sum.splits prod.splits chat_event.splits)
qed simp

text \<open>When \<open>epoll_ctl\<close> fails, the socket is open and not a client, or it stays a client.\<close>

lemma chat_recv_message_ctl_thrown:
  "recv_message_ctl ctl fd rs s = Some (Inl e, s') \<Longrightarrow> slave_sockets s' = slave_sockets s \<and> ctl fd = -1"
  by (induction ctl fd rs s rule: recv_message_ctl.induct)
    (auto simp: Let_def disconnect_client_ctl_def receive_def split: if_splits)

lemma recv_message_sockets: "recv_message fd rs s = Some (True, s', rs') \<Longrightarrow> slave_sockets s' = slave_sockets s"
  by (induction fd rs s rule: recv_message.induct) (auto simp: Let_def receive_def split: if_splits)

lemma send_sockets: "slave_sockets (fold (send_message msg) fds s) = slave_sockets s"
  by (induction fds arbitrary: s) (simp_all add: send_message_def)

lemma chat_client_event_ctl_thrown:
  assumes "process_client_event_ctl ctl fd rs hup s = Some (Inl e, s')"
  shows "slave_sockets s' = slave_sockets s \<and> ctl fd = -1"
proof -
  obtain r s1 where r: "recv_message_ctl ctl fd rs s = Some (r, s1)"
    using assms by (auto simp: process_client_event_ctl_def split: option.splits)
  show ?thesis
  proof (cases r)
    case (Inl e')
    with r assms chat_recv_message_ctl_thrown [of ctl fd rs s e' s1] show ?thesis by (simp add: process_client_event_ctl_def)
  next
    case (Inr b)
    with r assms have "b" by (cases b) (simp_all add: process_client_event_ctl_def)
    with r Inr chat_recv_message_ctl_ok recv_message_sockets have s1: "slave_sockets s1 = slave_sockets s" by metis
    define s2 where "s2 c = (if c
        then (fold (send_message (message_of fd s1)) (sorted_list_of_set (slave_sockets s1)) s1)
          \<lparr>log := log s1 @ [(fd, message_text (message_of fd s1))],
            messages := (messages s1)(fd \<mapsto> clear (message_of fd s1))\<rparr> else s1)" for c
    have "slave_sockets (s2 c) = slave_sockets s" for c by (simp add: s2_def send_sockets s1)
    moreover obtain c where "(if hup then disconnect_client_ctl ctl fd (s2 c) else (Inr (), s2 c)) = (Inl e, s')"
      using \<open>b\<close> r Inr assms unfolding process_client_event_ctl_def Let_def s2_def
      by (cases "is_complete (message_of fd s1)") auto
    ultimately show ?thesis by (auto simp: disconnect_client_ctl_def split: if_splits)
  qed
qed

lemma chat_master_event_ctl_thrown:
  "process_master_event_ctl ctl fds s = Some (Inl e, s', stray) \<Longrightarrow>
     \<exists>fd. stray = {fd} \<and> fd \<in> fst ` set fds \<and> 0 < fd \<and> ctl fd = -1 \<and> slave_sockets s \<subseteq> slave_sockets s'"
  by (induction ctl fds s rule: process_master_event_ctl.induct)
    (auto 0 3 simp: Let_def accept_client_def split: if_splits)

section \<open>The object and main\<close>

type_synonym chat_object = "sockets \<times> chat_server"

definition chat_construct :: "bool \<Rightarrow> results \<Rightarrow> sys \<Rightarrow> (unit thrown, chat_object, sys) outcome" where
  "chat_construct again r n = (case open_server r n of
      (Inl e, n1) \<Rightarrow> (Inl e, n1) | (Inr p, n1) \<Rightarrow> (Inr (p, new_chat_server again), n1))"

definition chat_start :: "(chat_event \<times> ctl) list \<Rightarrow> chat_object \<Rightarrow> sys \<Rightarrow> (unit thrown \<times> chat_object \<times> sys) option" where
  "chat_start es obj n = (case process_events_ctl es (snd obj) of
      None \<Rightarrow> None
    | Some (_, s, stray) \<Rightarrow> Some (System_Error, (fst obj, s), with_clients (master_fd (fst obj)) (slave_sockets s) stray n))"

definition chat_destroy :: "int \<Rightarrow> chat_object \<Rightarrow> sys \<Rightarrow> sys ended option" where
  "chat_destroy r_del obj n = close_server r_del (slave_sockets (snd obj)) (fst obj) n"

definition chat_run :: "(chat_event \<times> ctl) list \<Rightarrow> chat_server \<Rightarrow> (unit thrown \<times> chat_server \<times> int set) option" where
  "chat_run es s = map_option (\<lambda>(_, s', stray). (System_Error, s', stray)) (process_events_ctl es s)"

interpretation chat: server_life "Inr (new_chat_server again) :: unit + chat_server" "\<lambda>n. n" "chat_run es" slave_sockets
    "\<lambda>s n. Some (Returns n)" "chat_construct again" "chat_start es" chat_destroy
  by unfold_locales (simp_all add: chat_construct_def chat_start_def chat_run_def chat_destroy_def
      option.map_comp split: option.split ended.split)

definition chat_main :: "bool \<Rightarrow> results \<Rightarrow> (chat_event \<times> ctl) list \<Rightarrow> int \<Rightarrow> sys \<Rightarrow> sys ended option" where
  "chat_main again r es r_del = server_main (chat_construct again r) (chat_start es) (chat_destroy r_del)"

text \<open>\<open>main\<close> of the chat server: what the constructor has opened when it fails stays open; otherwise
  all is given back when no client is connected at the end, but for a socket that was accepted and
  could not be watched, and the end is undefined when a client is connected.\<close>

theorem chat_main_ends:
  assumes "fresh_fds r n"
  shows "if opens r
    then chat_main again r es r_del n = (case process_events_ctl es (new_chat_server again) of
        None \<Rightarrow> None
      | Some (_, s, stray) \<Rightarrow> (if slave_sockets s \<noteq> {} then None
          else Some (if r_del = -1 then Terminated else Returns (still_open r stray n))))
    else \<exists>n1. chat_main again r es r_del n = Some (Returns n1) \<and> open_fds n1 = open_fds n \<union> left_open r"
proof (cases "opens r")
  case False
  from chat.main_fails [OF refl this, of again es r_del n] False show ?thesis by (auto simp: chat_main_def)
next
  case True
  from chat.main_runs [OF refl this assms, of again es r_del] True show ?thesis
    by (auto simp: chat_main_def chat_run_def split: option.split)
qed

section \<open>The client\<close>

text \<open>What the calls of the client's constructor return; \<open>r_in_progress\<close> says that \<open>errno\<close> is
  EINPROGRESS. Descriptors that do not block are part of the state: that of standard input is
  shared with the process that has started the client.\<close>

record client_sys = sys + nonblocking :: "int set"

record client_results =
  r_client_socket :: int
  r_connect :: int
  r_in_progress :: bool

definition client_construct :: "bool \<Rightarrow> client_results \<Rightarrow> client_sys \<Rightarrow> (unit thrown, int \<times> chat_client, client_sys) outcome" where
  "client_construct again r n =
     (if r_client_socket r = -1 then (Inl System_Error, n)
      else (let fd = r_client_socket r; n1 = n\<lparr>open_fds := insert fd (open_fds n)\<rparr>
            in if r_connect r = -1 \<and> \<not> r_in_progress r then (Inl System_Error, n1)
               else (Inr (fd, new_client again), n1\<lparr>nonblocking := insert 0 (insert fd (nonblocking n1))\<rparr>)))"

definition client_destroy :: "int \<times> chat_client \<Rightarrow> client_sys \<Rightarrow> client_sys ended option" where
  "client_destroy obj n = Some (Returns (n\<lparr>open_fds := open_fds n - {fst obj}, nonblocking := nonblocking n - {fst obj}\<rparr>))"

text \<open>Turns with what \<open>select\<close> and the calls of each yield; after the last, \<open>select\<close> fails.\<close>

fun client_turns :: "(string option \<times> bool \<times> recv_outcome list option) list \<Rightarrow> chat_client \<Rightarrow> (unit thrown \<times> chat_client) option" where
  "client_turns [] c = Some (System_Error, c)"
| "client_turns ((stdin, writable, srv) # ts) c = (case client_turn stdin writable srv c of
      None \<Rightarrow> None
    | Some (Inl e, c1) \<Rightarrow> Some (Text, c1)
    | Some (Inr _, c1) \<Rightarrow> client_turns ts c1)"

definition client_start :: "(string option \<times> bool \<times> recv_outcome list option) list \<Rightarrow> int \<times> chat_client \<Rightarrow> client_sys
    \<Rightarrow> (unit thrown \<times> (int \<times> chat_client) \<times> client_sys) option" where
  "client_start ts obj n = map_option (\<lambda>(e, c). (e, (fst obj, c), n)) (client_turns ts (snd obj))"

definition client_main :: "bool \<Rightarrow> client_results \<Rightarrow> (string option \<times> bool \<times> recv_outcome list option) list
    \<Rightarrow> client_sys \<Rightarrow> client_sys ended option" where
  "client_main again r ts = server_main (client_construct again r) (client_start ts) client_destroy"

lemma client_turns_caught: "client_turns ts c = Some (e, c') \<Longrightarrow> e = System_Error \<or> e = Text"
  by (induction ts c rule: client_turns.induct) (auto split: option.splits sum.splits prod.splits)

text \<open>\<open>main\<close> of the client returns whatever the server and the user do; it leaves its socket open if
  it could not connect, and otherwise leaves standard input in the mode that does not block.\<close>

theorem client_main_ends:
  assumes "r_client_socket r \<notin> open_fds n \<union> nonblocking n" "r_client_socket r \<noteq> 0"
  shows "client_main again r ts n =
    (if r_client_socket r = -1 then Some (Returns n)
     else if r_connect r = -1 \<and> \<not> r_in_progress r
     then Some (Returns (n\<lparr>open_fds := insert (r_client_socket r) (open_fds n)\<rparr>))
     else if client_turns ts (new_client again) = None then None
     else Some (Returns (n\<lparr>nonblocking := insert 0 (nonblocking n)\<rparr>)))"
proof (cases "client_turns ts (new_client again)")
  case None
  then show ?thesis by (simp add: client_main_def server_main_def client_construct_def client_start_def Let_def)
next
  case (Some r')
  obtain e c where r': "client_turns ts (new_client again) = Some (e, c)" "e = System_Error \<or> e = Text"
    using Some client_turns_caught by (cases r') blast
  with assms show ?thesis
    by (auto simp: client_main_def server_main_def client_construct_def client_start_def client_destroy_def Let_def
        insert_Diff_if)
qed

end
