(* ===== verification/Exp_Sum.thy ===== *)
theory Exp_Sum imports Complex_Main begin

text \<open>
  The exponential of p10 (p10/main.cpp): the processes of MPI each add up a part of the series,
  pass their last term to the next one, and the parts are summed. The numbers are of any type
  with the operations, double in the source; the theorem is about exact arithmetic.
\<close>

definition n_max :: nat where "n_max = 25"

definition chunk :: "nat \<Rightarrow> nat" where
  "chunk procs = (n_max + 1) div procs + (if n_max mod procs \<noteq> 0 then 1 else 0)"

text \<open>The loop of a process: its last \<open>f\<close> and its \<open>sum\<close>.\<close>

definition exp_turn :: "'a :: {inverse, semiring_1} \<Rightarrow> nat \<Rightarrow> 'a \<times> 'a \<Rightarrow> 'a \<times> 'a" where
  "exp_turn x i p = (case p of (f, acc) \<Rightarrow>
     (let f' = f * (if i \<noteq> 0 then x / of_nat i else 1) in (f', acc + f')))"

definition exp_part :: "'a :: {inverse, semiring_1} \<Rightarrow> nat \<Rightarrow> nat \<Rightarrow> 'a \<times> 'a" where
  "exp_part x procs rank =
     (let n = chunk procs;
          i_begin = rank * n;
          i_end = (rank + 1) * n
      in fold (exp_turn x) [i_begin..<Suc (if i_end > n then n else i_end)] (1, 0))"

text \<open>After the messages: every process but the first multiplies by the \<open>f\<close> of its predecessor,
  as it was before that one received anything.\<close>

definition exp_result :: "'a :: {inverse, semiring_1} \<Rightarrow> nat \<Rightarrow> 'a" where
  "exp_result x procs = sum_list (map (\<lambda>rank.
     snd (exp_part x procs rank) * (if rank \<noteq> 0 then fst (exp_part x procs (rank - 1)) else 1)) [0..<procs])"

section \<open>What is computed\<close>

lemma exp_fold:
  "fold (exp_turn x) [0..<Suc n] (1, 0) = (x ^ n / fact n, \<Sum>i\<le>n. x ^ i / (fact i :: 'a :: field_char_0))"
  by (induction n) (simp_all add: exp_turn_def Let_def ac_simps)

lemma chunk_pos: "0 < procs \<Longrightarrow> 0 < chunk procs"
  by (cases "procs \<le> n_max + 1") (auto simp: chunk_def n_max_def div_greater_zero_iff)

text \<open>In exact arithmetic one process adds the terms of the series up to 26; with more than one
  process the result is the series up to the size of a chunk (14 for two) and one wrong term:
  the other processes contribute nothing else.\<close>

lemma exp_result_sum:
  assumes "0 < procs"
  defines "n \<equiv> chunk procs"
  shows "exp_result (x :: 'a :: field_char_0) procs = (\<Sum>i\<le>n. x ^ i / fact i)
     + (if procs = 1 then 0 else x / of_nat n * (x ^ n / fact n))"
proof -
  have n: "0 < n" unfolding n_def by (rule chunk_pos [OF assms(1)])
  have p0: "exp_part x procs 0 = (x ^ n / fact n, \<Sum>i\<le>n. x ^ i / fact i)"
    using exp_fold [of x n] by (simp add: exp_part_def n_def [symmetric] Let_def del: upt_Suc)
  have p1: "exp_part x procs 1 = (x / of_nat n, x / of_nat n)"
    using n by (simp add: exp_part_def n_def [symmetric] Let_def exp_turn_def)
  have later: "snd (exp_part x procs rank) = 0" if "1 < rank" for rank
  proof -
    have "n < rank * n" using n that by simp
    then show ?thesis by (simp add: exp_part_def n_def [symmetric] Let_def)
  qed
  let ?g = "\<lambda>rank. snd (exp_part x procs rank) * (if rank \<noteq> 0 then fst (exp_part x procs (rank - 1)) else 1)"
  have "exp_result x procs = ?g 0 + sum_list (map ?g [1..<procs])"
    unfolding exp_result_def using assms(1) by (simp add: upt_conv_Cons del: upt_Suc)
  also have "sum_list (map ?g [1..<procs]) = (if procs = 1 then 0 else ?g 1)"
  proof (cases "procs = 1")
    case False
    then have "[1..<procs] = 1 # [2..<procs]" using assms(1) by (simp add: upt_conv_Cons numeral_2_eq_2)
    moreover have "map ?g [2..<procs] = map (\<lambda>_. 0) [2..<procs]"
      using later by (intro map_cong) auto
    then have "sum_list (map ?g [2..<procs]) = 0" by (simp only: sum_list_0)
    ultimately show ?thesis using False by simp
  qed simp
  finally show ?thesis using p0 p1 by simp
qed

end
