(* ===== verification/Exp_Run.thy ===== *)
theory Exp_Run imports Exp_Sum Prelude begin

text \<open>
  The processes of p10 as they run (p10/main.cpp): each sends its last term to the next one, then waits
  for that of the one before. MPI leaves open whether \<open>MPI_Send\<close> returns before the message is received
  (\<open>eager\<close>) or not, so both are steps, and the second alone has to be enough. \<open>MPI_Reduce\<close> adds up the
  sums when all processes have come to it.
\<close>

datatype 'a mpi_pc = Sending 'a 'a | Receiving 'a | Reducing 'a

record 'a mpi =
  mpi_pcs :: "'a mpi_pc list"
  in_flight :: "nat \<Rightarrow> 'a option"

definition after_send :: "nat \<Rightarrow> 'a \<Rightarrow> 'a mpi_pc" where
  "after_send rank acc = (if rank \<noteq> 0 then Receiving acc else Reducing acc)"

inductive mpi_step :: "bool \<Rightarrow> 'a :: times mpi \<Rightarrow> 'a mpi \<Rightarrow> bool" for eager where
  buffered: "eager \<Longrightarrow> r < length (mpi_pcs s) \<Longrightarrow> mpi_pcs s ! r = Sending f acc \<Longrightarrow>
     mpi_step eager s (s\<lparr>mpi_pcs := (mpi_pcs s)[r := after_send r acc], in_flight := (in_flight s)(Suc r \<mapsto> f)\<rparr>)"
| direct: "Suc r < length (mpi_pcs s) \<Longrightarrow> mpi_pcs s ! r = Sending f acc \<Longrightarrow> mpi_pcs s ! Suc r = Receiving acc' \<Longrightarrow>
     mpi_step eager s (s\<lparr>mpi_pcs := (mpi_pcs s)[r := after_send r acc, Suc r := Reducing (acc' * f)]\<rparr>)"
| received: "r < length (mpi_pcs s) \<Longrightarrow> mpi_pcs s ! r = Receiving acc \<Longrightarrow> in_flight s r = Some f \<Longrightarrow>
     mpi_step eager s (s\<lparr>mpi_pcs := (mpi_pcs s)[r := Reducing (acc * f)], in_flight := (in_flight s)(r := None)\<rparr>)"

definition mpi_start :: "'a :: {inverse, semiring_1} \<Rightarrow> nat \<Rightarrow> 'a mpi" where
  "mpi_start x procs = \<lparr>mpi_pcs = map (\<lambda>r. case exp_part x procs r of (f, acc) \<Rightarrow>
     (if r \<noteq> procs - 1 then Sending f acc else after_send r acc)) [0..<procs], in_flight = (\<lambda>_. None)\<rparr>"

definition all_reducing :: "'a mpi \<Rightarrow> bool" where
  "all_reducing s \<longleftrightarrow> (\<forall>p\<in>set (mpi_pcs s). case p of Reducing _ \<Rightarrow> True | _ \<Rightarrow> False)"

definition reduced :: "'a :: monoid_add mpi \<Rightarrow> 'a" where
  "reduced s = sum_list (map (\<lambda>p. case p of Reducing acc \<Rightarrow> acc | _ \<Rightarrow> 0) (mpi_pcs s))"

section \<open>Invariant\<close>

text \<open>Where a process is, what it holds, and that a process has its message to come exactly until it is
  done.\<close>

definition is_sending :: "'a mpi_pc \<Rightarrow> bool" where
  "is_sending p = (case p of Sending _ _ \<Rightarrow> True | _ \<Rightarrow> False)"

definition is_reducing :: "'a mpi_pc \<Rightarrow> bool" where
  "is_reducing p = (case p of Reducing _ \<Rightarrow> True | _ \<Rightarrow> False)"

lemma pc_simps [simp]:
  "is_sending (Sending f acc)" "\<not> is_sending (Receiving acc)" "\<not> is_sending (Reducing acc)" "\<not> is_sending (after_send r acc)"
  "\<not> is_reducing (Sending f acc)" "\<not> is_reducing (Receiving acc)" "is_reducing (Reducing acc)"
  "is_reducing (after_send r acc) \<longleftrightarrow> r = 0"
  by (simp_all add: is_sending_def is_reducing_def after_send_def)

definition pc_ok :: "'a :: {inverse, semiring_1} \<Rightarrow> nat \<Rightarrow> nat \<Rightarrow> 'a mpi_pc \<Rightarrow> bool" where
  "pc_ok x procs r p = (case p of
      Sending f acc \<Rightarrow> (f, acc) = exp_part x procs r \<and> Suc r < procs
    | Receiving acc \<Rightarrow> acc = snd (exp_part x procs r) \<and> 0 < r
    | Reducing acc \<Rightarrow> acc = snd (exp_part x procs r) * (if r \<noteq> 0 then fst (exp_part x procs (r - 1)) else 1))"

definition linked :: "'a mpi \<Rightarrow> nat \<Rightarrow> bool" where
  "linked s r \<longleftrightarrow> (\<not> is_reducing (mpi_pcs s ! Suc r) \<longleftrightarrow> is_sending (mpi_pcs s ! r) \<or> in_flight s (Suc r) \<noteq> None)
     \<and> (is_sending (mpi_pcs s ! r) \<longrightarrow> in_flight s (Suc r) = None)"

definition mpi_inv :: "'a :: {inverse, semiring_1} \<Rightarrow> nat \<Rightarrow> 'a mpi \<Rightarrow> bool" where
  "mpi_inv x procs s \<longleftrightarrow> length (mpi_pcs s) = procs
     \<and> (\<forall>r<procs. pc_ok x procs r (mpi_pcs s ! r))
     \<and> (\<forall>r f. in_flight s r = Some f \<longrightarrow> 0 < r \<and> f = fst (exp_part x procs (r - 1)))
     \<and> (\<forall>r. Suc r < procs \<longrightarrow> linked s r)"

lemma pc_ok_after: "(f, acc) = exp_part x procs r \<Longrightarrow> pc_ok x procs r (after_send r acc)"
  by (auto simp: pc_ok_def after_send_def dest: arg_cong [of _ _ snd])

lemma mpi_inv_start: "0 < procs \<Longrightarrow> mpi_inv x procs (mpi_start x procs)"
  by (auto simp: mpi_inv_def linked_def mpi_start_def pc_ok_def after_send_def split: prod.split)

lemma mpi_step_inv:
  assumes "mpi_step eager s s'" "mpi_inv x procs s"
  shows "mpi_inv x procs s'"
  using assms
proof (induction rule: mpi_step.induct)
  case (buffered r s f acc)
  then have r: "(f, acc) = exp_part x procs r" "Suc r < procs" by (auto simp: mpi_inv_def pc_ok_def dest: spec [of _ r])
  let ?s = "s\<lparr>mpi_pcs := (mpi_pcs s)[r := after_send r acc], in_flight := (in_flight s)(Suc r \<mapsto> f)\<rparr>"
  have "linked ?s i" if "Suc i < procs" for i
  proof -
    have "linked s i" using buffered.prems that by (simp add: mpi_inv_def)
    with buffered that r show ?thesis
      by (cases "i = r"; cases "Suc i = r") (auto simp: linked_def mpi_inv_def)
  qed
  with buffered r pc_ok_after [OF r(1)] show ?case
    by (auto simp: mpi_inv_def nth_list_update dest: arg_cong [of _ _ fst])
next
  case (direct r s f acc acc')
  then have r: "(f, acc) = exp_part x procs r" "acc' = snd (exp_part x procs (Suc r))"
    by (auto simp: mpi_inv_def pc_ok_def dest: spec [of _ r] spec [of _ "Suc r"])
  let ?s = "s\<lparr>mpi_pcs := (mpi_pcs s)[r := after_send r acc, Suc r := Reducing (acc' * f)]\<rparr>"
  have "linked ?s i" if "Suc i < procs" for i
  proof -
    have "linked s i" "linked s r" using direct that by (simp_all add: mpi_inv_def)
    with direct that show ?thesis
      by (cases "i = r"; cases "Suc i = r"; cases "i = Suc r") (auto simp: linked_def mpi_inv_def)
  qed
  moreover have "pc_ok x procs (Suc r) (Reducing (acc' * f))"
    using r by (simp add: pc_ok_def) (metis fst_conv)
  ultimately show ?case using direct pc_ok_after [OF r(1)] by (auto simp: mpi_inv_def nth_list_update)
next
  case (received r s acc f)
  then have r: "acc = snd (exp_part x procs r)" "0 < r" "f = fst (exp_part x procs (r - 1))"
    by (auto simp: mpi_inv_def pc_ok_def dest: spec [of _ r])
  let ?s = "s\<lparr>mpi_pcs := (mpi_pcs s)[r := Reducing (acc * f)], in_flight := (in_flight s)(r := None)\<rparr>"
  have "linked ?s i" if "Suc i < procs" for i
  proof -
    have "linked s i" using received.prems that by (simp add: mpi_inv_def)
    with received that show ?thesis
      by (cases "i = r"; cases "Suc i = r") (auto simp: linked_def mpi_inv_def)
  qed
  moreover have "pc_ok x procs r (Reducing (acc * f))" using r by (simp add: pc_ok_def)
  ultimately show ?case using received by (auto simp: mpi_inv_def nth_list_update)
qed

section \<open>Every run ends with the result\<close>

definition weight :: "'a mpi_pc \<Rightarrow> nat" where
  "weight p = (case p of Sending _ _ \<Rightarrow> 2 | Receiving _ \<Rightarrow> 1 | Reducing _ \<Rightarrow> 0)"

definition mpi_work :: "'a mpi \<Rightarrow> nat" where
  "mpi_work s = sum_list (map weight (mpi_pcs s))"

lemma weight_simps [simp]:
  "weight (Sending f acc) = 2" "weight (Receiving acc) = 1" "weight (Reducing acc) = 0" "weight (after_send r acc) \<le> 1"
  by (simp_all add: weight_def after_send_def)

lemma weight_update:
  "r < length ps \<Longrightarrow> sum_list (map weight (ps[r := p])) + weight (ps ! r) = sum_list (map weight ps) + weight p"
proof (induction ps arbitrary: r)
  case (Cons q ps)
  then show ?case by (cases r) auto
qed simp

lemma mpi_step_work:
  assumes "mpi_step eager s s'"
  shows "mpi_work s' < mpi_work s"
  using assms
proof (induction rule: mpi_step.induct)
  case (buffered r s f acc)
  then show ?case using weight_update [of r "mpi_pcs s" "after_send r acc"] weight_simps(4) [of r acc]
    by (simp add: mpi_work_def del: weight_simps(4))
next
  case (direct r s f acc acc')
  then show ?case using weight_update [of r "mpi_pcs s" "after_send r acc"] weight_simps(4) [of r acc]
      weight_update [of "Suc r" "(mpi_pcs s)[r := after_send r acc]" "Reducing (acc' * f)"]
    by (simp add: mpi_work_def del: weight_simps(4))
next
  case (received r s acc f)
  then show ?case using weight_update [of r "mpi_pcs s" "Reducing (acc * f)"] by (simp add: mpi_work_def)
qed

lemma mpi_progress:
  assumes "mpi_inv x procs s" "\<not> all_reducing s"
  shows "\<exists>s'. mpi_step eager s s'"
proof (cases "\<exists>r<procs. is_sending (mpi_pcs s ! r)")
  case True
  define r where "r = Max {r. r < procs \<and> is_sending (mpi_pcs s ! r)}"
  have fin: "finite {r. r < procs \<and> is_sending (mpi_pcs s ! r)}" by simp
  have r: "r < procs" "is_sending (mpi_pcs s ! r)" using Max_in [OF fin] True by (auto simp: r_def)
  obtain f acc where p: "mpi_pcs s ! r = Sending f acc" using r(2) by (cases "mpi_pcs s ! r") auto
  with r(1) assms(1) have suc: "Suc r < procs" by (auto simp: mpi_inv_def pc_ok_def dest: spec [of _ r])
  with r(2) assms(1) have "\<not> is_reducing (mpi_pcs s ! Suc r)" by (simp add: mpi_inv_def linked_def)
  moreover have "\<not> is_sending (mpi_pcs s ! Suc r)"
  proof
    assume "is_sending (mpi_pcs s ! Suc r)"
    with suc have "Suc r \<le> r" unfolding r_def by (intro Max_ge [OF fin]) simp
    then show False by simp
  qed
  ultimately obtain acc' where "mpi_pcs s ! Suc r = Receiving acc'" by (cases "mpi_pcs s ! Suc r") auto
  with p suc assms(1) show ?thesis by (auto simp: mpi_inv_def intro: mpi_step.direct)
next
  case False
  from assms(2) obtain r where r: "r < length (mpi_pcs s)" "\<not> is_reducing (mpi_pcs s ! r)"
    by (auto simp: all_reducing_def is_reducing_def in_set_conv_nth)
  with False assms(1) obtain acc where acc: "mpi_pcs s ! r = Receiving acc"
    by (cases "mpi_pcs s ! r") (auto simp: mpi_inv_def)
  with assms(1) r(1) have "0 < r" by (auto simp: mpi_inv_def pc_ok_def dest: spec [of _ r])
  then obtain i where i: "r = Suc i" by (cases r) auto
  with assms(1) r(1) have "linked s i" by (simp add: mpi_inv_def)
  with False r i assms(1) obtain f where "in_flight s r = Some f" by (auto simp: linked_def mpi_inv_def)
  with acc r(1) show ?thesis by (blast intro: mpi_step.received)
qed

interpretation mpi: descending "mpi_step eager" "mpi_inv x procs" mpi_work all_reducing
  by unfold_locales (blast intro: mpi_step_inv mpi_step_work mpi_progress)+

lemma reduced_result:
  assumes "mpi_inv x procs s" "all_reducing s"
  shows "reduced s = exp_result x procs"
proof -
  have l: "length (mpi_pcs s) = procs" using assms(1) by (simp add: mpi_inv_def)
  have "(case mpi_pcs s ! r of Reducing acc \<Rightarrow> acc | _ \<Rightarrow> 0)
      = snd (exp_part x procs r) * (if r \<noteq> 0 then fst (exp_part x procs (r - 1)) else 1)" if "r < procs" for r
  proof -
    have "pc_ok x procs r (mpi_pcs s ! r)" using assms(1) that by (simp add: mpi_inv_def)
    moreover have "mpi_pcs s ! r \<in> set (mpi_pcs s)" using that l by simp
    ultimately show ?thesis using assms(2) by (auto simp: all_reducing_def pc_ok_def split: mpi_pc.splits)
  qed
  then have "map (\<lambda>p. case p of Reducing acc \<Rightarrow> acc | _ \<Rightarrow> 0) (mpi_pcs s)
      = map (\<lambda>r. snd (exp_part x procs r) * (if r \<noteq> 0 then fst (exp_part x procs (r - 1)) else 1)) [0..<procs]"
    by (intro nth_equalityI) (simp_all add: l)
  then show ?thesis by (simp add: reduced_def exp_result_def)
qed

lemma mpi_work_start: "mpi_work (mpi_start x procs) \<le> 2 * procs"
proof -
  have "weight p \<le> 2" for p :: "'a mpi_pc" by (cases p) simp_all
  then have "sum_list (map weight ps) \<le> 2 * length ps" for ps :: "'a mpi_pc list"
    using sum_list_mono [of ps weight "\<lambda>_. 2"] by (simp add: sum_list_triv)
  from this [of "mpi_pcs (mpi_start x procs)"] show ?thesis by (simp add: mpi_work_def mpi_start_def)
qed

text \<open>C38: However the messages travel, with sends that return at once or wait for the receiver, the processes
  come to the reduction after at most two steps each, never waiting for each other. In exact arithmetic
  the result of one process is the series up to the power 26; with more than one it is the series up to
  the size of a chunk (14 for two) and one wrong term: the other processes contribute nothing else.\<close>

theorem mpi_run_ends:
  fixes x :: "'a :: field_char_0"
  assumes "0 < procs" "(mpi_step eager ^^ n) (mpi_start x procs) s"
  shows "n \<le> 2 * procs \<and> (if all_reducing s
     then reduced s = (\<Sum>i\<le>chunk procs. x ^ i / fact i)
       + (if procs = 1 then 0 else x / of_nat (chunk procs) * (x ^ chunk procs / fact (chunk procs)))
     else \<exists>s'. mpi_step eager s s')"
proof -
  have "mpi_inv x procs s" "n + mpi_work s \<le> mpi_work (mpi_start x procs)"
    using mpi.run_bound [OF assms(2) mpi_inv_start [OF assms(1)]] by auto
  then show ?thesis
    using mpi.progress [of x procs s eager] reduced_result [of x procs s] mpi_work_start [of x procs] exp_result_sum [OF assms(1), of x]
    by auto
qed

theorem mpi_run_ends_witness:
  "\<exists>s. (mpi_step False)\<^sup>*\<^sup>* (mpi_start (1 :: real) 2) s \<and> all_reducing s
     \<and> reduced s = (\<Sum>i\<le>14. 1 / fact i) + 1 / 14 * (1 / fact 14)"
proof -
  obtain s where s: "(mpi_step False)\<^sup>*\<^sup>* (mpi_start (1 :: real) 2) s" "all_reducing s"
    using mpi.run_ends [OF mpi_inv_start [of 2 "1 :: real"]] by auto
  then obtain n where n: "(mpi_step False ^^ n) (mpi_start (1 :: real) 2) s" by (auto simp: rtranclp_power)
  have c: "chunk 2 = 14" by (simp add: chunk_def n_max_def)
  from mpi_run_ends [OF _ n] s show ?thesis by (auto simp: c)
qed

end
