(* ===== verification/Shm_Bytes.thy ===== *)
theory Shm_Bytes imports Kv_Interleave begin

text \<open>
  The table of p5 in the bytes of the shared memory (p5/HashTable.h, HashTable.cpp): an array of 257
  integers, the bucket heads and the head of the free list, and behind it 2048 nodes of four
  integers. Integers have four bytes, the lowest first. \<open>decode\<close> gives the table the bytes stand
  for; the accesses of Kv_Access become loads and stores of four bytes, each of them one step, as
  aligned integers are on the processors the programs run on.
\<close>

section \<open>Integers in memory\<close>

unbundle bit_operations_syntax

definition load_int :: "memory \<Rightarrow> nat \<Rightarrow> int32" where
  "load_int m a = ucast (m a) OR push_bit 8 (ucast (m (a + 1))) OR push_bit 16 (ucast (m (a + 2)))
     OR push_bit 24 (ucast (m (a + 3)))"

definition store_int :: "nat \<Rightarrow> int32 \<Rightarrow> memory \<Rightarrow> memory" where
  "store_int a v m = m(a := ucast v, a + 1 := ucast (drop_bit 8 v), a + 2 := ucast (drop_bit 16 v),
     a + 3 := ucast (drop_bit 24 v))"

lemma load_store_same: "load_int (store_int a v m) a = v"
proof (rule bit_word_eqI)
  fix n assume "n < LENGTH(32)"
  then consider "n < 8" | "8 \<le> n" "n < 16" | "16 \<le> n" "n < 24" | "24 \<le> n" "n < 32" by fastforce
  then show "bit (load_int (store_int a v m) a) n \<longleftrightarrow> bit v n"
    by cases (auto simp: load_int_def store_int_def bit_simps)
qed

lemma load_store_separate: "a + 4 \<le> b \<or> b + 4 \<le> a \<Longrightarrow> load_int (store_int a v m) b = load_int m b"
  by (auto simp: load_int_def store_int_def)

lemma store_int_frame: "i < a \<or> a + 4 \<le> i \<Longrightarrow> store_int a v m i = m i"
  by (auto simp: store_int_def)

section \<open>The layout\<close>

text \<open>\<open>sizeof(Node)\<close> is 16. \<open>p_table\<close> begins with the block, \<open>p_data\<close> 1028 bytes later.\<close>

definition p_data_offset :: nat where
  "p_data_offset = (HASH_TABLE_SIZE + 1) * 4"

definition TOTAL_MEM_SIZE :: nat where
  "TOTAL_MEM_SIZE = (HASH_TABLE_SIZE + 1) * 4 + BUFFER_SIZE * 16"

fun cell_addr :: "cell \<Rightarrow> nat" where
  "cell_addr (Head i) = 4 * i"
| "cell_addr (Key i) = p_data_offset + 16 * i"
| "cell_addr (Value i) = p_data_offset + 16 * i + 4"
| "cell_addr (Prev i) = p_data_offset + 16 * i + 8"
| "cell_addr (Next i) = p_data_offset + 16 * i + 12"

fun cell_ok :: "cell \<Rightarrow> bool" where
  "cell_ok (Head i) \<longleftrightarrow> i \<le> HASH_TABLE_SIZE"
| "cell_ok (Key i) \<longleftrightarrow> i < BUFFER_SIZE"
| "cell_ok (Value i) \<longleftrightarrow> i < BUFFER_SIZE"
| "cell_ok (Prev i) \<longleftrightarrow> i < BUFFER_SIZE"
| "cell_ok (Next i) \<longleftrightarrow> i < BUFFER_SIZE"

definition int_at :: "cell \<Rightarrow> memory \<Rightarrow> int" where
  "int_at c m = sint (load_int m (cell_addr c))"

definition decode :: "memory \<Rightarrow> node table_mem" where
  "decode m = \<lparr>p_table = map (\<lambda>i. int_at (Head i) m) [0..<Suc HASH_TABLE_SIZE],
     p_data = map (\<lambda>i. \<lparr>node_key = load_int m (cell_addr (Key i)), node_value = load_int m (cell_addr (Value i)),
       n_prev = int_at (Prev i) m, n_next = int_at (Next i) m\<rparr>) [0..<BUFFER_SIZE]\<rparr>"

text \<open>Every cell lies in the block, on a multiple of four, and no two overlap.\<close>

lemma cell_in_block: "cell_ok c \<Longrightarrow> cell_addr c + 4 \<le> TOTAL_MEM_SIZE \<and> 4 dvd cell_addr c"
  by (cases c) (auto simp: TOTAL_MEM_SIZE_def p_data_offset_def HASH_TABLE_SIZE_def BUFFER_SIZE_def
      intro!: dvd_add)

fun slot :: "cell \<Rightarrow> nat" where
  "slot (Head i) = i"
| "slot (Key i) = 257 + 4 * i"
| "slot (Value i) = 258 + 4 * i"
| "slot (Prev i) = 259 + 4 * i"
| "slot (Next i) = 260 + 4 * i"

lemma cell_addr_slot: "cell_addr c = 4 * slot c"
  by (cases c) (simp_all add: p_data_offset_def HASH_TABLE_SIZE_def)

lemma slot_inj: "cell_ok c \<Longrightarrow> cell_ok c' \<Longrightarrow> slot c = slot c' \<Longrightarrow> c = c'"
proof (cases c; cases c')
qed (simp_all add: HASH_TABLE_SIZE_def; presburger)+

lemma cells_separate:
  assumes "cell_ok c" "cell_ok c'" "c \<noteq> c'"
  shows "cell_addr c + 4 \<le> cell_addr c' \<or> cell_addr c' + 4 \<le> cell_addr c"
proof -
  have "slot c \<noteq> slot c'" using slot_inj assms by blast
  then show ?thesis by (auto simp: cell_addr_slot)
qed

section \<open>Loads and stores\<close>

lemma int_at_store_same: "int_at c (store_int (cell_addr c) v m) = sint v"
  by (simp add: int_at_def load_store_same)

lemma int_at_store_other: "cell_ok c \<Longrightarrow> cell_ok c' \<Longrightarrow> c \<noteq> c' \<Longrightarrow> int_at c' (store_int (cell_addr c) v m) = int_at c' m"
  by (simp add: int_at_def load_store_separate cells_separate)

lemma load_decode: "cell_ok c \<Longrightarrow> load c (decode m) = int_at c m"
  by (cases c) (auto simp: decode_def int_at_def simp del: cell_addr.simps upt_Suc)

text \<open>The table is what its cells hold.\<close>

lemma decode_eqI:
  assumes "length (p_table M) = Suc HASH_TABLE_SIZE" "length (p_data M) = BUFFER_SIZE"
    and "\<And>c. cell_ok c \<Longrightarrow> load c M = int_at c m"
  shows "M = decode m"
proof -
  have "p_data M ! i = p_data (decode m) ! i" if "i < BUFFER_SIZE" for i
  proof -
    have c: "cell_ok (Key i)" "cell_ok (Value i)" "cell_ok (Prev i)" "cell_ok (Next i)" using that by simp_all
    note eqs = c [THEN assms(3)]
    show ?thesis using eqs that
      by (cases "p_data M ! i") (simp add: decode_def int_at_def del: cell_addr.simps)
  qed
  then have "p_data M = p_data (decode m)"
    using assms(2) by (intro nth_equalityI) (simp_all add: decode_def del: cell_addr.simps)
  moreover have "p_table M = p_table (decode m)"
  proof (rule nth_equalityI)
    show "length (p_table M) = length (p_table (decode m))" using assms(1) by (simp add: decode_def del: upt_Suc)
    fix i assume "i < length (p_table M)"
    then show "p_table M ! i = p_table (decode m) ! i"
      using assms(3) [of "Head i"] assms(1) by (simp add: decode_def del: upt_Suc cell_addr.simps)
  qed
  ultimately show ?thesis by (cases M) (simp add: decode_def)
qed

lemma load_store_cell:
  assumes "length (p_table M) = Suc HASH_TABLE_SIZE" "length (p_data M) = BUFFER_SIZE" "cell_ok c"
  shows "load c (store c v M) = (case c of Key _ \<Rightarrow> sint (word_of_int v :: int32)
     | Value _ \<Rightarrow> sint (word_of_int v :: int32) | _ \<Rightarrow> v)"
  using assms by (cases c) (auto simp: set_key_def set_value_def set_prev_def set_next_def)

lemma store_lengths [simp]:
  "length (p_table (store c v M)) = length (p_table M)" "length (p_data (store c v M)) = length (p_data M)"
  by (cases c; simp add: set_key_def set_value_def set_prev_def set_next_def)+

lemma decode_lengths [simp]:
  "length (p_table (decode m)) = Suc HASH_TABLE_SIZE" "length (p_data (decode m)) = BUFFER_SIZE"
  by (simp_all add: decode_def)

lemma decode_store:
  assumes "cell_ok c" "sint (word_of_int v :: int32) = v"
  shows "decode (store_int (cell_addr c) (word_of_int v) m) = store c v (decode m)"
proof (rule decode_eqI [symmetric])
  show "length (p_table (store c v (decode m))) = Suc HASH_TABLE_SIZE"
    by simp
  show "length (p_data (store c v (decode m))) = BUFFER_SIZE" by simp
  show "load c' (store c v (decode m)) = int_at c' (store_int (cell_addr c) (word_of_int v) m)" if "cell_ok c'" for c'
  proof (cases "c' = c")
    case True
    then show ?thesis using assms
      by (cases c) (simp_all add: load_store_cell int_at_store_same del: load.simps store.simps cell_addr.simps)
  next
    case False
    with assms that show ?thesis
      by (simp add: load_store_other load_decode int_at_store_other del: load.simps store.simps cell_addr.simps)
  qed
qed

section \<open>A new table\<close>

text \<open>The loops of \<open>shared_memory_set\<close>, store by store.\<close>

definition clear_heads :: "memory \<Rightarrow> memory" where
  "clear_heads = fold (\<lambda>i. store_int (cell_addr (Head i)) (-1)) [0..<HASH_TABLE_SIZE]"

definition link_nodes :: "nat \<Rightarrow> memory \<Rightarrow> memory" where
  "link_nodes n = fold (\<lambda>i m. store_int (cell_addr (Next i)) (if i < BUFFER_SIZE - 1 then word_of_nat i + 1 else -1)
     (store_int (cell_addr (Prev i)) (if i > 0 then word_of_nat i - 1 else -1) m)) [0..<n]"

definition shared_memory_bytes :: "memory \<Rightarrow> memory" where
  "shared_memory_bytes m = link_nodes BUFFER_SIZE (store_int (cell_addr (Head HASH_TABLE_SIZE)) 0 (clear_heads m))"

lemma int_at_store:
  "cell_ok c \<Longrightarrow> cell_ok c' \<Longrightarrow> int_at c' (store_int (cell_addr c) v m) = (if c' = c then sint v else int_at c' m)"
  by (auto simp: int_at_store_same int_at_store_other)

lemma clear_heads_at:
  "n \<le> HASH_TABLE_SIZE \<Longrightarrow> cell_ok c \<Longrightarrow> int_at c (fold (\<lambda>i. store_int (cell_addr (Head i)) (-1)) [0..<n] m)
     = (if \<exists>i<n. c = Head i then -1 else int_at c m)"
  by (induction n) (auto simp: int_at_store less_Suc_eq simp del: cell_addr.simps)

lemma sint_small: "i < BUFFER_SIZE \<Longrightarrow> sint (word_of_nat i :: int32) = int i"
  by (simp add: BUFFER_SIZE_def signed_of_nat signed_take_bit_int_eq_self)

lemma sint_links:
  "i < BUFFER_SIZE \<Longrightarrow> 0 < i \<Longrightarrow> sint (word_of_nat i - 1 :: int32) = int i - 1"
  "Suc i < BUFFER_SIZE \<Longrightarrow> sint (word_of_nat i + 1 :: int32) = int i + 1"
  using sint_small [of "i - 1"] sint_small [of "Suc i"] by (simp_all add: of_nat_diff add.commute)

lemma link_nodes_at:
  "n \<le> BUFFER_SIZE \<Longrightarrow> cell_ok c \<Longrightarrow> int_at c (link_nodes n m) = (case c of
      Prev i \<Rightarrow> if i < n then (if i > 0 then int i - 1 else -1) else int_at c m
    | Next i \<Rightarrow> if i < n then (if i < BUFFER_SIZE - 1 then int i + 1 else -1) else int_at c m
    | _ \<Rightarrow> int_at c m)"
proof (induction n)
  case (Suc n)
  then show ?case
    by (auto simp: link_nodes_def int_at_store sint_links split: cell.split simp del: cell_addr.simps)
qed (simp add: link_nodes_def split: cell.split)

theorem decode_shared_memory: "decode (shared_memory_bytes m) = shared_memory_set (decode m)"
proof (rule decode_eqI [symmetric])
  fix c assume ok: "cell_ok c"
  have "int_at c (shared_memory_bytes m) = (case c of
      Head i \<Rightarrow> if i < HASH_TABLE_SIZE then -1 else 0
    | Prev i \<Rightarrow> if i > 0 then int i - 1 else -1
    | Next i \<Rightarrow> if i < BUFFER_SIZE - 1 then int i + 1 else -1
    | _ \<Rightarrow> int_at c m)"
    using ok by (cases c) (auto simp: shared_memory_bytes_def link_nodes_at [OF order_refl] int_at_store
        clear_heads_def clear_heads_at [OF order_refl] simp del: cell_addr.simps)
  moreover have "load c (shared_memory_set (decode m)) = (case c of
      Head i \<Rightarrow> if i < HASH_TABLE_SIZE then -1 else 0
    | Prev i \<Rightarrow> if i > 0 then int i - 1 else -1
    | Next i \<Rightarrow> if i < BUFFER_SIZE - 1 then int i + 1 else -1
    | _ \<Rightarrow> load c (decode m))"
    using ok by (cases c) (auto simp: shared_memory_set_def nth_append)
  ultimately show "load c (shared_memory_set (decode m)) = int_at c (shared_memory_bytes m)"
    by (simp only: load_decode [OF ok])
qed (simp_all add: shared_memory_set_def)

section \<open>The accesses to the bytes\<close>

inductive byte_step :: "memory \<times> prog list \<Rightarrow> memory \<times> prog list \<Rightarrow> bool" where
  loads: "i < length ps \<Longrightarrow> ps ! i = Load c k \<Longrightarrow> byte_step (m, ps) (m, ps[i := k (int_at c m)])"
| stores: "i < length ps \<Longrightarrow> ps ! i = Store c v k \<Longrightarrow>
     byte_step (m, ps) (store_int (cell_addr c) (word_of_int v) m, ps[i := k])"

text \<open>What a cell may hold: links lead to a node or nowhere, keys and values are integers of 32 bits.\<close>

fun value_ok :: "cell \<Rightarrow> int \<Rightarrow> bool" where
  "value_ok (Key i) v \<longleftrightarrow> sint (word_of_int v :: int32) = v"
| "value_ok (Value i) v \<longleftrightarrow> sint (word_of_int v :: int32) = v"
| "value_ok _ v \<longleftrightarrow> -1 \<le> v \<and> v < int BUFFER_SIZE"

text \<open>Whatever the loads return, the program stays in the block, stores only what a cell may hold, and
  its result, if it comes to one, satisfies \<open>P\<close>.\<close>

primrec safe_to :: "(hash_error + int \<Rightarrow> bool) \<Rightarrow> prog \<Rightarrow> bool" where
  "safe_to P (Done r) \<longleftrightarrow> P r"
| "safe_to P (Load c k) \<longleftrightarrow> cell_ok c \<and> (\<forall>v. value_ok c v \<longrightarrow> safe_to P (k v))"
| "safe_to P (Store c v k) \<longleftrightarrow> cell_ok c \<and> value_ok c v \<and> safe_to P k"
| "safe_to P Stuck \<longleftrightarrow> True"

abbreviation safe :: "prog \<Rightarrow> bool" where
  "safe \<equiv> safe_to (\<lambda>_. True)"

definition ptr_ok :: "node_ptr \<Rightarrow> bool" where
  "ptr_ok p \<longleftrightarrow> (\<forall>i. p = Some i \<longrightarrow> i < BUFFER_SIZE)"

lemma ptr_ok_simps [simp]:
  "ptr_ok None" "ptr_ok (Some i) \<longleftrightarrow> i < BUFFER_SIZE"
  "value_ok (Prev i) v \<Longrightarrow> ptr_ok (to_ptr v)" "value_ok (Next i) v \<Longrightarrow> ptr_ok (to_ptr v)" "value_ok (Head i) v \<Longrightarrow> ptr_ok (to_ptr v)"
  by (auto simp: ptr_ok_def to_ptr_def)

lemma value_ok_simps [simp]:
  "ptr_ok p \<Longrightarrow> value_ok (Prev i) (get_num p)" "ptr_ok p \<Longrightarrow> value_ok (Next i) (get_num p)" "ptr_ok p \<Longrightarrow> value_ok (Head i) (get_num p)"
  "value_ok (Key i) (sint w)" "value_ok (Value i) (sint w)" "value_ok (Prev i) (-1)" "value_ok (Next i) (-1)"
  "j < BUFFER_SIZE \<Longrightarrow> value_ok (Prev i) (int j)" "j < BUFFER_SIZE \<Longrightarrow> value_ok (Head i) (int j)"
  for w :: int32
  by (auto simp: ptr_ok_def get_num_def split: option.split)

lemma get_num_bounds: "ptr_ok p \<Longrightarrow> -1 \<le> get_num p \<and> get_num p < int BUFFER_SIZE"
  by (auto simp: ptr_ok_def get_num_def split: option.split)

lemma get_hash_le [simp]: "get_hash key \<le> HASH_TABLE_SIZE"
  by (rule less_imp_le [OF get_hash_less])

lemma safe_load_ptr:
  assumes "ptr_ok p" "field = Prev \<or> field = Next" "\<And>q. ptr_ok q \<Longrightarrow> safe_to P (k q)"
  shows "safe_to P (load_ptr p field k)"
  using assms by (auto simp: load_ptr_def simp del: value_ok.simps split: option.split)

lemma safe_store_ptr:
  assumes "ptr_ok p" "field \<in> {Key, Value, Prev, Next}" "\<And>i. value_ok (field i) v" "safe_to P k"
  shows "safe_to P (store_ptr p field v k)"
  using assms by (auto simp: store_ptr_def ptr_ok_def simp del: value_ok.simps split: option.split)

lemma safe_find: "ptr_ok p \<Longrightarrow> (\<And>q. ptr_ok q \<Longrightarrow> safe_to P (k q)) \<Longrightarrow> safe_to P (find_prog fuel key p k)"
  by (induction fuel key p k rule: find_prog.induct) (auto simp del: value_ok.simps)

lemma safe_find_node: "(\<And>q. ptr_ok q \<Longrightarrow> safe_to P (k q)) \<Longrightarrow> safe_to P (find_node_prog key k)"
  by (auto simp: find_node_prog_def intro!: safe_find simp del: value_ok.simps)

lemma safe_get: "safe (get_prog key)"
  by (auto simp: get_prog_def intro!: safe_find_node split: option.split)

lemma safe_get_node_free: "(\<And>q. ptr_ok q \<Longrightarrow> safe_to P (k q)) \<Longrightarrow> P (Inl NoMemory) \<Longrightarrow> safe_to P (get_node_free_prog k)"
  by (auto simp: get_node_free_prog_def intro!: safe_load_ptr safe_store_ptr simp del: value_ok.simps
      dest: ptr_ok_simps(5) split: option.split)

lemma safe_set: "safe (set_prog key value)"
  by (auto simp: set_prog_def Let_def intro!: safe_find_node safe_get_node_free safe_store_ptr simp del: value_ok.simps)

lemma safe_unlink:
  "safe_to P k \<Longrightarrow> \<forall>i\<in>set is. i < HASH_TABLE_SIZE \<Longrightarrow> -1 \<le> nxt \<and> nxt < int BUFFER_SIZE \<Longrightarrow> safe_to P (unlink_prog is num nxt k)"
  by (induction "is") auto

lemma safe_set_node_free: "ptr_ok p \<Longrightarrow> safe_to P k \<Longrightarrow> safe_to P (set_node_free_prog p k)"
  by (auto simp: set_node_free_prog_def Let_def
      intro!: safe_load_ptr safe_unlink safe_store_ptr get_num_bounds simp del: value_ok.simps)

lemma safe_del: "safe (del_prog key)"
  by (auto simp: del_prog_def intro!: safe_find_node safe_set_node_free)

section \<open>The bytes under any interleaving\<close>

text \<open>Processes that take one operation after the other. A search that has gone through 2048 nodes and
  goes on is \<open>Stuck\<close> and followed no further; \<open>safe_find\<close> holds for every length of it.\<close>

definition operations :: "prog set" where
  "operations = range get_prog \<union> range change_prog"

inductive shm_step :: "memory \<times> prog list \<Rightarrow> memory \<times> prog list \<Rightarrow> bool" where
  access: "byte_step s s' \<Longrightarrow> shm_step s s'"
| next_operation: "i < length ps \<Longrightarrow> ps ! i = Done r \<Longrightarrow> p \<in> operations \<Longrightarrow> shm_step (m, ps) (m, ps[i := p])"

definition links_ok :: "memory \<Rightarrow> bool" where
  "links_ok m \<longleftrightarrow> (\<forall>c. cell_ok c \<longrightarrow> value_ok c (int_at c m))"

text \<open>The next access of a program is to four bytes of the block.\<close>

fun in_block :: "prog \<Rightarrow> bool" where
  "in_block (Load c k) \<longleftrightarrow> cell_addr c + 4 \<le> TOTAL_MEM_SIZE"
| "in_block (Store c v k) \<longleftrightarrow> cell_addr c + 4 \<le> TOTAL_MEM_SIZE"
| "in_block _ \<longleftrightarrow> True"

definition bytes_inv :: "memory \<Rightarrow> memory \<times> prog list \<Rightarrow> bool" where
  "bytes_inv m0 s \<longleftrightarrow> links_ok (fst s) \<and> (\<forall>i\<ge>TOTAL_MEM_SIZE. fst s i = m0 i) \<and> (\<forall>p\<in>set (snd s). safe p)"

lemma safe_operations: "p \<in> operations \<Longrightarrow> safe p"
proof -
  have "safe (change_prog w)" for w by (cases w) (simp_all add: safe_set safe_del)
  then show "p \<in> operations \<Longrightarrow> safe p" by (auto simp: operations_def safe_get)
qed

lemma value_ok_sint: "cell_ok c \<Longrightarrow> value_ok c v \<Longrightarrow> sint (word_of_int v :: int32) = v"
  by (cases c) (auto simp: BUFFER_SIZE_def signed_of_int signed_take_bit_int_eq_self)

lemma links_ok_store:
  assumes "links_ok m" "cell_ok c" "value_ok c v"
  shows "links_ok (store_int (cell_addr c) (word_of_int v) m)"
  using assms value_ok_sint [OF assms(2,3)]
  by (auto simp: links_ok_def int_at_store simp del: cell_addr.simps cell_ok.simps)

lemma byte_step_inv:
  assumes "byte_step s s'" "bytes_inv m0 s"
  shows "bytes_inv m0 s'"
  using assms
proof (induction rule: byte_step.induct)
  case (loads i ps c k m)
  then have "Load c k \<in> set ps" using nth_mem by fastforce
  with loads have "safe (k (int_at c m))" by (auto simp: bytes_inv_def links_ok_def)
  with loads show ?case by (auto simp: bytes_inv_def dest!: set_update_subset_insert [THEN subsetD])
next
  case (stores i ps c v k m)
  then have "Store c v k \<in> set ps" using nth_mem by fastforce
  with stores have c: "cell_ok c" "value_ok c v" "safe k" by (auto simp: bytes_inv_def)
  with stores links_ok_store [OF _ c(1,2)] cell_in_block [OF c(1)] show ?case
    by (auto simp: bytes_inv_def store_int_frame dest!: set_update_subset_insert [THEN subsetD])
qed

lemma shm_step_inv: "shm_step s s' \<Longrightarrow> bytes_inv m0 s \<Longrightarrow> bytes_inv m0 s'"
proof (induction rule: shm_step.induct)
  case (access s s')
  then show ?case by (rule byte_step_inv)
qed (auto simp: bytes_inv_def safe_operations dest!: set_update_subset_insert [THEN subsetD])

lemma shm_run_inv: "shm_step\<^sup>*\<^sup>* s s' \<Longrightarrow> bytes_inv m0 s \<Longrightarrow> bytes_inv m0 s'"
  by (induction rule: rtranclp_induct) (auto intro: shm_step_inv)

lemma safe_in_block: "safe p \<Longrightarrow> in_block p"
  by (cases p) (auto dest: cell_in_block)

subsection \<open>The start\<close>

lemma links_ok_init: "links_ok (shared_memory_bytes m)"
  unfolding links_ok_def
proof (intro allI impI)
  fix c assume ok: "cell_ok c"
  have "int_at c (shared_memory_bytes m) = load c (shared_memory_set (decode m))"
    by (simp add: decode_shared_memory load_decode [OF ok, symmetric])
  then show "value_ok c (int_at c (shared_memory_bytes m))"
    using ok by (cases c) (auto simp: shared_memory_set_def nth_append BUFFER_SIZE_def)
qed

lemma shared_memory_frame: "TOTAL_MEM_SIZE \<le> i \<Longrightarrow> shared_memory_bytes m i = m i"
proof -
  assume i: "TOTAL_MEM_SIZE \<le> i"
  have st: "store_int (cell_addr c) v m i = m i" if "cell_ok c" for c v m
    using cell_in_block [OF that] i by (intro store_int_frame) simp
  have "n \<le> HASH_TABLE_SIZE \<Longrightarrow> fold (\<lambda>i. store_int (cell_addr (Head i)) (-1)) [0..<n] m i = m i" for n m
    by (induction n) (auto simp: st simp del: cell_addr.simps)
  moreover have "n \<le> BUFFER_SIZE \<Longrightarrow> link_nodes n m i = m i" for n m
    by (induction n) (auto simp: link_nodes_def st simp del: cell_addr.simps)
  ultimately show ?thesis by (simp add: shared_memory_bytes_def clear_heads_def st del: cell_addr.simps)
qed

lemma bytes_inv_init: "bytes_inv m (shared_memory_bytes m, replicate n (Done r))"
  by (simp add: bytes_inv_def links_ok_init shared_memory_frame)

section \<open>The bytes do what the table does\<close>

lemma byte_step_decode:
  assumes "byte_step s s'" "bytes_inv m0 s"
  shows "mem_step (decode (fst s), snd s) (decode (fst s'), snd s')"
  using assms
proof (induction rule: byte_step.induct)
  case (loads i ps c k m)
  then have "Load c k \<in> set ps" using nth_mem by fastforce
  with loads have "cell_ok c" by (auto simp: bytes_inv_def)
  with mem_step.loads [OF loads(1,2), of "decode m"] show ?case by (simp add: load_decode)
next
  case (stores i ps c v k m)
  then have "Store c v k \<in> set ps" using nth_mem by fastforce
  with stores have "cell_ok c" "value_ok c v" by (auto simp: bytes_inv_def)
  with mem_step.stores [OF stores(1,2), of "decode m"] show ?case by (simp add: decode_store value_ok_sint)
qed

lemma byte_run_decode:
  "byte_step\<^sup>*\<^sup>* s s' \<Longrightarrow> bytes_inv m0 s \<Longrightarrow> mem_step\<^sup>*\<^sup>* (decode (fst s), snd s) (decode (fst s'), snd s')"
proof (induction rule: rtranclp_induct)
  case (step s' s'')
  have "bytes_inv m0 s'" using step.hyps(1) step.prems
    by (induction rule: rtranclp_induct) (auto intro: byte_step_inv)
  with step byte_step_decode [OF step.hyps(2)] show ?case by (meson rtranclp.rtrancl_into_rtrancl)
qed simp

text \<open>A well-formed table has its links in order.\<close>

lemma dls_links:
  "dls d p h xs t \<Longrightarrow> i \<in> set xs \<Longrightarrow>
     n_prev (d ! i) \<in> insert p (int ` set xs) \<and> n_next (d ! i) \<in> insert t (int ` set xs)"
proof (induction xs arbitrary: p h)
  case (Cons x xs)
  then show ?case by (cases xs) auto
qed simp

lemma dls_link_bounds:
  assumes "dls d (-1) h xs (-1)" "set xs \<subseteq> {..<n}" "i \<in> set xs"
  shows "-1 \<le> n_prev (d ! i) \<and> n_prev (d ! i) < int n \<and> -1 \<le> n_next (d ! i) \<and> n_next (d ! i) < int n"
  using dls_links [OF assms(1,3)] assms(2) by auto

lemma links_ok_layout:
  assumes l: "layout (decode m) B F"
  shows "links_ok m"
  unfolding links_ok_def
proof (intro allI impI)
  fix c assume ok: "cell_ok c"
  let ?d = "p_data (decode m)"
  note bucket = bucket_ok_dll [OF layout_bucket [OF l]]
  have free: "dll ?d (p_table (decode m) ! HASH_TABLE_SIZE) F" using l by (simp add: layout_but_def)
  have all: "(\<Union>h<HASH_TABLE_SIZE. set (B h)) \<union> set F = {..<BUFFER_SIZE}" using l by (simp add: layout_but_def)
  have link: "-1 \<le> n_prev (?d ! i) \<and> n_prev (?d ! i) < int BUFFER_SIZE \<and> -1 \<le> n_next (?d ! i) \<and> n_next (?d ! i) < int BUFFER_SIZE"
    if "i < BUFFER_SIZE" for i
  proof (cases "i \<in> set F")
    case True
    then show ?thesis by (intro dls_link_bounds [OF free]) (use all in blast)+
  next
    case False
    with that all obtain b where "b < HASH_TABLE_SIZE" "i \<in> set (B b)" by blast
    then show ?thesis by (intro dls_link_bounds [OF bucket [of b]]) (use all in blast)+
  qed
  have len: "length ?d = BUFFER_SIZE" using l by (simp add: layout_but_def)
  have hd_ok: "-1 \<le> h \<and> h < int BUFFER_SIZE" if "dll ?d h xs" for h xs
    using that len by (cases xs) auto
  have head: "-1 \<le> p_table (decode m) ! i \<and> p_table (decode m) ! i < int BUFFER_SIZE" if "i \<le> HASH_TABLE_SIZE" for i
    using hd_ok [OF free] hd_ok [OF bucket [of i]] that by (cases "i = HASH_TABLE_SIZE") auto
  have "value_ok c (load c (decode m))"
    using ok link head by (cases c) simp_all
  then show "value_ok c (int_at c m)" by (simp only: load_decode [OF ok])
qed

text \<open>A set or del beside gets of other buckets, in the bytes: whoever has ended has ended with the result
  of the function on the table the bytes stood for, and so has the memory.\<close>

theorem bytes_as_function:
  assumes inv: "pool_inv (decode m)" and keys: "\<forall>k\<in>set ks. get_hash k \<noteq> get_hash (change_key w)"
    and run: "byte_step\<^sup>*\<^sup>* (m, change_prog w # map get_prog ks) (m', ps)"
  shows "ps ! 0 = Done x \<Longrightarrow> \<exists>r. change_fun w (decode m) = Some (r, decode m') \<and> x = op_result r"
    and "j < length ks \<Longrightarrow> ps ! Suc j = Done x \<Longrightarrow> x = get_result (decode m) (ks ! j)"
proof -
  let ?ps = "change_prog w # map get_prog ks"
  obtain B F where "layout (decode m) B F" using inv by (auto simp: pool_inv_def)
  from links_ok_layout [OF this] have "bytes_inv m (m, ?ps)"
    by (auto simp: bytes_inv_def safe_operations operations_def)
  from byte_run_decode [OF run this] have "mem_step\<^sup>*\<^sup>* (decode m, ?ps) (decode m', ps)" by simp
  from one_writer [OF inv keys this]
  obtain C where u: "undisturbed C (decode m) (change_prog w) (map get_prog ks) (decode m', ps)" by blast
  show "\<exists>r. change_fun w (decode m) = Some (r, decode m') \<and> x = op_result r" if "ps ! 0 = Done x"
    using u that exec_change(1) [OF inv, of w] by (cases "change_fun w (decode m)") (auto simp: undisturbed_def)
  show "x = get_result (decode m) (ks ! j)" if "j < length ks" "ps ! Suc j = Done x"
    using u that exec_get [OF inv, of "ks ! j"] by (auto simp: undisturbed_def)
qed

section \<open>Memory safety\<close>

text \<open>C12: Any number of processes, on a table set up in whatever the memory held, each doing one
  operation after the other and all accesses interleaved, writers of the same bucket too: no access
  leaves the block, every byte behind it keeps its value, and the links stay links to nodes, although
  the table itself can be ruined.\<close>

theorem table_memory_safe:
  assumes "shm_step\<^sup>*\<^sup>* (shared_memory_bytes m, replicate n (Done (Inr 0))) (m', ps)"
  shows "(\<forall>p\<in>set ps. in_block p) \<and> (\<forall>i\<ge>TOTAL_MEM_SIZE. m' i = m i) \<and> links_ok m'"
  using shm_run_inv [OF assms bytes_inv_init] safe_in_block by (auto simp: bytes_inv_def)

theorem table_memory_safe_witness:
  "\<forall>m. shm_step\<^sup>*\<^sup>* (shared_memory_bytes m, replicate 2 (Done (Inr 0))) (shared_memory_bytes m, [set_prog 0 5, set_prog 0 6])
     \<and> in_block (set_prog 0 5) \<and> shared_memory_bytes m 33796 = m 33796"
proof
  fix m
  let ?m = "shared_memory_bytes m"
  have op: "set_prog 0 v \<in> operations" for v
    unfolding operations_def by (rule UnI2, rule range_eqI [of _ _ "W_Set 0 v"]) simp
  have "shm_step (?m, replicate 2 (Done (Inr 0))) (?m, [set_prog 0 5, Done (Inr 0)])"
    "shm_step (?m, [set_prog 0 5, Done (Inr 0)]) (?m, [set_prog 0 5, set_prog 0 6])"
    using next_operation [OF _ _ op, where i = 0 and ps = "replicate 2 (Done (Inr 0))"]
      next_operation [OF _ _ op, where i = 1 and ps = "[set_prog 0 5, Done (Inr 0)]"] by (simp_all add: numeral_2_eq_2)
  then have run: "shm_step\<^sup>*\<^sup>* (?m, replicate 2 (Done (Inr 0))) (?m, [set_prog 0 5, set_prog 0 6])"
    by (meson converse_rtranclp_into_rtranclp rtranclp.rtrancl_refl)
  have "TOTAL_MEM_SIZE = 33796" by (simp add: TOTAL_MEM_SIZE_def HASH_TABLE_SIZE_def BUFFER_SIZE_def)
  with table_memory_safe [OF run] run
  show "shm_step\<^sup>*\<^sup>* (?m, replicate 2 (Done (Inr 0))) (?m, [set_prog 0 5, set_prog 0 6]) \<and> in_block (set_prog 0 5) \<and> ?m 33796 = m 33796"
    by simp
qed

end
