(* ===== verification/Ttl_Access.thy ===== *)
theory Ttl_Access imports Ttl_Table Shm_Bytes begin

text \<open>
  The operations of the table of p6 and the pass of its cleaner as sequences of accesses to the shared
  memory (p6/HashTable.cpp, HashTable.h, main.cpp), as Kv_Access has those of p5. What has the same text as
  in p5 is the same sequence. A reading of the clock is a step of its own, with any result; of
  \<open>is_expired\<close>, whose two readings C++ orders as it likes, the time of death is read first. The searches and
  the cleaner follow as many nodes as their fuel says, which is arbitrary here; after that they are
  \<open>TStuck\<close>.
\<close>

section \<open>Accesses\<close>

datatype tcell = Shared cell | Ttl nat | Death nat

fun tload :: "tcell \<Rightarrow> ttl_mem \<Rightarrow> int" where
  "tload (Shared c) M = load c M"
| "tload (Ttl i) M = sint (ttl (p_data M ! i))"
| "tload (Death i) M = t_death (p_data M ! i)"

fun tstore :: "tcell \<Rightarrow> int \<Rightarrow> ttl_mem \<Rightarrow> ttl_mem" where
  "tstore (Shared c) v M = store c v M"
| "tstore (Ttl i) v M = M\<lparr>p_data := (p_data M)[i := (p_data M ! i)\<lparr>ttl := word_of_int v\<rparr>]\<rparr>"
| "tstore (Death i) v M = M\<lparr>p_data := (p_data M)[i := (p_data M ! i)\<lparr>t_death := v\<rparr>]\<rparr>"

datatype tprog = TDone "hash_error + int" | TLoad tcell "int \<Rightarrow> tprog" | TStore tcell int tprog
  | TClock "int \<Rightarrow> tprog" | TStuck

text \<open>The shared code, and what follows it.\<close>

primrec lift :: "prog \<Rightarrow> (hash_error + int \<Rightarrow> tprog) \<Rightarrow> tprog" where
  "lift (Done r) k = k r"
| "lift (Load c f) k = TLoad (Shared c) (\<lambda>v. lift (f v) k)"
| "lift (Store c v p) k = TStore (Shared c) v (lift p k)"
| "lift Stuck k = TStuck"

definition lift_ptr :: "((node_ptr \<Rightarrow> prog) \<Rightarrow> prog) \<Rightarrow> (node_ptr \<Rightarrow> tprog) \<Rightarrow> tprog" where
  "lift_ptr f k = lift (f (\<lambda>p. Done (Inr (get_num p))))
     (\<lambda>r. case r of Inl e \<Rightarrow> TDone (Inl e) | Inr n \<Rightarrow> k (to_ptr n))"

section \<open>The operations\<close>

definition ttl_find_prog :: "nat \<Rightarrow> int32 \<Rightarrow> (node_ptr \<Rightarrow> tprog) \<Rightarrow> tprog" where
  "ttl_find_prog fuel key = lift_ptr (\<lambda>k. Load (Head (get_hash key)) (\<lambda>h. find_prog fuel key (to_ptr h) k))"

definition set_ttl_prog :: "nat \<Rightarrow> int \<Rightarrow> tprog \<Rightarrow> tprog" where
  "set_ttl_prog i life k = TClock (\<lambda>now. TStore (Death i) (now + life) (TStore (Ttl i) life k))"

definition is_expired_prog :: "nat \<Rightarrow> (bool \<Rightarrow> tprog) \<Rightarrow> tprog" where
  "is_expired_prog i k = TLoad (Death i) (\<lambda>d. TClock (\<lambda>now. k (d < now)))"

definition ttl_free_prog :: "nat \<Rightarrow> tprog \<Rightarrow> tprog" where
  "ttl_free_prog i k = lift (set_node_free_prog (Some i) (Done (Inr 0))) (\<lambda>_. k)"

definition ttl_set_prog :: "nat \<Rightarrow> int32 \<Rightarrow> int32 \<Rightarrow> int32 \<Rightarrow> tprog" where
  "ttl_set_prog fuel key life value = ttl_find_prog fuel key (\<lambda>p_node. case p_node of
      Some i \<Rightarrow> TStore (Shared (Value i)) (sint value) (set_ttl_prog i (sint life) (TDone (Inr 0)))
    | None \<Rightarrow> lift_ptr get_node_free_prog (\<lambda>p_node. case p_node of
        None \<Rightarrow> TDone (Inl NoMemory)
      | Some i \<Rightarrow> TStore (Shared (Key i)) (sint key) (TStore (Shared (Value i)) (sint value)
          (set_ttl_prog i (sint life) (TLoad (Shared (Head (get_hash key))) (\<lambda>n.
            let p_next = to_ptr n in
            lift (store_ptr (Some i) Next (get_num p_next) (store_ptr p_next Prev (get_num (Some i))
              (Store (Head (get_hash key)) (get_num (Some i)) (Done (Inr 0))))) TDone))))))"

definition ttl_get_prog :: "nat \<Rightarrow> int32 \<Rightarrow> tprog" where
  "ttl_get_prog fuel key = ttl_find_prog fuel key (\<lambda>p_node. case p_node of
      None \<Rightarrow> TDone (Inl NoKey)
    | Some i \<Rightarrow> is_expired_prog i (\<lambda>expired.
        if \<not> expired then TLoad (Ttl i) (\<lambda>life. set_ttl_prog i life (TLoad (Shared (Value i)) (\<lambda>v. TDone (Inr v))))
        else ttl_free_prog i (TDone (Inl NotExists))))"

definition ttl_del_prog :: "nat \<Rightarrow> int32 \<Rightarrow> tprog" where
  "ttl_del_prog fuel key = ttl_find_prog fuel key (\<lambda>p_node. case p_node of
      None \<Rightarrow> TDone (Inl NoKey)
    | Some i \<Rightarrow> is_expired_prog i (\<lambda>expired.
        if \<not> expired then ttl_free_prog i (TDone (Inr 0)) else ttl_free_prog i (TDone (Inl NotExists))))"

text \<open>The pass of the cleaner over the buckets it reaches, the first eight (\<open>clean\<close> of Ttl_Table).\<close>

fun clean_bucket_prog :: "nat \<Rightarrow> node_ptr \<Rightarrow> tprog \<Rightarrow> tprog" where
  "clean_bucket_prog fuel None k = k"
| "clean_bucket_prog 0 (Some i) k = TStuck"
| "clean_bucket_prog (Suc fuel) (Some i) k = TLoad (Shared (Next i)) (\<lambda>n.
     is_expired_prog i (\<lambda>expired.
       if expired then ttl_free_prog i (clean_bucket_prog fuel (to_ptr n) k) else clean_bucket_prog fuel (to_ptr n) k))"

fun clean_buckets_prog :: "nat \<Rightarrow> nat list \<Rightarrow> tprog" where
  "clean_buckets_prog fuel [] = TDone (Inr 0)"
| "clean_buckets_prog fuel (i # is) = TLoad (Shared (Head i)) (\<lambda>h. clean_bucket_prog fuel (to_ptr h) (clean_buckets_prog fuel is))"

definition clean_prog :: "nat \<Rightarrow> tprog" where
  "clean_prog fuel = clean_buckets_prog fuel [0..<NUM_SECTIONS]"

section \<open>One process alone\<close>

primrec texec :: "tprog \<Rightarrow> int list \<Rightarrow> ttl_mem \<Rightarrow> ((hash_error + int) \<times> ttl_mem) option" where
  "texec (TDone r) ts M = Some (r, M)"
| "texec (TLoad c k) ts M = texec (k (tload c M)) ts M"
| "texec (TStore c v k) ts M = texec k ts (tstore c v M)"
| "texec (TClock k) ts M = (case ts of [] \<Rightarrow> None | t # ts' \<Rightarrow> texec (k t) ts' M)"
| "texec TStuck ts M = None"

lemma texec_lift: "texec (lift p k) ts M = (case exec p M of None \<Rightarrow> None | Some (r, M1) \<Rightarrow> texec (k r) ts M1)"
  by (induction p arbitrary: M) simp_all

lemma to_ptr_get_num [simp]: "to_ptr (get_num p) = p"
  by (simp add: to_ptr_def get_num_def split: option.split)

lemma texec_find:
  assumes "layout M B F" "find_node M key = Some p"
  shows "texec (ttl_find_prog BUFFER_SIZE key k) ts M = texec (k p) ts M"
proof -
  have "exec (find_node_prog key (\<lambda>p. Done (Inr (get_num p)))) M = Some (Inr (get_num p), M)"
    by (simp add: exec_find_node [OF assms])
  then show ?thesis by (simp add: ttl_find_prog_def lift_ptr_def texec_lift find_node_prog_def del: exec.simps) (simp add: texec_lift)
qed

lemma texec_set_ttl [simp]:
  "i < length (p_data M) \<Longrightarrow> texec (set_ttl_prog i (sint life) k) (now # ts) M
     = texec k ts (M\<lparr>p_data := set_ttl now (Some i) life (p_data M)\<rparr>)"
  for life :: int32
  by (simp add: set_ttl_prog_def set_ttl_def)

lemma texec_is_expired [simp]:
  "texec (is_expired_prog i k) (now # ts) M = texec (k (is_expired now (p_data M ! i))) ts M"
  by (simp add: is_expired_prog_def is_expired_def)

lemma texec_free [simp]: "texec (ttl_free_prog i k) ts M = texec k ts (ttl_set_node_free (Some i) M)"
  by (simp add: ttl_free_prog_def texec_lift exec_set_node_free)

text \<open>\<open>get\<close> and \<open>del\<close> alone, with the readings of the clock in their order.\<close>

lemma texec_get:
  assumes "pool_inv M"
  shows "texec (ttl_get_prog BUFFER_SIZE key) [t0, t1] M
     = map_option (map_prod (map_sum id sint) id) (ttl_get t0 t1 key M)"
proof -
  obtain B F where l: "layout M B F" using assms by (auto simp: pool_inv_def)
  obtain p where p: "find_node M key = Some p" using find_node_total [OF l] by blast
  have "i < length (p_data M)" if "p = Some i" for i
    using find_node_SomeD [OF l] p layout_lengths [OF l] that by auto
  then show ?thesis
    by (auto simp: ttl_get_prog_def texec_find [OF l p] ttl_get_def p Let_def split: option.split)
qed

lemma texec_del:
  assumes "pool_inv M"
  shows "texec (ttl_del_prog BUFFER_SIZE key) [now] M = map_option (map_prod op_result id) (ttl_del now key M)"
proof -
  obtain B F where l: "layout M B F" using assms by (auto simp: pool_inv_def)
  obtain p where p: "find_node M key = Some p" using find_node_total [OF l] by blast
  show ?thesis
    by (auto simp: ttl_del_prog_def texec_find [OF l p] ttl_del_def p op_result_def split: option.split)
qed

lemma texec_get_node_free:
  "texec (lift_ptr get_node_free_prog k) ts M = (case get_node_free M of
      (Inl e, M1) \<Rightarrow> Some (Inl e, M1) | (Inr p, M1) \<Rightarrow> texec (k p) ts M1)"
  by (auto simp: lift_ptr_def texec_lift get_node_free_prog_def get_node_free_def
      get_num_free_node_def set_num_free_node_def Let_def split: option.split)

lemma texec_set:
  assumes "pool_inv M"
  shows "texec (ttl_set_prog BUFFER_SIZE key life value) [now] M
     = map_option (map_prod op_result id) (ttl_set now key life value M)"
proof -
  obtain B F where l: "layout M B F" using assms by (auto simp: pool_inv_def)
  obtain p where p: "find_node M key = Some p" using find_node_total [OF l] by blast
  have len: "i < length (p_data M)" if "p = Some i" for i
    using find_node_SomeD [OF l] p layout_lengths [OF l] that by auto
  show ?thesis
  proof (cases p)
    case (Some i)
    then show ?thesis using len
      by (simp add: ttl_set_prog_def texec_find [OF l p] ttl_set_def p op_result_def set_value_def)
  next
    case None
    show ?thesis
    proof (cases F)
      case Nil
      then show ?thesis using layout_free [OF l]
        by (simp add: ttl_set_prog_def texec_find [OF l p] ttl_set_def p None texec_get_node_free
            get_node_free_layout [OF l] op_result_def)
    next
      case (Cons f F')
      then have "f < length (p_data M)" using layout_free [OF l] by simp
      then show ?thesis using Cons
        by (simp add: ttl_set_prog_def texec_find [OF l p] ttl_set_def p None texec_get_node_free
            get_node_free_layout [OF l] op_result_def texec_lift link_front_def Let_def set_key_def set_value_def)
    qed
  qed
qed

text \<open>A pass of the cleaner alone, all its readings of the clock the same.\<close>

lemma texec_clean_bucket:
  assumes "layout M B F" "h < HASH_TABLE_SIZE" "B h = ys @ zs" "length zs \<le> fuel"
    and "clean_bucket now (to_ptr (head_num zs (-1))) M = Some M'"
  shows "texec (clean_bucket_prog fuel (to_ptr (head_num zs (-1))) k) (replicate (length zs) now @ ts) M = texec k ts M'"
  using assms
proof (induction zs arbitrary: M B F ys fuel)
  case Nil
  then show ?case by (simp add: clean_bucket.simps)
next
  case (Cons z zs)
  then obtain fuel' where fuel: "fuel = Suc fuel'" "length zs \<le> fuel'" by (cases fuel) auto
  have "dls (p_data M) (int z) (n_next (p_data M ! z)) zs (-1)"
    using bucket_ok_dll [OF layout_bucket [OF Cons.prems(1,2)]] Cons.prems(3) by (simp add: dls_append)
  then have n: "n_next (p_data M ! z) = head_num zs (-1)" by (rule dls_head)
  let ?M = "if is_expired now (p_data M ! z) then set_node_free (Some z) M else M"
  obtain B' F' ys' where l: "layout ?M B' F'" "B' h = ys' @ zs"
  proof (cases "is_expired now (p_data M ! z)")
    case True
    with set_node_free_layout [OF Cons.prems(1-3)] that show ?thesis by simp
  next
    case False
    with Cons.prems that [of B F "ys @ [z]"] show ?thesis by simp
  qed
  have "clean_bucket now (to_ptr (head_num zs (-1))) ?M = Some M'"
    using Cons.prems(5) by (subst (asm) clean_bucket.simps) (simp add: n Let_def cong: if_cong)
  from Cons.IH [OF l(1) Cons.prems(2) l(2) fuel(2) this] show ?case by (simp add: fuel(1) n split: if_splits)
qed

lemma texec_clean_buckets:
  assumes "pool_inv M" "i \<le> NUM_SECTIONS"
  shows "\<exists>n M'. clean_section now 0 i M = Some (NUM_SECTIONS, M')
     \<and> texec (clean_buckets_prog BUFFER_SIZE [i..<NUM_SECTIONS]) (replicate n now) M = Some (Inr 0, M')"
  using assms
proof (induction "NUM_SECTIONS - i" arbitrary: i M)
  case 0
  then show ?case by (subst clean_section.simps) simp
next
  case (Suc m)
  then have i: "i < NUM_SECTIONS" and h: "i < HASH_TABLE_SIZE" by (simp_all add: NUM_SECTIONS_def HASH_TABLE_SIZE_def)
  from Suc.prems obtain B F where l: "layout M B F" by (auto simp: pool_inv_def)
  from clean_bucket_view [OF l h] obtain M1 where
    c: "clean_bucket now (to_ptr (p_table M ! i)) M = Some M1" "pool_inv M1" by blast
  have "m = NUM_SECTIONS - Suc i" using Suc.hyps(2) by simp
  from Suc.hyps(1) [OF this c(2)] i obtain n M' where
    M': "clean_section now 0 (Suc i) M1 = Some (NUM_SECTIONS, M')"
    "texec (clean_buckets_prog BUFFER_SIZE [Suc i..<NUM_SECTIONS]) (replicate n now) M1 = Some (Inr 0, M')" by auto
  have hd: "p_table M ! i = head_num (B i) (-1)" using bucket_ok_dll [OF layout_bucket [OF l h]] by (rule dls_head)
  from texec_clean_bucket [OF l h _ chain_length [OF l h], where ys = "[]"] c(1) hd
  have "texec (clean_buckets_prog BUFFER_SIZE [i..<NUM_SECTIONS]) (replicate (length (B i)) now @ replicate n now) M = Some (Inr 0, M')"
    using i M'(2) by (simp add: upt_conv_Cons)
  then have "texec (clean_buckets_prog BUFFER_SIZE [i..<NUM_SECTIONS]) (replicate (length (B i) + n) now) M = Some (Inr 0, M')"
    by (simp add: replicate_add)
  moreover have "clean_section now 0 i M = Some (NUM_SECTIONS, M')"
    using i c(1) M'(1) by (subst clean_section.simps) simp
  ultimately show ?case by blast
qed

lemma texec_clean:
  assumes "pool_inv M"
  shows "\<exists>n M'. clean now M = Some M' \<and> texec (clean_prog BUFFER_SIZE) (replicate n now) M = Some (Inr 0, M')"
proof -
  obtain n M' where "clean_section now 0 0 M = Some (NUM_SECTIONS, M')"
    "texec (clean_prog BUFFER_SIZE) (replicate n now) M = Some (Inr 0, M')"
    using texec_clean_buckets [OF assms, of 0 now] by (auto simp: clean_prog_def)
  moreover have "[0..<NUM_SECTIONS] = 0 # [1..<NUM_SECTIONS]" by (simp add: NUM_SECTIONS_def upt_conv_Cons)
  moreover have "clean_sections now [1..<NUM_SECTIONS] NUM_SECTIONS M' = Some M'"
    by (rule clean_sections_rest) simp
  ultimately show ?thesis by (intro exI [of _ n] exI [of _ M']) (simp add: clean_def)
qed

section \<open>Where the cells are\<close>

text \<open>The members of \<open>Node\<close> are at 0, 4, 8, 16, 24 and 28: \<open>time_t\<close> has eight bytes and is aligned within
  the node, whose size is 32. The nodes begin behind the 257 heads, at 1028.\<close>

fun tcell_addr :: "tcell \<Rightarrow> nat" where
  "tcell_addr (Shared (Head i)) = 4 * i"
| "tcell_addr (Shared (Key i)) = p_data_offset + 32 * i"
| "tcell_addr (Shared (Value i)) = p_data_offset + 32 * i + 4"
| "tcell_addr (Ttl i) = p_data_offset + 32 * i + 8"
| "tcell_addr (Death i) = p_data_offset + 32 * i + 16"
| "tcell_addr (Shared (Prev i)) = p_data_offset + 32 * i + 24"
| "tcell_addr (Shared (Next i)) = p_data_offset + 32 * i + 28"

fun tcell_size :: "tcell \<Rightarrow> nat" where
  "tcell_size (Death i) = 8"
| "tcell_size _ = 4"

fun tcell_ok :: "tcell \<Rightarrow> bool" where
  "tcell_ok (Shared c) \<longleftrightarrow> cell_ok c"
| "tcell_ok (Ttl i) \<longleftrightarrow> i < BUFFER_SIZE"
| "tcell_ok (Death i) \<longleftrightarrow> i < BUFFER_SIZE"

definition ttl_mem_size :: nat where
  "ttl_mem_size = (HASH_TABLE_SIZE + 1) * 4 + BUFFER_SIZE * 32"

lemma tcell_in_block: "tcell_ok c \<Longrightarrow> tcell_addr c + tcell_size c \<le> ttl_mem_size"
  by (cases c rule: tcell_addr.cases) (auto simp: ttl_mem_size_def p_data_offset_def HASH_TABLE_SIZE_def BUFFER_SIZE_def)

text \<open>No time of death is where a \<open>time_t\<close> has to be.\<close>

lemma death_misaligned: "\<not> 8 dvd tcell_addr (Death i)"
  by (simp add: p_data_offset_def HASH_TABLE_SIZE_def) presburger

section \<open>Every access is to the block\<close>

fun tvalue_ok :: "tcell \<Rightarrow> int \<Rightarrow> bool" where
  "tvalue_ok (Shared c) v \<longleftrightarrow> value_ok c v"
| "tvalue_ok (Ttl i) v \<longleftrightarrow> sint (word_of_int v :: int32) = v"
| "tvalue_ok (Death i) v \<longleftrightarrow> True"

primrec tsafe :: "tprog \<Rightarrow> bool" where
  "tsafe (TDone r) \<longleftrightarrow> True"
| "tsafe (TLoad c k) \<longleftrightarrow> tcell_ok c \<and> (\<forall>v. tvalue_ok c v \<longrightarrow> tsafe (k v))"
| "tsafe (TStore c v k) \<longleftrightarrow> tcell_ok c \<and> tvalue_ok c v \<and> tsafe k"
| "tsafe (TClock k) \<longleftrightarrow> (\<forall>t. tsafe (k t))"
| "tsafe TStuck \<longleftrightarrow> True"

lemma tsafe_lift: "safe_to (\<lambda>r. tsafe (k r)) p \<Longrightarrow> tsafe (lift p k)"
  by (induction p) auto

lemma tsafe_lift_ptr:
  assumes "\<And>P k'. P (Inl NoMemory) \<Longrightarrow> (\<And>q. ptr_ok q \<Longrightarrow> safe_to P (k' q)) \<Longrightarrow> safe_to P (f k')" "\<And>q. ptr_ok q \<Longrightarrow> tsafe (k q)"
  shows "tsafe (lift_ptr f k)"
  unfolding lift_ptr_def by (rule tsafe_lift, rule assms(1)) (simp_all add: assms(2))

lemma tsafe_find: "(\<And>q. ptr_ok q \<Longrightarrow> tsafe (k q)) \<Longrightarrow> tsafe (ttl_find_prog fuel key k)"
  unfolding ttl_find_prog_def
  by (rule tsafe_lift_ptr) (auto intro!: safe_find simp del: value_ok.simps)

lemma tsafe_set_ttl: "i < BUFFER_SIZE \<Longrightarrow> sint (word_of_int life :: int32) = life \<Longrightarrow> tsafe k \<Longrightarrow> tsafe (set_ttl_prog i life k)"
  by (simp add: set_ttl_prog_def)

lemma tsafe_is_expired: "i < BUFFER_SIZE \<Longrightarrow> (\<And>e. tsafe (k e)) \<Longrightarrow> tsafe (is_expired_prog i k)"
  by (simp add: is_expired_prog_def)

lemma tsafe_free: "i < BUFFER_SIZE \<Longrightarrow> tsafe k \<Longrightarrow> tsafe (ttl_free_prog i k)"
  unfolding ttl_free_prog_def by (rule tsafe_lift, rule safe_set_node_free) simp_all

lemma tsafe_get: "tsafe (ttl_get_prog fuel key)"
  by (auto simp: ttl_get_prog_def intro!: tsafe_find tsafe_is_expired tsafe_set_ttl tsafe_free split: option.split)

lemma tsafe_del: "tsafe (ttl_del_prog fuel key)"
  by (auto simp: ttl_del_prog_def intro!: tsafe_find tsafe_is_expired tsafe_free split: option.split)

lemma tsafe_set: "tsafe (ttl_set_prog fuel key life value)"
  by (auto simp: ttl_set_prog_def Let_def simp del: value_ok.simps split: option.split
      intro!: tsafe_find tsafe_set_ttl tsafe_lift_ptr tsafe_lift safe_get_node_free safe_store_ptr)

lemma tsafe_clean_bucket: "ptr_ok p \<Longrightarrow> tsafe k \<Longrightarrow> tsafe (clean_bucket_prog fuel p k)"
  by (induction fuel p k rule: clean_bucket_prog.induct)
    (auto intro!: tsafe_is_expired tsafe_free simp del: value_ok.simps)

lemma tsafe_clean: "tsafe (clean_prog fuel)"
proof -
  have "\<forall>i\<in>set is. i < NUM_SECTIONS \<Longrightarrow> tsafe (clean_buckets_prog fuel is)" for "is"
    by (induction "is") (auto intro!: tsafe_clean_bucket simp: NUM_SECTIONS_def HASH_TABLE_SIZE_def simp del: value_ok.simps)
  then show ?thesis by (simp add: clean_prog_def)
qed

section \<open>Workers and the cleaner at once\<close>

definition ttl_operations :: "tprog set" where
  "ttl_operations = range (\<lambda>(fuel, key, life, value). ttl_set_prog fuel key life value)
     \<union> range (\<lambda>(fuel, key). ttl_get_prog fuel key) \<union> range (\<lambda>(fuel, key). ttl_del_prog fuel key) \<union> range clean_prog"

inductive tstep :: "ttl_mem \<times> tprog list \<Rightarrow> ttl_mem \<times> tprog list \<Rightarrow> bool" where
  tloads: "i < length ps \<Longrightarrow> ps ! i = TLoad c k \<Longrightarrow> tstep (M, ps) (M, ps[i := k (tload c M)])"
| tstores: "i < length ps \<Longrightarrow> ps ! i = TStore c v k \<Longrightarrow> tstep (M, ps) (tstore c v M, ps[i := k])"
| tclock: "i < length ps \<Longrightarrow> ps ! i = TClock k \<Longrightarrow> tstep (M, ps) (M, ps[i := k now])"
| tnext: "i < length ps \<Longrightarrow> ps ! i = TDone r \<Longrightarrow> p \<in> ttl_operations \<Longrightarrow> tstep (M, ps) (M, ps[i := p])"

definition table_ok :: "ttl_mem \<Rightarrow> bool" where
  "table_ok M \<longleftrightarrow> length (p_table M) = Suc HASH_TABLE_SIZE \<and> length (p_data M) = BUFFER_SIZE
     \<and> (\<forall>c. tcell_ok c \<longrightarrow> tvalue_ok c (tload c M))"

fun t_in_block :: "tprog \<Rightarrow> bool" where
  "t_in_block (TLoad c k) \<longleftrightarrow> tcell_addr c + tcell_size c \<le> ttl_mem_size"
| "t_in_block (TStore c v k) \<longleftrightarrow> tcell_addr c + tcell_size c \<le> ttl_mem_size"
| "t_in_block _ \<longleftrightarrow> True"

lemma load_other_fields:
  "n_prev n = n_prev (p_data M ! i) \<Longrightarrow> n_next n = n_next (p_data M ! i) \<Longrightarrow> node_key n = node_key (p_data M ! i) \<Longrightarrow>
   node_value n = node_value (p_data M ! i) \<Longrightarrow> load c (M\<lparr>p_data := (p_data M)[i := n]\<rparr>) = load c M"
  by (cases c) (auto simp: nth_update_if)

lemma table_ok_store:
  assumes ok: "table_ok M" and c: "tcell_ok c" "tvalue_ok c v"
  shows "table_ok (tstore c v M)"
proof -
  have len: "length (p_table M) = Suc HASH_TABLE_SIZE" "length (p_data M) = BUFFER_SIZE"
    and cells: "\<And>c. cell_ok c \<Longrightarrow> value_ok c (load c M)"
    using ok by (auto simp: table_ok_def dest: spec [of _ "Shared _"])
  have "value_ok c' (load c' (tstore c v M))" if c': "cell_ok c'" for c'
  proof (cases c)
    case (Shared d)
    show ?thesis
    proof (cases "c' = d")
      case True
      with c c' Shared have "value_ok d v" "load c' (tstore c v M) = v"
        using load_store_cell [OF len, of d v] value_ok_sint [of d v] by (auto split: cell.split)
      with True show ?thesis by simp
    qed (use Shared cells [OF c'] load_store_other [of c' d v M] in simp)
  qed (use cells [OF c'] in \<open>simp_all add: load_other_fields\<close>)
  then have "tvalue_ok d (tload d (tstore c v M))" if "tcell_ok d" for d
    using that by (cases d) simp_all
  moreover have "length (p_table (tstore c v M)) = Suc HASH_TABLE_SIZE" "length (p_data (tstore c v M)) = BUFFER_SIZE"
    using len by (cases c; simp)+
  ultimately show ?thesis by (simp add: table_ok_def)
qed

definition tinv :: "ttl_mem \<times> tprog list \<Rightarrow> bool" where
  "tinv s \<longleftrightarrow> table_ok (fst s) \<and> (\<forall>p\<in>set (snd s). tsafe p)"

lemma tsafe_operations: "p \<in> ttl_operations \<Longrightarrow> tsafe p"
  by (auto simp: ttl_operations_def tsafe_set tsafe_get tsafe_del tsafe_clean)

lemma tinv_update: "tinv (M, ps) \<Longrightarrow> table_ok M' \<Longrightarrow> tsafe p \<Longrightarrow> tinv (M', ps[i := p])"
  by (auto simp: tinv_def dest!: set_update_subset_insert [THEN subsetD])

lemma tinv_nth: "tinv (M, ps) \<Longrightarrow> i < length ps \<Longrightarrow> ps ! i = p \<Longrightarrow> tsafe p \<and> table_ok M"
  using nth_mem by (fastforce simp: tinv_def)

lemma tstep_inv: "tstep s s' \<Longrightarrow> tinv s \<Longrightarrow> tinv s'"
proof (induction rule: tstep.induct)
  case (tloads i ps c k M)
  with tinv_nth [OF tloads(3,1,2)] show ?case by (auto intro!: tinv_update simp: table_ok_def)
next
  case (tstores i ps c v k M)
  with tinv_nth [OF tstores(3,1,2)] show ?case by (auto intro!: tinv_update table_ok_store)
next
  case (tclock i ps k M now)
  with tinv_nth [OF tclock(3,1,2)] show ?case by (auto intro!: tinv_update)
next
  case (tnext i ps r p M)
  with tinv_nth [OF tnext(4,1,2)] show ?case by (auto intro!: tinv_update tsafe_operations)
qed

lemma tsafe_in_block: "tsafe p \<Longrightarrow> t_in_block p"
  by (cases p) (auto dest: tcell_in_block)

lemma table_ok_init: "table_ok (ttl_memory_set M)"
proof -
  have "value_ok c (load c (shared_memory_set M))" if "cell_ok c" for c
    using that by (cases c) (auto simp: shared_memory_set_def nth_append BUFFER_SIZE_def)
  then have "tvalue_ok c (tload c (shared_memory_set M))" if "tcell_ok c" for c
    using that by (cases c) auto
  then show ?thesis by (simp add: table_ok_def) (simp add: shared_memory_set_def)
qed

text \<open>C26: Workers and cleaner of p6, whose semaphores exclude nobody, with every access and every reading of
  the clock interleaved, for any number of processes and searches of any length: no access leaves
  the shared memory and every link leads to a node or nowhere, even after a node has been freed twice.\<close>

theorem ttl_memory_safe:
  assumes "tstep\<^sup>*\<^sup>* (ttl_memory_set M0, replicate n (TDone (Inr 0))) (M, ps)"
  shows "(\<forall>p\<in>set ps. t_in_block p) \<and> table_ok M"
proof -
  have "tinv s'" if "tstep\<^sup>*\<^sup>* s s'" "tinv s" for s s'
    using that by (induction rule: rtranclp_induct) (auto intro: tstep_inv)
  moreover have "tinv (ttl_memory_set M0, replicate n (TDone (Inr 0)))" by (simp add: tinv_def table_ok_init del: ttl_memory_set_def)
  ultimately have "tinv (M, ps)" using assms by blast
  then show ?thesis using tsafe_in_block by (auto simp: tinv_def)
qed

theorem ttl_memory_safe_witness:
  "\<forall>M0. tstep\<^sup>*\<^sup>* (ttl_memory_set M0, replicate 2 (TDone (Inr 0))) (ttl_memory_set M0, [ttl_get_prog 9 5, clean_prog 9])
     \<and> t_in_block (clean_prog 9) \<and> table_ok (ttl_memory_set M0)"
proof
  fix M0
  let ?M = "ttl_memory_set M0"
  have op: "ttl_get_prog 9 5 \<in> ttl_operations" "clean_prog 9 \<in> ttl_operations" by (auto simp: ttl_operations_def)
  have "tstep (?M, replicate 2 (TDone (Inr 0))) (?M, [ttl_get_prog 9 5, TDone (Inr 0)])"
    "tstep (?M, [ttl_get_prog 9 5, TDone (Inr 0)]) (?M, [ttl_get_prog 9 5, clean_prog 9])"
    using tnext [OF _ _ op(1), where i = 0 and ps = "replicate 2 (TDone (Inr 0))" and M = ?M]
      tnext [OF _ _ op(2), where i = 1 and ps = "[ttl_get_prog 9 5, TDone (Inr 0)]" and M = ?M]
    by (simp_all add: numeral_2_eq_2)
  then have run: "tstep\<^sup>*\<^sup>* (?M, replicate 2 (TDone (Inr 0))) (?M, [ttl_get_prog 9 5, clean_prog 9])"
    by (meson converse_rtranclp_into_rtranclp rtranclp.rtrancl_refl)
  with ttl_memory_safe [OF run]
  show "tstep\<^sup>*\<^sup>* (?M, replicate 2 (TDone (Inr 0))) (?M, [ttl_get_prog 9 5, clean_prog 9]) \<and> t_in_block (clean_prog 9) \<and> table_ok ?M"
    by simp
qed

end
