(* ===== verification/Cl_Sum.thy ===== *)
theory Cl_Sum imports Prelude begin

text \<open>
  The sum on a graphics card of p11 (p11/main.cpp): choosing a device, building the kernel, filling the
  arrays, and the queue that copies them to the card, runs the kernel once for each index and copies the
  result back. OpenCL decides in which order the 50000 runs of the kernel take their loads and stores: each
  is a step of its own here. What the machine has is an argument, and so are the float operations: the
  conversion of an int, the sine, the cosine and the sum as the card computes it.
\<close>

definition N :: nat where "N = 50000"

section \<open>The card\<close>

text \<open>One run of the kernel, its global id being its place in the list: between which of its accesses it is.\<close>

datatype 'f item = Begun | Loaded_A 'f | Loaded_AB 'f 'f | Ended

record 'f card =
  buffer_A :: "'f list"
  buffer_B :: "'f list"
  buffer_C :: "'f list"
  items :: "'f item list"

text \<open>\<open>C[id] = sin(A[id]) + cos(B[id])\<close>; \<open>op\<close> is the sum of the sine of its first and the cosine of its
  second argument. C++ and OpenCL leave the order of the two loads open.\<close>

inductive kernel_step :: "('f \<Rightarrow> 'f \<Rightarrow> 'f) \<Rightarrow> 'f card \<Rightarrow> 'f card \<Rightarrow> bool" for op where
  load_A: "i < length (items c) \<Longrightarrow> items c ! i = Begun \<Longrightarrow>
     kernel_step op c (c\<lparr>items := (items c)[i := Loaded_A (buffer_A c ! i)]\<rparr>)"
| load_B: "i < length (items c) \<Longrightarrow> items c ! i = Loaded_A a \<Longrightarrow>
     kernel_step op c (c\<lparr>items := (items c)[i := Loaded_AB a (buffer_B c ! i)]\<rparr>)"
| store_C: "i < length (items c) \<Longrightarrow> items c ! i = Loaded_AB a b \<Longrightarrow>
     kernel_step op c (c\<lparr>items := (items c)[i := Ended], buffer_C := (buffer_C c)[i := op a b]\<rparr>)"

definition kernels_done :: "'f card \<Rightarrow> bool" where
  "kernels_done c \<longleftrightarrow> set (items c) \<subseteq> {Ended}"

section \<open>The host\<close>

text \<open>The arrays as the loop fills them; \<open>conv\<close> is the conversion to float.\<close>

definition fill_A :: "(int \<Rightarrow> 'f) \<Rightarrow> 'f list" where
  "fill_A conv = map (\<lambda>i. conv (int i)) [0..<N]"

definition fill_B :: "(int \<Rightarrow> 'f) \<Rightarrow> 'f list" where
  "fill_B conv = map (\<lambda>i. conv (int i mod 3)) [0..<N]"

text \<open>Where the host is: before each of the calls on the queue, in \<open>finish\<close>, or at the end with the
  array \<open>C\<close>. The writes and the read block (\<open>CL_TRUE\<close>), the start of the kernel does not.\<close>

datatype 'f host = Write_A | Write_B | Enqueue_Kernel | Finish | Read_C | Returned "'f list"

text \<open>The calls whose error the code does not look at; one that fails does nothing. The array that \<open>Read_C\<close>
  does not fill then holds what was on the stack.\<close>

datatype cl_call = Call_Write_A | Call_Write_B | Call_Kernel | Call_Read

inductive cl_step :: "cl_call set \<Rightarrow> 'f list \<Rightarrow> (int \<Rightarrow> 'f) \<Rightarrow> ('f \<Rightarrow> 'f \<Rightarrow> 'f) \<Rightarrow> 'f host \<times> 'f card \<Rightarrow> 'f host \<times> 'f card \<Rightarrow> bool"
  for failing stack conv op where
  write_A: "cl_step failing stack conv op (Write_A, c)
     (Write_B, if Call_Write_A \<in> failing then c else c\<lparr>buffer_A := fill_A conv\<rparr>)"
| write_B: "cl_step failing stack conv op (Write_B, c)
     (Enqueue_Kernel, if Call_Write_B \<in> failing then c else c\<lparr>buffer_B := fill_B conv\<rparr>)"
| enqueue: "cl_step failing stack conv op (Enqueue_Kernel, c)
     (Finish, if Call_Kernel \<in> failing then c else c\<lparr>items := replicate N Begun\<rparr>)"
| kernel: "kernel_step op c c' \<Longrightarrow> cl_step failing stack conv op (h, c) (h, c')"
| finish: "kernels_done c \<Longrightarrow> cl_step failing stack conv op (Finish, c) (Read_C, c)"
| read_C: "cl_step failing stack conv op (Read_C, c) (Returned (if Call_Read \<in> failing then stack else buffer_C c), c)"

text \<open>New buffers hold anything.\<close>

definition cl_start :: "'f list \<Rightarrow> 'f list \<Rightarrow> 'f list \<Rightarrow> 'f host \<times> 'f card" where
  "cl_start a b c = (Write_A, \<lparr>buffer_A = a, buffer_B = b, buffer_C = c, items = []\<rparr>)"

section \<open>Choosing the device\<close>

record cl_device =
  device_name :: string
  build_error :: "string option"

record cl_platform =
  platform_name :: string
  cl_devices :: "cl_device list"

text \<open>The beginning of \<open>main\<close>: what it prints, and whether it goes on to the queue or calls
  \<open>exit(1)\<close>. Only the first platform and its first device are looked at.\<close>

definition choose_device :: "cl_platform list \<Rightarrow> string list \<times> (nat + cl_device)" where
  "choose_device all_platforms = (case all_platforms of
      [] \<Rightarrow> ([''No platforms found. Check OpenCL installation!''], Inl 1)
    | default_platform # _ \<Rightarrow>
       (let using_platform = ''Using platform: '' @ platform_name default_platform in
        case cl_devices default_platform of
          [] \<Rightarrow> ([using_platform, ''No devices found. Check OpenCL installation!''], Inl 1)
        | default_device # _ \<Rightarrow>
           (let using_device = ''Using device: '' @ device_name default_device in
            case build_error default_device of
              Some build_log \<Rightarrow> ([using_platform, using_device, '' Error building: '' @ build_log], Inl 1)
            | None \<Rightarrow> ([using_platform, using_device], Inr default_device))))"

lemma choose_device_fails:
  "snd (choose_device ps) = Inl e \<longleftrightarrow> e = 1 \<and>
     (ps = [] \<or> cl_devices (hd ps) = [] \<or> build_error (hd (cl_devices (hd ps))) \<noteq> None)"
  by (auto simp: choose_device_def Let_def split: list.splits option.splits)

section \<open>Invariant\<close>

definition item_ok :: "(int \<Rightarrow> 'f) \<Rightarrow> ('f \<Rightarrow> 'f \<Rightarrow> 'f) \<Rightarrow> 'f card \<Rightarrow> nat \<Rightarrow> bool" where
  "item_ok conv op c i \<longleftrightarrow> (case items c ! i of
      Begun \<Rightarrow> True
    | Loaded_A a \<Rightarrow> a = conv (int i)
    | Loaded_AB a b \<Rightarrow> a = conv (int i) \<and> b = conv (int i mod 3)
    | Ended \<Rightarrow> buffer_C c ! i = op (conv (int i)) (conv (int i mod 3)))"

definition cl_result :: "(int \<Rightarrow> 'f) \<Rightarrow> ('f \<Rightarrow> 'f \<Rightarrow> 'f) \<Rightarrow> 'f list" where
  "cl_result conv op = map (\<lambda>i. op (conv (int i)) (conv (int i mod 3))) [0..<N]"

fun before_kernel :: "'f host \<Rightarrow> bool" where
  "before_kernel Write_A \<longleftrightarrow> True"
| "before_kernel Write_B \<longleftrightarrow> True"
| "before_kernel Enqueue_Kernel \<longleftrightarrow> True"
| "before_kernel _ \<longleftrightarrow> False"

definition card_ok :: "(int \<Rightarrow> 'f) \<Rightarrow> ('f \<Rightarrow> 'f \<Rightarrow> 'f) \<Rightarrow> 'f card \<Rightarrow> bool" where
  "card_ok conv op c \<longleftrightarrow> buffer_A c = fill_A conv \<and> buffer_B c = fill_B conv \<and> length (items c) = N
     \<and> (\<forall>i<N. item_ok conv op c i)"

definition cl_right :: "(int \<Rightarrow> 'f) \<Rightarrow> ('f \<Rightarrow> 'f \<Rightarrow> 'f) \<Rightarrow> 'f host \<times> 'f card \<Rightarrow> bool" where
  "cl_right conv op s \<longleftrightarrow> (case s of (h, c) \<Rightarrow> length (buffer_C c) = N
     \<and> (h \<in> {Write_B, Enqueue_Kernel} \<longrightarrow> buffer_A c = fill_A conv) \<and> (h = Enqueue_Kernel \<longrightarrow> buffer_B c = fill_B conv)
     \<and> (\<not> before_kernel h \<longrightarrow> card_ok conv op c)
     \<and> (h \<noteq> Finish \<and> \<not> before_kernel h \<longrightarrow> kernels_done c)
     \<and> (\<forall>r. h = Returned r \<longrightarrow> r = cl_result conv op))"

definition not_begun :: "'f host \<times> 'f card \<Rightarrow> bool" where
  "not_begun s \<longleftrightarrow> (before_kernel (fst s) \<longrightarrow> items (snd s) = [])"

definition cl_inv :: "cl_call set \<Rightarrow> (int \<Rightarrow> 'f) \<Rightarrow> ('f \<Rightarrow> 'f \<Rightarrow> 'f) \<Rightarrow> 'f host \<times> 'f card \<Rightarrow> bool" where
  "cl_inv failing conv op s \<longleftrightarrow> not_begun s \<and> (failing = {} \<longrightarrow> cl_right conv op s)"

lemma card_ok_result:
  assumes "card_ok conv op c" "kernels_done c" "length (buffer_C c) = N"
  shows "buffer_C c = cl_result conv op"
proof (rule nth_equalityI)
  show "length (buffer_C c) = length (cl_result conv op)" using assms(3) by (simp add: cl_result_def)
  fix i assume "i < length (buffer_C c)"
  with assms(3) have i: "i < N" by simp
  with assms(1) have "items c ! i \<in> set (items c)" by (simp add: card_ok_def)
  with assms(2) have "items c ! i = Ended" by (auto simp: kernels_done_def)
  with assms(1) i show "buffer_C c ! i = cl_result conv op ! i" by (auto simp: card_ok_def item_ok_def cl_result_def)
qed

lemma kernel_step_ok:
  assumes "kernel_step op c c'" "card_ok conv op c" "length (buffer_C c) = N"
  shows "card_ok conv op c' \<and> length (buffer_C c') = N"
  using assms
  by (induction rule: kernel_step.induct)
    (auto simp: card_ok_def item_ok_def nth_list_update fill_A_def fill_B_def split: item.splits)

lemma kernel_step_items: "kernel_step op c c' \<Longrightarrow> \<not> kernels_done c \<and> items c \<noteq> []"
  by (induction rule: kernel_step.induct) (auto simp: kernels_done_def dest!: nth_mem)

lemma cl_step_not_begun: "cl_step failing stack conv op s s' \<Longrightarrow> not_begun s \<Longrightarrow> not_begun s'"
  by (induction rule: cl_step.induct) (auto simp: not_begun_def dest: kernel_step_items)

lemma cl_step_right:
  assumes "cl_step {} stack conv op s s'" "cl_right conv op s" "not_begun s"
  shows "cl_right conv op s'"
  using assms
proof (induction rule: cl_step.induct)
  case (enqueue c)
  then show ?case by (auto simp: cl_right_def card_ok_def item_ok_def)
next
  case (kernel c c' h)
  with kernel_step_items [OF kernel(1)] kernel_step_ok [OF kernel(1)] show ?case
    by (cases h) (auto simp: cl_right_def not_begun_def)
next
  case (read_C c)
  then show ?case using card_ok_result [of conv op c] by (auto simp: cl_right_def)
qed (auto simp: cl_right_def)

lemma cl_step_inv: "cl_step failing stack conv op s s' \<Longrightarrow> cl_inv failing conv op s \<Longrightarrow> cl_inv failing conv op s'"
  unfolding cl_inv_def by (metis cl_step_not_begun cl_step_right)

section \<open>Every run ends\<close>

fun item_work :: "'f item \<Rightarrow> nat" where
  "item_work Begun = 3"
| "item_work (Loaded_A a) = 2"
| "item_work (Loaded_AB a b) = 1"
| "item_work Ended = 0"

fun host_work :: "'f host \<Rightarrow> nat" where
  "host_work Write_A = 3 * N + 5"
| "host_work Write_B = 3 * N + 4"
| "host_work Enqueue_Kernel = 3 * N + 3"
| "host_work Finish = 2"
| "host_work Read_C = 1"
| "host_work (Returned r) = 0"

definition cl_work :: "'f host \<times> 'f card \<Rightarrow> nat" where
  "cl_work s = host_work (fst s) + sum_list (map item_work (items (snd s)))"

definition cl_returned :: "'f host \<times> 'f card \<Rightarrow> bool" where
  "cl_returned s \<longleftrightarrow> (\<exists>r. fst s = Returned r)"

lemma item_work_update:
  "i < length xs \<Longrightarrow> item_work x < item_work (xs ! i) \<Longrightarrow>
     sum_list (map item_work (xs[i := x])) < sum_list (map item_work xs)"
proof (induction xs arbitrary: i)
  case (Cons y xs)
  then show ?case by (cases i) auto
qed simp

lemma cl_step_work: "cl_step failing stack conv op s s' \<Longrightarrow> cl_inv failing conv op s \<Longrightarrow> cl_work s' < cl_work s"
proof (induction rule: cl_step.induct)
  case (kernel c c' h)
  from kernel(1) show ?case
    by (induction rule: kernel_step.induct) (auto simp: cl_work_def intro!: item_work_update)
qed (auto simp: cl_work_def cl_inv_def not_begun_def sum_list_replicate)

lemma kernel_progress: "\<not> kernels_done c \<Longrightarrow> \<exists>c'. kernel_step op c c'"
proof -
  assume "\<not> kernels_done c"
  then obtain i where i: "i < length (items c)" "items c ! i \<noteq> Ended"
    by (auto simp: kernels_done_def subset_eq in_set_conv_nth)
  then show ?thesis by (cases "items c ! i") (blast intro: kernel_step.intros)+
qed

lemma cl_progress: "\<not> cl_returned s \<Longrightarrow> \<exists>s'. cl_step failing stack conv op s s'"
proof -
  assume s: "\<not> cl_returned s"
  obtain h c where hc: "s = (h, c)" by (cases s)
  show ?thesis
  proof (cases h)
    case Finish
    with hc kernel_progress [of c op] show ?thesis by (cases "kernels_done c") (blast intro: cl_step.intros)+
  qed (use hc s in \<open>auto simp: cl_returned_def intro: cl_step.intros\<close>)
qed

interpretation cl: descending "cl_step failing stack conv op" "cl_inv failing conv op" cl_work cl_returned
  by unfold_locales (blast intro: cl_step_inv cl_step_work cl_progress)+

lemma cl_start_inv: "length c = N \<Longrightarrow> cl_inv failing conv op (cl_start a b c)"
  by (simp add: cl_inv_def cl_right_def not_begun_def cl_start_def)

text \<open>A kernel that is not started is not noticed: the array is what the buffer held when it was made.\<close>

lemma kernel_failure_unnoticed:
  assumes "(cl_step {Call_Kernel} stack conv op)\<^sup>*\<^sup>* (cl_start a b c) (Returned r, c')"
  shows "r = c"
proof -
  have "items (snd s) = [] \<and> buffer_C (snd s) = c \<and> (\<forall>r. fst s = Returned r \<longrightarrow> r = c)"
    if "(cl_step {Call_Kernel} stack conv op)\<^sup>*\<^sup>* (cl_start a b c) s" for s
    using that
  proof (induction rule: rtranclp_induct)
    case (step s s')
    from step(2,3) show ?case by (induction rule: cl_step.induct) (auto dest: kernel_step_items)
  qed (simp add: cl_start_def)
  from this [OF assms] show ?thesis by simp
qed

text \<open>C39: However the card schedules the runs of the kernel, and whichever calls on the queue fail, the
  program is never stuck and returns after at most 150005 steps. If none fails, \<open>C[i]\<close> is then the sum of
  \<open>sin i\<close> and \<open>cos (i mod 3)\<close> for every \<open>i\<close>, whatever the buffers held when they were made.\<close>

theorem cl_run_ends:
  assumes "length c = N" "(cl_step failing stack conv op ^^ n) (cl_start a b c) s"
  shows "n \<le> 3 * N + 5 \<and> (case fst s of Returned r \<Rightarrow> failing = {} \<longrightarrow> r = cl_result conv op
     | _ \<Rightarrow> \<exists>s'. cl_step failing stack conv op s s')"
proof -
  have "cl_work (cl_start a b c) = 3 * N + 5" by (simp add: cl_work_def cl_start_def)
  moreover note cl.run_bound [OF assms(2) cl_start_inv [OF assms(1)]]
  ultimately show ?thesis using cl.progress [of failing conv op s stack]
    by (auto simp: cl_inv_def cl_right_def cl_returned_def split: host.split)
qed

theorem cl_run_ends_witness:
  "\<exists>s. (cl_step {} [] id (+))\<^sup>*\<^sup>* (cl_start [] [] (replicate N 0)) s \<and> fst s = Returned (map (\<lambda>i. int i + int i mod 3) [0..<N])"
proof -
  let ?s = "cl_start [] [] (replicate N 0)" and ?op = "(+) :: int \<Rightarrow> int \<Rightarrow> int"
  obtain s r where s: "(cl_step {} [] id ?op)\<^sup>*\<^sup>* ?s s" "fst s = Returned r"
    using cl.run_ends [OF cl_start_inv [of "replicate N 0" "{}" id ?op "[]" "[]"], of "[]"] by (auto simp: cl_returned_def)
  then obtain n where "(cl_step {} [] id ?op ^^ n) ?s s" by (auto simp: rtranclp_power)
  from cl_run_ends [OF _ this] s(2) have "r = map (\<lambda>i. int i + int i mod 3) [0..<N]" by (simp add: cl_result_def)
  with s show ?thesis by blast
qed

end
