(* ===== verification/Spec2Isabelle.thy ===== *)
theory Spec2Isabelle imports Alloc_Props Kv_Props Kv_Race_Props Kv_Queue_Props Kv_Life Ttl_Race Ttl_Life Sort_Main Shell_Failed Hint_Life Proxy_Life Chat_Life Exp_Run Ttl_Access Cl_Sum begin

text \<open>
  A model in Isabelle of the course programs of this repository and the theorems about them.

  \<^bold>\<open>The programs.\<close> Each directory of src is a program of its own, in C++. p1 is a memory allocator
  with handles that can be moved; p2 a chat server and its client; p3 a TCP proxy; p4 a shell;
  p5 a key-value store with worker processes over a table in shared memory; p6 a store whose
  keys expire; p7 a server that completes words; p9 two merge sorts; p10 a sum with MPI; p11
  a sum on a graphics card. They share no code, but the tables of p5 and p6 have the same text
  for the handling of nodes, and that text is modelled once.

  \<^bold>\<open>How code becomes definitions.\<close> A class is a record, its methods are functions that take and
  return it. Names are those of the source. An exception is \<open>Inl\<close>; a method that throws after
  it has changed its object yields an \<open>outcome\<close>, the value or the error with the state
  (Prelude). Behaviour that C++ leaves undefined, a read of a deleted node for one, and a loop
  that does not end are \<open>None\<close>, so a theorem that says \<open>Some\<close> says that the code returns and
  stays defined. Loops over links of unknown shape are \<open>partial_function (option)\<close>; all others
  are total, and only the searches of Kv_Access and Ttl_Access have fuel. Machine integers are words where
  they can wrap (keys, values and ports); a length, an offset or an index is a natural number or an integer. Everything the
  programs get from outside, the outcomes of accept, recv and msgrcv, the clock, random
  numbers, the text of a file, is an argument. Several processes or tasks are
  an inductive step relation, whose reachable states the invariants are about.

  \<^bold>\<open>Shared.\<close> Prelude: outcomes, memory and memmove, lists, and the contract of a system whose runs
  end (the locale \<open>descending\<close>, of the merge sort's tasks, of the stopping store of p5, of the
  closing connections of p3, of the processes of p10 and of the card of p11). Sockets: what recv delivers, and
  set_nonblock. Scan: sscanf and fgets. Server_Life:
  constructors, destructors, main functions and signal handlers of the servers of p2, p5, p6 and
  p7, whose text is nearly the same; the locale \<open>server_life\<close> is their contract, interpreted in
  Hint_Life, Chat_Life, Kv_Life and Ttl_Life, and gives how main ends for every result of the calls:
  which descriptors stay open, when the end is undefined, when all is given back. In these theories
  a handler whose name ends in \<open>_ctl\<close> is that of the server's own theory with the result of every
  epoll_ctl, an error of which leaves the loop; where none fails it is shown to be the same.

  \<^bold>\<open>p1, the allocator\<close> (allocator.h, allocator.cpp). Alloc_Model: the blocks as a list of records
  with numbered nodes, the buffer as a function of bytes, and init, alloc, free, defrag,
  realloc, merge_empty_blocks. Alloc_Inv: the invariants (blocks tile the buffer, no two free
  neighbours) and the reference definitions. Alloc_Ops and Alloc_Realloc: what each operation
  does to the blocks, the live regions and the bytes. Alloc_Interface: the contract of an
  allocator as a locale, what every client run keeps, and the interpretation on the model.
  Alloc_Props: live pointers own disjoint memory whose contents survive what others do, defrag
  compacts, alloc is first fit, realloc grows or throws NoMemory exactly when it has to, and
  the runs where realloc departs from its contract.

  \<^bold>\<open>p5, the key-value store\<close> (HashTable.h, HashTable.cpp, main_worker.cpp, Server.cpp). Node_Pool:
  the pool of 2048 nodes, the pointer class, the free list and the buckets. Node_Pool_Ops: what
  taking, linking and freeing a node does to the lists. Node_Pool_Map: the map a pool stores.
  Hash_Table: set, get, del against that map. Kv_Interface: the contract between a worker and a
  table as a locale, a worker's answers derived from it once, and its interpretation on
  the tables of p5 and p6. Kv_Worker: the message loop, and four workers with the System V
  semaphores interleaved. Kv_Server: lines, messages, replies and the event loop. Kv_Props.
  Kv_Access: the operations of the table as sequences of loads and stores, each alone equal to
  the function of Hash_Table. Kv_Interleave, Kv_Race_Props: these sequences interleaved, one writer
  beside readers, and two writers that ruin the table. Shm_Bytes: the table in the bytes of the shared
  memory, each access a load or store of four of them; what the bytes do is what the table does, and no
  interleaving, races included, leaves the block. A search in Kv_Access has fuel for
  as many nodes as there are, which a chain of distinct nodes cannot exceed. Kv_Queue: setting up
  the System V objects, the message queue between server and workers with its capacity (any
  number; 512 messages where the system's default is 16384 bytes), and stopping. Kv_Queue_Props: no
  message is lost, stopping ends when the queue has room, without room the programs can
  wait for each other for ever, and a get can overtake the set before it, since each line goes to
  the worker that rand() chooses. Kv_Life: main, with what a constructor that fails leaves running.

  \<^bold>\<open>p6, the store with life times\<close> (HashTable.h, HashTable.cpp, Worker.cpp, Server.cpp,
  Routine.cpp, main.cpp). Ttl_Table: nodes with a time to live and a time of death, each
  clock reading an argument. Ttl_Worker: reading lines, working on the table, replying,
  the semaphores, the cleaner. Ttl_Server: accepting clients and passing their descriptors to
  the workers. Ttl_Setup: the named memory and semaphores, the forks and socket pairs, the signal
  handler and the end of main; it leads to the initial state of Ttl_Worker. Ttl_Life: the processes of
  the server and of a worker to their ends, the server with a descriptor of every client it has ever
  accepted. Ttl_Race: a get taken
  apart into its search and the rest, and a node that two workers free. Ttl_Access: every operation and
  the cleaner's pass as accesses to the shared memory and readings of the clock, alone equal to the functions
  of Ttl_Table, and within the memory in every interleaving. Ttl_Props: every sequence of queries refines an abstract map whose entries
  expire; what the cleaner frees; clients are handed over in order; the semaphores, called the
  wrong way round, exclude nothing at first.

  \<^bold>\<open>p7, the hint server\<close> (Trie.h, Trie.cpp, Server.h, Server.cpp). Trie_Model: the trie over 26
  letters and its traversal with two stacks. Trie_Inv, Trie_Words: the trie as a set of words,
  and that the traversal yields the first words with a prefix. Trie_Load: which words a file
  gives. Trie_Free: the destructor. Hint_Server: clients, requests, the reloading of a
  changed file, the event loop. Hint_Props. Hint_Life: main.

  \<^bold>\<open>p2, the chat\<close> (Message.cpp, Server.cpp, Client.cpp). Chat_Server: a message as a list of
  blocks, reading and broadcasting. Chat_Client: reading lines, sending and printing.
  Chat_Props: all clients see the same messages, whole and in one order, and what becomes of a typed
  line. Chat_Life: the main
  functions of server and client.

  \<^bold>\<open>p3, the proxy\<close> (config_parser.cpp, proxy.h, proxy.cpp). Config_Parser: the text of the
  configuration, read with getline and stoi. Proxy: a connection as the set of its pending
  asynchronous operations, the library completing any of them (\<open>conn_step\<close>); the listeners.
  Proxy_Props: a written configuration is read back, bytes are relayed in order if every send is whole,
  and an active connection never stalls, whether they are or not. Proxy_Life: what happens to a connection after its sockets are
  closed (at most three completions for each operation under way, then the destructor), the
  accepting of a listener, main.

  \<^bold>\<open>p4, the shell\<close> (Parser.cpp, Operand.h, Operand.cpp, main.cpp). Shell_Parser: from a line to
  operands, and the tokens of a line, which they are. Shell: from operands to commands, redirections, pipes, and the loop that runs
  commands joined by && and ||; there a descriptor is what it refers to, and the running of one
  command is an argument of \<open>run\<close>. Shell_Process: the same with descriptor tables, fork, dup2, close and wait,
  and the shell's state from line to line. Shell_Refine: the second carries out the first.
  Shell_Pipeline: which descriptors are open while a pipeline runs. Shell_Failed: a child that could
  not start its program and goes on as a second shell. Shell_Props, Shell_Process_Props.

  \<^bold>\<open>p9, the merge sorts\<close> (n_merge_sort.cpp, p_merge_sort.cpp). Merge_Sort: the sequential code, and
  the OpenMP tasks as a tree that any ready task can rewrite. Sort_Props: the result is sorted
  and permuted, and no schedule changes it. Sort_Main: the main functions.

  \<^bold>\<open>p10\<close> (main.cpp). Exp_Sum: the parts of the series in any number of processes, for any
  arithmetic; what they add up to is stated for exact arithmetic. Exp_Run: the processes with their
  messages, whose every run ends with that result.

  \<^bold>\<open>p11\<close> (main.cpp). Cl_Sum: the choice of the device, the commands of the queue, and the 50000 runs of the
  kernel interleaved; every run of the program ends, with the same array if no call on the queue fails. The
  float operations are arguments.

  \<^bold>\<open>What is not modelled.\<close> Log output and the clock of p9. Sends are taken to be whole where the code
  does not look at their result. A signal comes between two turns of a loop. In p4 what a started
  program does; Shell_Failed has a failing execvp for the first command of a line, not the two shells
  reading the same input side by side. In Kv_Queue a worker's work on the table is one step, which
  Kv_Worker and Kv_Interleave take apart. In p6 a worker's work on the table is one step but for Ttl_Race
  and Ttl_Access, and semaphores can always be opened. In p10 the rounding of doubles. Tests, scripts and thirdparty (Google Test) are not program code.
\<close>

end
